(* ===== verification/Prelude.thy ===== *)
theory Prelude
  imports Main "HOL-Library.Word" "HOL-Library.Multiset"
begin

text \<open>
  Shared vocabulary of the development: the widths of the machine values the TypeScript code
  handles (bytes of a Blob, UTF-16 code units of a string), results of code that may throw, the
  collections of simplification rules the component proofs draw on, and generic facts on lists,
  insertion-ordered association lists and transition systems.
\<close>

section \<open>Names for types and fact collections\<close>

type_synonym byte = "8 word"
type_synonym code_unit = "16 word"
type_synonym jsstring = "code_unit list"

named_theorems result_simps \<open>rules for code that may throw\<close>
named_theorems obj_simps \<open>rules for property lookup and update on objects\<close>
named_theorems string_simps \<open>rules for the string operations\<close>
named_theorems step_intros \<open>introduction rules of step relations and invariants\<close>

lemma filter_length_update:
  "i < length xs \<Longrightarrow> \<not> P (xs ! i) \<Longrightarrow>
   length (filter P (xs[i := x])) = length (filter P xs) + (if P x then 1 else 0)"
proof (induction xs arbitrary: i)
  case (Cons y ys)
  then show ?case by (cases i) auto
qed simp

section \<open>Results: a thrown error or a value\<close>

fun andThen :: "'e + 'a \<Rightarrow> ('a \<Rightarrow> 'e + 'b) \<Rightarrow> 'e + 'b" where
  "andThen (Inl e) f = Inl e"
| "andThen (Inr x) f = f x"

fun is_ok :: "'e + 'a \<Rightarrow> bool" where
  "is_ok (Inl e) = False"
| "is_ok (Inr x) = True"

text \<open>Runs the body over the list from the left and stops at the first throw.\<close>

fun map_result :: "('a \<Rightarrow> 'e + 'b) \<Rightarrow> 'a list \<Rightarrow> 'e + 'b list" where
  "map_result f [] = Inr []"
| "map_result f (x # xs) = andThen (f x) (\<lambda>y. andThen (map_result f xs) (\<lambda>ys. Inr (y # ys)))"

lemma andThen_eq_Inr [result_simps]:
  "andThen r f = Inr y \<longleftrightarrow> (\<exists>x. r = Inr x \<and> f x = Inr y)"
  by (cases r) auto

lemma andThen_eq_Inl [result_simps]:
  "andThen r f = Inl e \<longleftrightarrow> r = Inl e \<or> (\<exists>x. r = Inr x \<and> f x = Inl e)"
  by (cases r) auto

lemma map_result_Inr_map:
  "(\<And>x. x \<in> set xs \<Longrightarrow> f x = Inr (g x)) \<Longrightarrow> map_result f xs = Inr (map g xs)"
  by (induction xs) auto

lemma map_result_Inl_iff:
  "(\<exists>e. map_result f xs = Inl e) \<longleftrightarrow> (\<exists>x \<in> set xs. \<exists>e. f x = Inl e)"
proof (induction xs)
  case Nil
  show ?case by simp
next
  case (Cons x xs)
  show ?case
  proof (cases "f x")
    case (Inl e)
    then show ?thesis by auto
  next
    case (Inr y)
    with Cons show ?thesis by (cases "map_result f xs") auto
  qed
qed

section \<open>Objects as insertion-ordered association lists\<close>

text \<open>
  A plain object keeps its properties in creation order: assigning an existing key changes the
  value in place, a new key goes to the end, \<^verbatim>\<open>delete\<close> removes it.
\<close>

type_synonym 'v props = "(jsstring \<times> 'v) list"

fun obj_set :: "'k \<Rightarrow> 'v \<Rightarrow> ('k \<times> 'v) list \<Rightarrow> ('k \<times> 'v) list" where
  "obj_set k v [] = [(k, v)]"
| "obj_set k v ((k', v') # ps) = (if k = k' then (k, v) # ps else (k', v') # obj_set k v ps)"

definition obj_get :: "('k \<times> 'v) list \<Rightarrow> 'k \<Rightarrow> 'v option" where
  "obj_get ps k = map_of ps k"

definition obj_del :: "'k \<Rightarrow> ('k \<times> 'v) list \<Rightarrow> ('k \<times> 'v) list" where
  "obj_del k ps = filter (\<lambda>p. fst p \<noteq> k) ps"

abbreviation obj_keys :: "('k \<times> 'v) list \<Rightarrow> 'k list" where
  "obj_keys ps \<equiv> map fst ps"

abbreviation obj_wf :: "('k \<times> 'v) list \<Rightarrow> bool" where
  "obj_wf ps \<equiv> distinct (obj_keys ps)"

lemma obj_get_Nil [obj_simps]: "obj_get [] k = None"
  by (simp add: obj_get_def)

lemma obj_get_Cons [obj_simps]:
  "obj_get ((k', v) # ps) k = (if k = k' then Some v else obj_get ps k)"
  by (auto simp: obj_get_def)

lemma obj_get_set [obj_simps]: "obj_get (obj_set k v ps) k' = (if k' = k then Some v else obj_get ps k')"
  by (induction ps rule: obj_set.induct) (auto simp: obj_simps)

lemma obj_get_del [obj_simps]: "obj_get (obj_del k ps) k' = (if k' = k then None else obj_get ps k')"
  by (induction ps) (auto simp: obj_simps obj_del_def)

lemma set_keys_obj_set [obj_simps]: "set (obj_keys (obj_set k v ps)) = insert k (set (obj_keys ps))"
  by (induction ps rule: obj_set.induct) auto

lemma obj_wf_set [obj_simps]: "obj_wf ps \<Longrightarrow> obj_wf (obj_set k v ps)"
proof (induction ps rule: obj_set.induct)
  case (1 k v)
  then show ?case by simp
next
  case (2 k v k' v' ps)
  then show ?case
    using set_keys_obj_set [of k v ps] by auto
qed

lemma obj_wf_del [obj_simps]: "obj_wf ps \<Longrightarrow> obj_wf (obj_del k ps)"
  by (simp add: obj_del_def distinct_map_filter)

lemma obj_get_None_iff [obj_simps]: "obj_get ps k = None \<longleftrightarrow> k \<notin> set (obj_keys ps)"
  by (simp add: obj_get_def map_of_eq_None_iff)

lemma obj_get_Some_iff: "obj_wf ps \<Longrightarrow> obj_get ps k = Some v \<longleftrightarrow> (k, v) \<in> set ps"
  by (simp add: obj_get_def map_of_eq_Some_iff)

lemma obj_set_new: "k \<notin> set (obj_keys ps) \<Longrightarrow> obj_set k v ps = ps @ [(k, v)]"
  by (induction ps) auto

lemma obj_del_notin: "k \<notin> set (obj_keys ps) \<Longrightarrow> obj_del k ps = ps"
  by (induction ps) (auto simp: obj_del_def)

text \<open>Assigning a list of properties one after the other, as \<^verbatim>\<open>Object.assign\<close> and
  \<^verbatim>\<open>Object.fromEntries\<close> do.\<close>

definition obj_assign :: "('k \<times> 'v) list \<Rightarrow> ('k \<times> 'v) list \<Rightarrow> ('k \<times> 'v) list" where
  "obj_assign target source = fold (\<lambda>(k, v) ps. obj_set k v ps) source target"

lemma obj_assign_Nil [obj_simps]: "obj_assign ps [] = ps"
  by (simp add: obj_assign_def)

lemma obj_assign_Cons [obj_simps]: "obj_assign ps ((k, v) # qs) = obj_assign (obj_set k v ps) qs"
  by (simp add: obj_assign_def)

lemma obj_wf_assign: "obj_wf ps \<Longrightarrow> obj_wf (obj_assign ps qs)"
  by (induction qs arbitrary: ps) (auto simp: obj_simps)

lemma obj_assign_disjoint:
  "obj_wf qs \<Longrightarrow> set (obj_keys ps) \<inter> set (obj_keys qs) = {} \<Longrightarrow> obj_assign ps qs = ps @ qs"
proof (induction qs arbitrary: ps)
  case Nil
  then show ?case by (simp add: obj_simps)
next
  case (Cons q qs)
  obtain k v where q: "q = (k, v)" by (cases q)
  with Cons.prems have "obj_set k v ps = ps @ [(k, v)]"
    by (intro obj_set_new) auto
  moreover have "obj_assign (ps @ [(k, v)]) qs = (ps @ [(k, v)]) @ qs"
    using Cons.prems q by (intro Cons.IH) auto
  ultimately show ?case using q by (simp add: obj_simps)
qed

lemma obj_assign_empty: "obj_wf qs \<Longrightarrow> obj_assign [] qs = qs"
  by (simp add: obj_assign_disjoint)

lemma obj_get_assign: "obj_get (obj_assign ps qs) k = (case obj_get (rev qs) k of Some v \<Rightarrow> Some v | None \<Rightarrow> obj_get ps k)"
proof (induction qs rule: rev_induct)
  case Nil
  then show ?case by (simp add: obj_simps)
next
  case (snoc q qs)
  then show ?case
    by (cases q) (auto simp: obj_assign_def obj_simps split: option.splits)
qed

section \<open>Transition systems and their invariants\<close>

text \<open>
  The stateful components are step relations over a record of their variables. A component
  provides the initial states, the steps and a predicate every step keeps; the reachable states
  then all satisfy it.
\<close>

inductive reach :: "('s \<Rightarrow> bool) \<Rightarrow> ('s \<Rightarrow> 's \<Rightarrow> bool) \<Rightarrow> 's \<Rightarrow> bool"
  for start :: "'s \<Rightarrow> bool" and step :: "'s \<Rightarrow> 's \<Rightarrow> bool" where
  reach_start [step_intros]: "start s \<Longrightarrow> reach start step s"
| reach_step [step_intros]: "reach start step s \<Longrightarrow> step s t \<Longrightarrow> reach start step t"

lemma reach_steps: "step\<^sup>*\<^sup>* s t \<Longrightarrow> reach start step s \<Longrightarrow> reach start step t"
  by (induction rule: rtranclp_induct) (auto intro: reach_step)

locale invariant_system =
  fixes start :: "'s \<Rightarrow> bool"
    and step :: "'s \<Rightarrow> 's \<Rightarrow> bool"
    and inv :: "'s \<Rightarrow> bool"
  assumes inv_start: "start s \<Longrightarrow> inv s"
    and inv_step: "inv s \<Longrightarrow> step s t \<Longrightarrow> inv t"
begin

lemma inv_reach: "reach start step s \<Longrightarrow> inv s"
  by (induction rule: reach.induct) (auto intro: inv_start inv_step)

lemma inv_rtranclp: "inv s \<Longrightarrow> step\<^sup>*\<^sup>* s t \<Longrightarrow> inv t"
  by (rotate_tac, induction rule: rtranclp_induct) (auto intro: inv_step)

end

end
