(* ===== verification/Js_String.thy ===== *)
theory Js_String
  imports Prelude
begin

text \<open>
  The operations on JavaScript strings the code uses, on lists of UTF-16 code units: the white
  space of \<^verbatim>\<open>\s\<close> and \<^verbatim>\<open>trim\<close>, \<^verbatim>\<open>split\<close> on the two patterns the code has, case conversion,
  decimal printing of integers and \<^verbatim>\<open>parseInt\<close>. Unicode's case tables for strings beyond ASCII are
  a parameter (\<open>unicode\<close>).
\<close>

section \<open>Literals and character classes\<close>

definition js :: "string \<Rightarrow> jsstring" where
  "js s = map of_char s"

definition is_ascii :: "jsstring \<Rightarrow> bool" where
  "is_ascii s = list_all (\<lambda>c. c < 128) s"

abbreviation LF :: "'a::len word" where "LF \<equiv> 10"
abbreviation CR :: "'a::len word" where "CR \<equiv> 13"

text \<open>ECMAScript WhiteSpace and LineTerminator: the set of \<^verbatim>\<open>\s\<close>, \<^verbatim>\<open>trim\<close> and \<^verbatim>\<open>trimStart\<close>.\<close>

definition js_space :: "code_unit \<Rightarrow> bool" where
  "js_space c = ((9 \<le> c \<and> c \<le> 13) \<or> c = 32 \<or> c = 160 \<or> c = 0x1680 \<or>
     (0x2000 \<le> c \<and> c \<le> 0x200A) \<or> c = 0x2028 \<or> c = 0x2029 \<or> c = 0x202F \<or> c = 0x205F \<or>
     c = 0x3000 \<or> c = 0xFEFF)"

definition trimStart :: "jsstring \<Rightarrow> jsstring" where
  "trimStart s = dropWhile js_space s"

definition trimEnd :: "jsstring \<Rightarrow> jsstring" where
  "trimEnd s = rev (dropWhile js_space (rev s))"

definition trim :: "jsstring \<Rightarrow> jsstring" where
  "trim s = trimEnd (trimStart s)"

section \<open>Case conversion\<close>

record unicode =
  uni_upper :: "jsstring \<Rightarrow> jsstring"
  uni_lower :: "jsstring \<Rightarrow> jsstring"

definition ascii_upper :: "code_unit \<Rightarrow> code_unit" where
  "ascii_upper c = (if 97 \<le> c \<and> c \<le> 122 then c - 32 else c)"

definition ascii_lower :: "code_unit \<Rightarrow> code_unit" where
  "ascii_lower c = (if 65 \<le> c \<and> c \<le> 90 then c + 32 else c)"

definition toUpperCase :: "('z) unicode_scheme \<Rightarrow> jsstring \<Rightarrow> jsstring" where
  "toUpperCase u s = (if is_ascii s then map ascii_upper s else uni_upper u s)"

definition toLowerCase :: "('z) unicode_scheme \<Rightarrow> jsstring \<Rightarrow> jsstring" where
  "toLowerCase u s = (if is_ascii s then map ascii_lower s else uni_lower u s)"

section \<open>Splitting and joining\<close>

text \<open>\<^verbatim>\<open>s.split(/[...]+/)\<close>: the pieces between maximal runs of separators.\<close>

function split_runs :: "('a \<Rightarrow> bool) \<Rightarrow> 'a list \<Rightarrow> 'a list list" where
  "split_runs p s =
     (let rest = dropWhile (\<lambda>c. \<not> p c) s
      in if rest = [] then [s]
         else takeWhile (\<lambda>c. \<not> p c) s # split_runs p (dropWhile p rest))"
  by pat_completeness auto
termination
proof (relation "measure (\<lambda>(p, s). length s)", goal_cases)
  case 1
  then show ?case by simp
next
  case (2 p s rest)
  then obtain c cs where rest: "rest = c # cs" by (metis list.exhaust)
  then have "p c" using 2 by (metis hd_dropWhile list.sel(1) list.simps(3))
  with rest have "length (dropWhile p rest) < length rest"
    by (simp add: le_imp_less_Suc length_dropWhile_le)
  also have "length rest \<le> length s"
    using 2 by (simp add: length_dropWhile_le)
  finally show ?case by simp
qed

declare split_runs.simps [simp del]

text \<open>\<^verbatim>\<open>s.split(/\r?\n/)\<close>.\<close>

fun split_lines :: "jsstring \<Rightarrow> jsstring list" where
  "split_lines [] = [[]]"
| "split_lines (c # cs) =
     (if c = LF then [] # split_lines cs
      else if c = CR \<and> cs \<noteq> [] \<and> hd cs = LF then [] # split_lines (tl cs)
      else (case split_lines cs of l # ls \<Rightarrow> (c # l) # ls | [] \<Rightarrow> [[c]]))"

fun join :: "'a list \<Rightarrow> 'a list list \<Rightarrow> 'a list" where
  "join sep [] = []"
| "join sep [x] = x"
| "join sep (x # y # ys) = x @ sep @ join sep (y # ys)"

text \<open>\<^verbatim>\<open>s.indexOf(c)\<close>, with \<open>None\<close> for -1.\<close>

fun indexOf :: "'a \<Rightarrow> 'a list \<Rightarrow> nat option" where
  "indexOf c [] = None"
| "indexOf c (x # xs) = (if x = c then Some 0 else map_option Suc (indexOf c xs))"

section \<open>Integers as strings\<close>

definition digit :: "nat \<Rightarrow> code_unit" where
  "digit d = of_nat (48 + d)"

fun dec_string :: "nat \<Rightarrow> jsstring" where
  "dec_string n = (if n < 10 then [digit n] else dec_string (n div 10) @ [digit (n mod 10)])"

declare dec_string.simps [simp del]

text \<open>The value of a digit of \<^verbatim>\<open>parseInt\<close> with the given radix, 10 or 16.\<close>

definition digit_value :: "nat \<Rightarrow> code_unit \<Rightarrow> nat option" where
  "digit_value radix c =
     (let v = (if 48 \<le> c \<and> c \<le> 57 then Some (unat c - 48)
               else if 97 \<le> c \<and> c \<le> 122 then Some (unat c - 87)
               else if 65 \<le> c \<and> c \<le> 90 then Some (unat c - 55)
               else None)
      in case v of None \<Rightarrow> None | Some d \<Rightarrow> if d < radix then Some d else None)"

fun digits_prefix :: "nat \<Rightarrow> jsstring \<Rightarrow> nat list" where
  "digits_prefix radix [] = []"
| "digits_prefix radix (c # cs) =
     (case digit_value radix c of None \<Rightarrow> [] | Some d \<Rightarrow> d # digits_prefix radix cs)"

definition digits_value :: "nat \<Rightarrow> nat list \<Rightarrow> nat" where
  "digits_value radix ds = foldl (\<lambda>acc d. radix * acc + d) 0 ds"

text \<open>
  \<^verbatim>\<open>parseInt(s)\<close> without a radix: white space, a sign, a \<^verbatim>\<open>0x\<close> prefix, then the longest run of
  digits; \<open>None\<close> is \<^verbatim>\<open>NaN\<close>.
\<close>

definition parseInt :: "jsstring \<Rightarrow> int option" where
  "parseInt s0 =
     (let s1 = trimStart s0;
          neg = (s1 \<noteq> [] \<and> hd s1 = 45);
          s2 = (if s1 \<noteq> [] \<and> (hd s1 = 43 \<or> hd s1 = 45) then tl s1 else s1);
          hex = (length s2 \<ge> 2 \<and> s2 ! 0 = 48 \<and> (s2 ! 1 = 120 \<or> s2 ! 1 = 88));
          radix = (if hex then 16 else 10);
          ds = digits_prefix radix (if hex then drop 2 s2 else s2)
      in if ds = [] then None
         else Some ((if neg then - 1 else 1) * int (digits_value radix ds)))"

section \<open>Facts on strings\<close>

lemma is_ascii_simps [simp]:
  "is_ascii []" "is_ascii (c # cs) \<longleftrightarrow> c < 128 \<and> is_ascii cs"
  "is_ascii (s @ t) \<longleftrightarrow> is_ascii s \<and> is_ascii t"
  by (auto simp: is_ascii_def)

lemma is_ascii_tl: "is_ascii s \<Longrightarrow> is_ascii (tl s)"
  by (cases s) auto

lemma is_ascii_iff: "is_ascii s \<longleftrightarrow> (\<forall>c \<in> set s. c < 128)"
  by (simp add: is_ascii_def list_all_iff)

lemma join_Cons: "ys \<noteq> [] \<Longrightarrow> join sep (x # ys) = x @ sep @ join sep ys"
  by (cases ys) auto

lemma split_lines_nonempty: "split_lines s \<noteq> []"
  by (induction s rule: split_lines.induct) (auto split: list.splits)

text \<open>A line without line feeds that does not end in a carriage return is one piece.\<close>

definition plain_line :: "jsstring \<Rightarrow> bool" where
  "plain_line l = (LF \<notin> set l \<and> (l = [] \<or> last l \<noteq> CR))"

lemma split_lines_plain: "LF \<notin> set l \<Longrightarrow> split_lines l = [l]"
proof (induction l)
  case (Cons c l)
  then have "\<not> (c = CR \<and> l \<noteq> [] \<and> hd l = LF)" by (cases l) auto
  with Cons show ?case by simp
qed simp

lemma split_lines_append:
  "plain_line l \<Longrightarrow> split_lines (l @ LF # rest) = l # split_lines rest"
proof (induction l)
  case Nil
  then show ?case by simp
next
  case (Cons c l)
  then have c: "c \<noteq> LF" and l: "plain_line l"
    by (auto simp: plain_line_def split: if_splits)
  have "\<not> (c = CR \<and> l @ LF # rest \<noteq> [] \<and> hd (l @ LF # rest) = LF)"
    using Cons.prems by (cases l) (auto simp: plain_line_def)
  with c Cons.IH [OF l] show ?case by simp
qed

lemma split_lines_crlf:
  "plain_line l \<Longrightarrow> split_lines (l @ CR # LF # rest) = l # split_lines rest"
proof (induction l)
  case (Cons c l)
  then have c: "c \<noteq> LF" and l: "plain_line l"
    by (auto simp: plain_line_def split: if_splits)
  have "\<not> (c = CR \<and> hd (l @ CR # LF # rest) = LF)"
    using Cons.prems by (cases l) (auto simp: plain_line_def)
  with c Cons.IH [OF l] show ?case by simp
qed simp

lemma dropWhile_id: "xs = [] \<or> \<not> p (hd xs) \<Longrightarrow> dropWhile p xs = xs"
  by (cases xs) auto

definition trimmed :: "jsstring \<Rightarrow> bool" where
  "trimmed s = (s = [] \<or> (\<not> js_space (hd s) \<and> \<not> js_space (last s)))"

lemma trimStart_trimmed: "trimmed s \<Longrightarrow> trimStart s = s"
  by (auto simp: trimmed_def trimStart_def intro: dropWhile_id)

lemma trim_trimmed: "trimmed s \<Longrightarrow> trim s = s"
  by (auto simp: trim_def trimStart_trimmed trimEnd_def trimmed_def dropWhile_id hd_rev)

lemma trimEnd_append_space: "js_space c \<Longrightarrow> trimEnd (s @ [c]) = trimEnd s"
  by (simp add: trimEnd_def)

lemma indexOf_None_iff: "indexOf c xs = None \<longleftrightarrow> c \<notin> set xs"
  by (induction xs) auto

lemma indexOf_append: "c \<notin> set xs \<Longrightarrow> indexOf c (xs @ c # ys) = Some (length xs)"
  by (induction xs) auto

section \<open>Printing and reading decimal numbers\<close>

lemma unat_of_nat_small: "n < 65536 \<Longrightarrow> unat (of_nat n :: code_unit) = n"
  by (simp add: unat_of_nat take_bit_nat_eq_self)

lemma unat_digit: "d < 10 \<Longrightarrow> unat (digit d) = 48 + d"
  using unat_of_nat_small [of "48 + d"] by (simp add: digit_def)

lemma digit_range: "d < 10 \<Longrightarrow> 48 \<le> digit d \<and> digit d \<le> 57"
  by (simp add: word_le_nat_alt unat_digit)

lemma digit_value_digit: "d < 10 \<Longrightarrow> digit_value 10 (digit d) = Some d"
  by (simp add: digit_value_def digit_range unat_digit)

lemma dec_string_digits: "c \<in> set (dec_string n) \<Longrightarrow> 48 \<le> c \<and> c \<le> 57"
proof (induction n rule: dec_string.induct)
  case (1 n)
  then show ?case
    by (subst (asm) (2) dec_string.simps) (auto simp: digit_range split: if_splits)
qed

lemma dec_string_nonempty: "dec_string n \<noteq> []"
  by (subst dec_string.simps) simp

lemma digits_prefix_append:
  "(\<And>c. c \<in> set s \<Longrightarrow> digit_value r c \<noteq> None) \<Longrightarrow>
   digits_prefix r (s @ t) = digits_prefix r s @ digits_prefix r t"
proof (induction s)
  case (Cons c s)
  then obtain d where "digit_value r c = Some d" by fastforce
  with Cons show ?case by simp
qed simp

lemma digit_value_ten: "48 \<le> c \<and> c \<le> 57 \<Longrightarrow> digit_value 10 c \<noteq> None"
  by (auto simp: digit_value_def word_le_nat_alt)

lemma digits_value_snoc: "digits_value r (ds @ [d]) = r * digits_value r ds + d"
  by (simp add: digits_value_def)

lemma digits_prefix_dec_string:
  "digits_prefix 10 (dec_string n) \<noteq> [] \<and> digits_value 10 (digits_prefix 10 (dec_string n)) = n"
proof (induction n rule: dec_string.induct)
  case (1 n)
  show ?case
  proof (cases "n < 10")
    case True
    then show ?thesis
      by (simp add: dec_string.simps [of n] digit_value_digit digits_value_def)
  next
    case False
    have "digits_prefix 10 (dec_string (n div 10) @ [digit (n mod 10)])
        = digits_prefix 10 (dec_string (n div 10)) @ [n mod 10]"
      using digits_prefix_append [of "dec_string (n div 10)" 10, OF digit_value_ten [OF dec_string_digits]]
      by (simp add: digit_value_digit)
    with 1 False show ?thesis
      by (simp add: dec_string.simps [of n] digits_value_snoc)
  qed
qed

lemma dec_string_inj: "dec_string m = dec_string n \<longleftrightarrow> m = n"
  by (metis digits_prefix_dec_string)

lemma digit_not_space: "48 \<le> c \<and> c \<le> 57 \<Longrightarrow> \<not> js_space c"
  by (auto simp: js_space_def word_le_nat_alt)

lemma parseInt_dec_string: "parseInt (dec_string n) = Some (int n)"
proof -
  let ?s = "dec_string n"
  obtain c cs where s: "?s = c # cs"
    using dec_string_nonempty by (cases ?s) auto
  have c: "48 \<le> c \<and> c \<le> 57" using dec_string_digits [of c n] s by simp
  then have trim: "trimStart ?s = ?s"
    by (simp add: trimStart_def s digit_not_space)
  have sign: "c \<noteq> 43" "c \<noteq> 45"
    using c by (auto simp: word_le_nat_alt)
  have hex: "\<not> (length ?s \<ge> 2 \<and> ?s ! 0 = 48 \<and> (?s ! 1 = 120 \<or> ?s ! 1 = 88))"
  proof
    assume h: "length ?s \<ge> 2 \<and> ?s ! 0 = 48 \<and> (?s ! 1 = 120 \<or> ?s ! 1 = 88)"
    then have "48 \<le> ?s ! 1 \<and> ?s ! 1 \<le> 57"
      by (intro dec_string_digits [of _ n] nth_mem) linarith
    with h show False by (auto simp: word_le_nat_alt)
  qed
  show ?thesis
    using sign hex digits_prefix_dec_string [of n]
    unfolding parseInt_def Let_def trim by (auto simp: s)
qed

end
