(* ===== verification/Blob.thy ===== *)
theory Blob
  imports Js_String
begin

text \<open>
  Blobs and their conversions: a Blob is a byte sequence with a media type. \<open>utf8_encode\<close> is what
  \<^verbatim>\<open>new Blob([string])\<close> does to a string part, \<open>utf8_decode\<close> what \<^verbatim>\<open>blob.text()\<close> does to the bytes
  (the decoder of the Encoding standard: byte order mark dropped, every malformed sequence one
  U+FFFD), \<open>blob_slice\<close> is \<^verbatim>\<open>blob.slice\<close> with its clamping of negative and overlong positions.
\<close>

section \<open>UTF-16 and Unicode code points\<close>

definition is_high :: "code_unit \<Rightarrow> bool" where
  "is_high c = (0xD800 \<le> c \<and> c \<le> 0xDBFF)"

definition is_low :: "code_unit \<Rightarrow> bool" where
  "is_low c = (0xDC00 \<le> c \<and> c \<le> 0xDFFF)"

text \<open>A string as code points; an unpaired surrogate becomes U+FFFD.\<close>

fun code_points :: "jsstring \<Rightarrow> nat list" where
  "code_points [] = []"
| "code_points [c] = (if is_high c \<or> is_low c then [0xFFFD] else [unat c])"
| "code_points (c # d # cs) =
     (if is_high c \<and> is_low d
      then (0x10000 + (unat c - 0xD800) * 0x400 + (unat d - 0xDC00)) # code_points cs
      else (if is_high c \<or> is_low c then 0xFFFD else unat c) # code_points (d # cs))"

definition utf16_units :: "nat \<Rightarrow> jsstring" where
  "utf16_units p =
     (if p < 0x10000 then [of_nat p]
      else [of_nat (0xD800 + (p - 0x10000) div 0x400), of_nat (0xDC00 + (p - 0x10000) mod 0x400)])"

section \<open>UTF-8\<close>

definition utf8_nats :: "nat \<Rightarrow> nat list" where
  "utf8_nats p =
     (if p < 0x80 then [p]
      else if p < 0x800 then [0xC0 + p div 0x40, 0x80 + p mod 0x40]
      else if p < 0x10000 then
        [0xE0 + p div 0x1000, 0x80 + p div 0x40 mod 0x40, 0x80 + p mod 0x40]
      else
        [0xF0 + p div 0x40000, 0x80 + p div 0x1000 mod 0x40, 0x80 + p div 0x40 mod 0x40,
         0x80 + p mod 0x40])"

definition utf8_bytes :: "nat \<Rightarrow> byte list" where
  "utf8_bytes p = map of_nat (utf8_nats p)"

definition utf8_encode :: "jsstring \<Rightarrow> byte list" where
  "utf8_encode s = concat (map utf8_bytes (code_points s))"

text \<open>The decoder's variables: code point so far, bytes still needed, and the bounds of the next byte.\<close>

record utf8_state =
  u_point :: nat
  u_needed :: nat
  u_lower :: nat
  u_upper :: nat

definition utf8_idle :: utf8_state where
  "utf8_idle = \<lparr>u_point = 0, u_needed = 0, u_lower = 0x80, u_upper = 0xBF\<rparr>"

definition utf8_first :: "nat \<Rightarrow> nat list \<times> utf8_state" where
  "utf8_first b =
     (if b < 0x80 then ([b], utf8_idle)
      else if 0xC2 \<le> b \<and> b \<le> 0xDF then
        ([], \<lparr>u_point = b - 0xC0, u_needed = 1, u_lower = 0x80, u_upper = 0xBF\<rparr>)
      else if 0xE0 \<le> b \<and> b \<le> 0xEF then
        ([], \<lparr>u_point = b - 0xE0, u_needed = 2, u_lower = (if b = 0xE0 then 0xA0 else 0x80),
              u_upper = (if b = 0xED then 0x9F else 0xBF)\<rparr>)
      else if 0xF0 \<le> b \<and> b \<le> 0xF4 then
        ([], \<lparr>u_point = b - 0xF0, u_needed = 3, u_lower = (if b = 0xF0 then 0x90 else 0x80),
              u_upper = (if b = 0xF4 then 0x8F else 0xBF)\<rparr>)
      else ([0xFFFD], utf8_idle))"

definition utf8_step :: "utf8_state \<Rightarrow> nat \<Rightarrow> nat list \<times> utf8_state" where
  "utf8_step st b =
     (if u_needed st = 0 then utf8_first b
      else if u_lower st \<le> b \<and> b \<le> u_upper st then
        (let p = u_point st * 0x40 + (b - 0x80)
         in if u_needed st = 1 then ([p], utf8_idle)
            else ([], \<lparr>u_point = p, u_needed = u_needed st - 1, u_lower = 0x80, u_upper = 0xBF\<rparr>))
      else (let (out, st') = utf8_first b in (0xFFFD # out, st')))"

fun utf8_run :: "utf8_state \<Rightarrow> nat list \<Rightarrow> nat list" where
  "utf8_run st [] = (if u_needed st = 0 then [] else [0xFFFD])"
| "utf8_run st (b # bs) = (let (out, st') = utf8_step st b in out @ utf8_run st' bs)"

definition utf8_decode :: "byte list \<Rightarrow> jsstring" where
  "utf8_decode bs =
     concat (map utf16_units
       (utf8_run utf8_idle (map unat (if take 3 bs = [0xEF, 0xBB, 0xBF] then drop 3 bs else bs))))"

section \<open>Blobs\<close>

record blob =
  blob_bytes :: "byte list"
  blob_type :: jsstring

definition mk_blob :: "byte list \<Rightarrow> blob" where
  "mk_blob bs = \<lparr>blob_bytes = bs, blob_type = []\<rparr>"

definition blob_size :: "blob \<Rightarrow> nat" where
  "blob_size b = length (blob_bytes b)"

text \<open>A position argument of \<^verbatim>\<open>slice\<close>: negative counts from the end, both ends clamp.\<close>

definition slice_pos :: "nat \<Rightarrow> int \<Rightarrow> nat" where
  "slice_pos n i = (if i < 0 then nat (max 0 (int n + i)) else min (nat i) n)"

definition list_slice :: "int \<Rightarrow> int \<Rightarrow> 'a list \<Rightarrow> 'a list" where
  "list_slice from to xs =
     (let a = slice_pos (length xs) from; b = slice_pos (length xs) to in take (b - a) (drop a xs))"

definition blob_slice :: "blob \<Rightarrow> int \<Rightarrow> int \<Rightarrow> blob" where
  "blob_slice b from to = mk_blob (list_slice from to (blob_bytes b))"

definition blob_slice_from :: "blob \<Rightarrow> int \<Rightarrow> blob" where
  "blob_slice_from b from = blob_slice b from (int (blob_size b))"

definition blob_text :: "blob \<Rightarrow> jsstring" where
  "blob_text b = utf8_decode (blob_bytes b)"

section \<open>Facts on UTF-8\<close>

text \<open>Strings without unpaired surrogates.\<close>

fun wf_utf16 :: "jsstring \<Rightarrow> bool" where
  "wf_utf16 [] = True"
| "wf_utf16 [c] = (\<not> is_high c \<and> \<not> is_low c)"
| "wf_utf16 (c # d # cs) =
     (if is_high c then is_low d \<and> wf_utf16 cs else \<not> is_low c \<and> wf_utf16 (d # cs))"

definition scalar :: "nat \<Rightarrow> bool" where
  "scalar p = (p < 0xD800 \<or> (0xDFFF < p \<and> p < 0x110000))"

lemma scalar_cases:
  assumes "scalar p"
  obtains "p < 0x80" | "0x80 \<le> p" "p < 0x800" | "0x800 \<le> p" "p < 0x10000"
    | "0x10000 \<le> p" "p < 0x110000"
  using assms by (cases "p < 0x80"; cases "p < 0x800"; cases "p < 0x10000") (auto simp: scalar_def)

lemma utf8_nats_less: "scalar p \<Longrightarrow> b \<in> set (utf8_nats p) \<Longrightarrow> b < 256"
  by (erule scalar_cases) (auto simp: utf8_nats_def)

lemma unat_of_nat_byte: "n < 256 \<Longrightarrow> unat (of_nat n :: byte) = n"
  by (simp add: unat_of_nat take_bit_nat_eq_self)

lemma unat_utf8_bytes: "scalar p \<Longrightarrow> map unat (utf8_bytes p) = utf8_nats p"
  by (auto simp: utf8_bytes_def unat_of_nat_byte utf8_nats_less intro: map_idI)

lemma unat_unit_less: "unat (c :: code_unit) < 65536"
  using unsigned_less [of c] by simp

lemma utf8_run3:
  assumes "a < 16" "b < 64" "c < 64" "a = 0 \<longrightarrow> 32 \<le> b" "a = 13 \<longrightarrow> b < 32"
  shows "utf8_run utf8_idle ((0xE0 + a) # (0x80 + b) # (0x80 + c) # bs)
       = ((a * 64 + b) * 64 + c) # utf8_run utf8_idle bs"
  using assms by (auto simp: utf8_step_def utf8_first_def utf8_idle_def Let_def)

lemma utf8_run4:
  assumes "a < 5" "b < 64" "c < 64" "d < 64" "a = 0 \<longrightarrow> 16 \<le> b" "a = 4 \<longrightarrow> b < 16"
  shows "utf8_run utf8_idle ((0xF0 + a) # (0x80 + b) # (0x80 + c) # (0x80 + d) # bs)
       = (((a * 64 + b) * 64 + c) * 64 + d) # utf8_run utf8_idle bs"
  using assms by (auto simp: utf8_step_def utf8_first_def utf8_idle_def Let_def)

lemma utf8_run_nats:
  assumes "scalar p"
  shows "utf8_run utf8_idle (utf8_nats p @ bs) = p # utf8_run utf8_idle bs"
  using assms
proof (cases rule: scalar_cases)
  case 1
  then show ?thesis
    by (simp add: utf8_nats_def utf8_step_def utf8_first_def utf8_idle_def)
next
  case 2
  then have "2 \<le> p div 64" "p div 64 < 32" by auto
  with 2 show ?thesis
    by (simp add: utf8_nats_def utf8_step_def utf8_first_def utf8_idle_def)
next
  case 3
  let ?a = "p div 4096" and ?b = "p div 64 mod 64"
  have a: "?a < 16" using 3 by auto
  have eq: "(?a * 64 + ?b) * 64 + p mod 64 = p"
    by (simp add: div_mult2_eq [of p 64 64, simplified] div_mult_mod_eq)
  have lo: "32 \<le> ?b" if "?a = 0" using that 3 by auto
  have hi: "?b < 32" if "?a = 13"
  proof -
    have s: "p < 0xD800 \<or> 0xDFFF < p" using assms by (auto simp: scalar_def)
    have "p div 64 div 64 = 13" using that div_mult2_eq [of p 64 64] by simp
    then have "p div 64 = 832 + ?b" using div_mult_mod_eq [of "p div 64" 64] by linarith
    moreover have "p div 64 * 64 + p mod 64 = p" by (rule div_mult_mod_eq)
    moreover have "?b < 64" "p mod 64 < 64" by simp_all
    ultimately show ?thesis using s by linarith
  qed
  show ?thesis
    using 3 utf8_run3 [OF a, of ?b "p mod 64" bs] lo hi eq by (simp add: utf8_nats_def)
next
  case 4
  let ?a = "p div 0x40000" and ?b = "p div 0x1000 mod 64" and ?c = "p div 64 mod 64"
  have a: "?a < 5" using 4 by auto
  have eq: "((?a * 64 + ?b) * 64 + ?c) * 64 + p mod 64 = p"
    by (simp add: div_mult2_eq [of p 64 64, simplified] div_mult2_eq [of p 4096 64, simplified]
        div_mult_mod_eq)
  have lo: "16 \<le> ?b" if "?a = 0" using that 4 by auto
  have hi: "?b < 16" if "?a = 4"
  proof -
    have "p div 4096 div 64 = 4" using that div_mult2_eq [of p 4096 64] by simp
    then have "p div 4096 = 256 + ?b" using div_mult_mod_eq [of "p div 4096" 64] by linarith
    moreover have "p div 4096 * 4096 + p mod 4096 = p" by (rule div_mult_mod_eq)
    ultimately show ?thesis using 4 by linarith
  qed
  show ?thesis
    using 4 utf8_run4 [OF a, of ?b ?c "p mod 64" bs] lo hi eq by (simp add: utf8_nats_def)
qed

lemma utf8_run_concat:
  "(\<And>p. p \<in> set ps \<Longrightarrow> scalar p) \<Longrightarrow> utf8_run utf8_idle (concat (map utf8_nats ps)) = ps"
  by (induction ps) (simp_all add: utf8_run_nats, simp add: utf8_idle_def)

lemma surrogate_bounds:
  "is_high c \<Longrightarrow> 0xD800 \<le> unat c \<and> unat c \<le> 0xDBFF"
  "is_low c \<Longrightarrow> 0xDC00 \<le> unat c \<and> unat c \<le> 0xDFFF"
  "\<not> is_high c \<Longrightarrow> \<not> is_low c \<Longrightarrow> unat c < 0xD800 \<or> 0xDFFF < unat c"
  by (auto simp: is_high_def is_low_def word_le_nat_alt)

lemma code_points_scalar: "p \<in> set (code_points s) \<Longrightarrow> scalar p"
proof (induction s rule: code_points.induct)
  case 1
  then show ?case by simp
next
  case (2 c)
  then show ?case
    using unat_unit_less [of c] surrogate_bounds(3) [of c] by (auto simp: scalar_def split: if_splits)
next
  case (3 c d cs)
  then show ?case
    using unat_unit_less [of c] surrogate_bounds [of c] surrogate_bounds(2) [of d]
    by (auto simp: scalar_def split: if_splits)
qed

lemma unat_of_nat_unit: "n < 65536 \<Longrightarrow> unat (of_nat n :: code_unit) = n"
  by (simp add: unat_of_nat take_bit_nat_eq_self)

lemma utf16_units_bmp: "utf16_units (unat c) = [c]"
  using unat_unit_less [of c] by (simp add: utf16_units_def)

lemma utf16_units_pair:
  assumes "is_high c" "is_low d"
  shows "utf16_units (0x10000 + (unat c - 0xD800) * 0x400 + (unat d - 0xDC00)) = [c, d]"
proof -
  have c: "0xD800 \<le> unat c" and d: "0xDC00 \<le> unat d" "unat d - 0xDC00 < 0x400"
    using assms by (auto dest!: surrogate_bounds)
  have "((unat c - 0xD800) * 0x400 + (unat d - 0xDC00)) div 0x400 = unat c - 0xD800"
    and "((unat c - 0xD800) * 0x400 + (unat d - 0xDC00)) mod 0x400 = unat d - 0xDC00"
    using d(2) by auto
  with c d(1) show ?thesis by (simp add: utf16_units_def)
qed

lemma utf16_code_points: "wf_utf16 s \<Longrightarrow> concat (map utf16_units (code_points s)) = s"
proof (induction s rule: wf_utf16.induct)
  case 1
  then show ?case by simp
next
  case (2 c)
  then show ?case by (simp add: utf16_units_bmp)
next
  case (3 c d cs)
  show ?case
  proof (cases "is_high c")
    case True
    with 3 have "is_low d" "wf_utf16 cs" by auto
    with True 3 show ?thesis using utf16_units_pair [of c d] by simp
  next
    case False
    with 3 show ?thesis by (simp add: utf16_units_bmp)
  qed
qed

text \<open>
  The byte order mark: the encoding of a string starts with EF BB BF exactly when the string
  starts with U+FEFF.
\<close>

lemma utf8_nats_nonempty: "utf8_nats p \<noteq> []"
  by (simp add: utf8_nats_def)

lemma utf8_nats_bom:
  assumes "scalar p" and "take 3 (utf8_nats p @ bs) = [0xEF, 0xBB, 0xBF]"
  shows "p = 0xFEFF"
  using assms(1)
proof (cases rule: scalar_cases)
  case 3
  then have "p div 0x1000 = 15" "p div 0x40 mod 0x40 = 0x3B" "p mod 0x40 = 0x3F"
    using assms(2) by (auto simp: utf8_nats_def)
  then show ?thesis
    using div_mult_mod_eq [of p 64] div_mult_mod_eq [of "p div 64" 64] div_mult2_eq [of p 64 64]
    by simp
qed (use assms(2) in \<open>auto simp: utf8_nats_def\<close>)

lemma code_points_hd_bom: "code_points s = 0xFEFF # ps \<Longrightarrow> s \<noteq> [] \<and> hd s = 0xFEFF"
proof (induction s rule: code_points.induct)
  case (2 c)
  then have "unat c = unat (0xFEFF :: code_unit)" by (auto split: if_splits)
  then show ?case by (simp only: word_unat_eq_iff) simp
next
  case (3 c d cs)
  then have "unat c = unat (0xFEFF :: code_unit)" by (auto split: if_splits)
  then show ?case by (simp only: word_unat_eq_iff) simp
qed simp

lemma unat_utf8_encode: "map unat (utf8_encode s) = concat (map utf8_nats (code_points s))"
proof -
  have "map (map unat \<circ> utf8_bytes) (code_points s) = map utf8_nats (code_points s)"
    by (simp add: unat_utf8_bytes code_points_scalar)
  then show ?thesis by (simp only: utf8_encode_def map_concat map_map)
qed

theorem utf8_decode_encode:
  assumes "wf_utf16 s" and "s = [] \<or> hd s \<noteq> 0xFEFF"
  shows "utf8_decode (utf8_encode s) = s"
proof -
  have "take 3 (map unat (utf8_encode s)) \<noteq> [0xEF, 0xBB, 0xBF]"
  proof (cases "code_points s")
    case Nil
    then show ?thesis by (simp add: unat_utf8_encode)
  next
    case (Cons p ps)
    then have "scalar p" using code_points_scalar [of p s] by simp
    then show ?thesis
      using Cons utf8_nats_bom [of p] code_points_hd_bom [of s] assms(2)
      by (auto simp: unat_utf8_encode simp del: take_append)
  qed
  then have "take 3 (utf8_encode s) \<noteq> [0xEF, 0xBB, 0xBF]"
    by (auto simp: take_map)
  then show ?thesis
    using assms(1)
    by (simp add: utf8_decode_def unat_utf8_encode utf8_run_concat code_points_scalar utf16_code_points)
qed

lemma ascii_not_surrogate: "c < 128 \<Longrightarrow> \<not> is_high c \<and> \<not> is_low c"
  by (auto simp: is_high_def is_low_def word_le_nat_alt word_less_nat_alt)

lemma code_points_ascii: "is_ascii t \<Longrightarrow> code_points t = map unat t"
  by (induction t rule: code_points.induct) (auto dest: ascii_not_surrogate)

lemma code_points_append_ascii:
  "is_ascii t \<Longrightarrow> code_points (s @ t) = code_points s @ map unat t"
proof (induction s rule: code_points.induct)
  case (2 c)
  then show ?case
    by (cases t) (auto simp: code_points_ascii dest: ascii_not_surrogate)
qed (auto simp: code_points_ascii)

lemma code_points_append: "wf_utf16 s \<Longrightarrow> code_points (s @ t) = code_points s @ code_points t"
proof (induction s rule: wf_utf16.induct)
  case (2 c)
  then show ?case by (cases t) auto
next
  case (3 c d cs)
  then show ?case by (cases "is_high c") auto
qed simp

lemma utf8_encode_append: "wf_utf16 s \<Longrightarrow> utf8_encode (s @ t) = utf8_encode s @ utf8_encode t"
  by (simp add: utf8_encode_def code_points_append)

lemma utf8_encode_Nil [simp]: "utf8_encode [] = []"
  by (simp add: utf8_encode_def)

lemma wf_utf16_ascii: "is_ascii s \<Longrightarrow> wf_utf16 s"
  by (induction s rule: wf_utf16.induct) (auto dest: ascii_not_surrogate)

lemma wf_utf16_append: "wf_utf16 s \<Longrightarrow> wf_utf16 t \<Longrightarrow> wf_utf16 (s @ t)"
proof (induction s rule: wf_utf16.induct)
  case (2 c)
  then show ?case by (cases t) auto
next
  case (3 c d cs)
  then show ?case by (cases "is_high c") auto
qed simp

lemma wf_utf16_concat: "(\<And>s. s \<in> set ss \<Longrightarrow> wf_utf16 s) \<Longrightarrow> wf_utf16 (concat ss)"
  by (induction ss) (auto intro: wf_utf16_append)

lemma utf8_encode_concat:
  "(\<And>s. s \<in> set ss \<Longrightarrow> wf_utf16 s) \<Longrightarrow> utf8_encode (concat ss) = concat (map utf8_encode ss)"
  by (induction ss) (auto simp: utf8_encode_append)

lemma utf8_encode_ascii: "is_ascii s \<Longrightarrow> utf8_encode s = map ucast s"
proof (induction s rule: code_points.induct)
  case (3 c d cs)
  then have c: "\<not> is_high c" "\<not> is_low c" "unat c < 128"
    using ascii_not_surrogate [of c] by (auto simp: word_less_nat_alt)
  then have "utf8_bytes (unat c) = [ucast c]"
    by (simp add: utf8_bytes_def utf8_nats_def)
  with 3 c show ?case by (simp add: utf8_encode_def)
next
  case (2 c)
  then have "utf8_bytes (unat c) = [ucast c]"
    by (simp add: utf8_bytes_def utf8_nats_def word_less_nat_alt)
  with 2 show ?case using ascii_not_surrogate [of c] by (simp add: utf8_encode_def)
qed (simp add: utf8_encode_def)

text \<open>Every byte below 80 of an encoded string is a character of the string.\<close>

lemma utf8_nats_small: "scalar p \<Longrightarrow> b \<in> set (utf8_nats p) \<Longrightarrow> b < 0x80 \<Longrightarrow> b = p"
  by (erule scalar_cases) (auto simp: utf8_nats_def)

lemma code_points_small: "p \<in> set (code_points s) \<Longrightarrow> p < 0x80 \<Longrightarrow> \<exists>c \<in> set s. unat c = p"
  by (induction s rule: code_points.induct) (auto split: if_splits)

lemma unat_eq_ucast: "unat c = unat b \<Longrightarrow> c = ucast b"
  by (metis of_nat_unat ucast_id)

lemma utf8_encode_small:
  assumes "b \<in> set (utf8_encode s)" and "b < 0x80"
  shows "ucast b \<in> set s"
proof -
  have "unat b \<in> set (map unat (utf8_encode s))" using assms(1) by simp
  then obtain p where p: "p \<in> set (code_points s)" "unat b \<in> set (utf8_nats p)"
    by (auto simp: unat_utf8_encode)
  moreover have small: "unat b < 0x80" using assms(2) by (simp add: word_less_nat_alt)
  ultimately have "unat b \<in> set (code_points s)"
    using utf8_nats_small [OF code_points_scalar [OF p(1)]] by auto
  then obtain c where "c \<in> set s" "unat c = unat b"
    using code_points_small small by blast
  moreover from this(2) have "c = ucast b" by (rule unat_eq_ucast)
  ultimately show ?thesis by simp
qed

lemma last_code_points:
  "s \<noteq> [] \<Longrightarrow> code_points s \<noteq> [] \<and> (last (code_points s) < 0x80 \<longrightarrow> unat (last s) = last (code_points s))"
proof (induction s rule: code_points.induct)
  case (3 c d cs)
  then show ?case
    by (cases cs) auto
qed auto

lemma last_utf8_nats: "scalar p \<Longrightarrow> last (utf8_nats p) < 0x80 \<Longrightarrow> last (utf8_nats p) = p"
  by (erule scalar_cases) (auto simp: utf8_nats_def)

lemma last_concat_map:
  "xs \<noteq> [] \<Longrightarrow> f (last xs) \<noteq> [] \<Longrightarrow> last (concat (map f xs)) = last (f (last xs))"
  by (induction xs rule: rev_induct) auto

lemma last_utf8_encode:
  assumes "s \<noteq> []"
  shows "utf8_encode s \<noteq> [] \<and> (last (utf8_encode s) < 0x80 \<longrightarrow> last s = ucast (last (utf8_encode s)))"
proof -
  have ne: "code_points s \<noteq> []" using last_code_points assms by blast
  then have ne': "utf8_encode s \<noteq> []"
    by (simp add: utf8_encode_def utf8_bytes_def utf8_nats_nonempty)
  have p: "scalar (last (code_points s))" using ne by (intro code_points_scalar [of _ s]) simp
  have "unat (last (utf8_encode s)) = last (map unat (utf8_encode s))"
    using ne' by (simp add: last_map)
  also have "\<dots> = last (utf8_nats (last (code_points s)))"
    using ne utf8_nats_nonempty
    by (simp add: unat_utf8_encode last_concat_map)
  finally have eq: "unat (last (utf8_encode s)) = last (utf8_nats (last (code_points s)))" .
  show ?thesis
  proof (intro conjI impI ne')
    assume "last (utf8_encode s) < 0x80"
    then have "last (utf8_nats (last (code_points s))) < 0x80"
      using eq by (simp add: word_less_nat_alt)
    then have "unat (last s) = unat (last (utf8_encode s))"
      using eq last_utf8_nats [OF p] last_code_points [OF assms] by simp
    then show "last s = ucast (last (utf8_encode s))"
      by (rule unat_eq_ucast)
  qed
qed

section \<open>Facts on slices\<close>

lemma slice_pos_nat [simp]: "slice_pos n (int k) = min k n"
  by (simp add: slice_pos_def)

lemma list_slice_prefix: "list_slice 0 (int n) xs = take n xs"
  by (simp add: list_slice_def slice_pos_def min_def)

lemma list_slice_nat: "list_slice (int a) (int b) xs = take (b - a) (drop a xs)"
  by (auto simp: list_slice_def min_def)

lemma list_slice_suffix:
  "0 < n \<Longrightarrow> list_slice (- int n) (int (length xs)) xs = drop (length xs - n) xs"
proof -
  assume "0 < n"
  then have "slice_pos (length xs) (- int n) = length xs - n"
    by (auto simp: slice_pos_def)
  then show ?thesis by (simp add: list_slice_def)
qed

lemma blob_bytes_mk [simp]: "blob_bytes (mk_blob bs) = bs" "blob_type (mk_blob bs) = []"
  by (simp_all add: mk_blob_def)

lemma mk_blob_eq: "b = mk_blob bs \<longleftrightarrow> blob_bytes b = bs \<and> blob_type b = []"
  by (cases b) (simp add: mk_blob_def)

end
