(* ===== verification/Js_Value.thy ===== *)
theory Js_Value
  imports Blob
begin

text \<open>
  JavaScript values as far as the code inspects them (\<^verbatim>\<open>typeof\<close>, own properties, \<^verbatim>\<open>instanceof Blob\<close>),
  the errors the code throws, and the host: the functions the code calls that are not its own
  (the JSON codec and number printing of the engine, Unicode's case tables, the client's
  marshalers, guards, matchers and patterns). Definitions that use one take the host as argument.
\<close>

section \<open>Errors\<close>

text \<open>One constructor per throw of the code, then those of the engine and of client code.\<close>

datatype jserr =
    ExpectedColon jsstring
  | ExpectedNewline "int option" jsstring
  | CannotDecodeType jsstring
  | CannotDecodeNoType
  | TypeCheckFailed jsstring
  | CallFailed jsstring jsstring
  | UnexpectedResponse jsstring
  | ConnectionClosed
  | MaxRetriesExceeded
  | UnexpectedNonBinary
  | TypeErr
  | SyntaxErr
  | Thrown nat

type_synonym 'a result = "jserr + 'a"

section \<open>Values\<close>

datatype marshaler_id = JsonMarshaler | NullMarshaler | UserMarshaler nat

datatype fn = MarshalFn marshaler_id | UnmarshalFn marshaler_id | OtherFn nat

text \<open>
  Numbers are IEEE doubles, which the code only passes on. \<open>JBuffer\<close> is an ArrayBuffer, \<open>JView\<close> a
  typed array with its elements and its bytes, \<open>JSocket\<close> a WebSocket of the browser. \<open>JNoContent\<close> is the object \<^verbatim>\<open>NO_CONTENT\<close> of
  ContentType.ts, an empty object told apart by identity.
\<close>

datatype jsval =
    JUndefined
  | JNull
  | JBoolean bool
  | JNumber "64 word"
  | JString jsstring
  | JSymbol nat
  | JFunction fn
  | JObject "(jsstring \<times> jsval) list"
  | JArray "jsval list"
  | JBlob blob
  | JBuffer "byte list"
  | JView "64 word list" "byte list"
  | JSocket nat
  | JNoContent

record host = unicode +
  json_stringify :: "jsval \<Rightarrow> jsstring option result"
  json_parse :: "jsstring \<Rightarrow> jsval result"
  object_string :: "jsval \<Rightarrow> jsstring result"
  user_marshal :: "nat \<Rightarrow> jsval \<Rightarrow> blob result"
  user_unmarshal :: "nat \<Rightarrow> blob \<Rightarrow> jsval result"
  user_guard :: "nat \<Rightarrow> jsval \<Rightarrow> bool"
  user_match :: "nat \<Rightarrow> jsval \<Rightarrow> bool result"
  user_decode :: "nat \<Rightarrow> jsval \<Rightarrow> jsval result"
  regex_test :: "nat \<Rightarrow> jsstring \<Rightarrow> bool"

fun typeof :: "jsval \<Rightarrow> string" where
  "typeof JUndefined = ''undefined''"
| "typeof (JBoolean b) = ''boolean''"
| "typeof (JNumber n) = ''number''"
| "typeof (JString s) = ''string''"
| "typeof (JSymbol n) = ''symbol''"
| "typeof (JFunction f) = ''function''"
| "typeof v = ''object''"

text \<open>The conversion \<^verbatim>\<open>String(v)\<close>; numbers and objects go through the engine and their own \<^verbatim>\<open>toString\<close>.\<close>

fun js_String :: "('z) host_scheme \<Rightarrow> jsval \<Rightarrow> jsstring result" where
  "js_String h JUndefined = Inr (js ''undefined'')"
| "js_String h JNull = Inr (js ''null'')"
| "js_String h (JBoolean b) = Inr (js (if b then ''true'' else ''false''))"
| "js_String h (JString s) = Inr s"
| "js_String h v = object_string h v"

section \<open>Optional fields\<close>

text \<open>
  A field of an options object may be absent, present with the value \<^verbatim>\<open>undefined\<close>, or given. What
  \<^verbatim>\<open>{...defaultOptions, ...options}\<close> makes of it: a present field replaces the default even when it is
  \<^verbatim>\<open>undefined\<close>, which \<open>None\<close> stands for.
\<close>

datatype 'a opt_field = Absent | Undefined | Given 'a

fun spread :: "'a \<Rightarrow> 'a opt_field \<Rightarrow> 'a option" where
  "spread standard Absent = Some standard"
| "spread standard Undefined = None"
| "spread standard (Given x) = Some x"

section \<open>Own properties and their order\<close>

text \<open>
  A key that is the decimal numeral of an array index; such keys come first and in ascending
  order when an object's keys are listed, the others follow in creation order.
\<close>

definition index_key :: "jsstring \<Rightarrow> nat option" where
  "index_key k =
     (let n = digits_value 10 (digits_prefix 10 k)
      in if k = dec_string n \<and> n < 2 ^ 32 - 1 then Some n else None)"

definition own_order :: "(jsstring \<times> 'v) list \<Rightarrow> (jsstring \<times> 'v) list" where
  "own_order ps =
     sort_key (\<lambda>p. the (index_key (fst p))) (filter (\<lambda>p. index_key (fst p) \<noteq> None) ps) @
     filter (\<lambda>p. index_key (fst p) = None) ps"

definition array_props :: "'v list \<Rightarrow> (jsstring \<times> 'v) list" where
  "array_props vs = zip (map dec_string [0..<length vs]) vs"

fun js_entries :: "jsval \<Rightarrow> (jsstring \<times> jsval) list" where
  "js_entries (JObject ps) = own_order ps"
| "js_entries (JArray vs) = array_props vs"
| "js_entries (JView ns bs) = array_props (map JNumber ns)"
| "js_entries v = []"

text \<open>
  \<^verbatim>\<open>v[k]\<close>: an own property, a method that sockets inherit, \<^verbatim>\<open>undefined\<close> otherwise. The other names the
  code reads from values of unknown type (\<^verbatim>\<open>name\<close>, \<^verbatim>\<open>marshaler\<close>, \<^verbatim>\<open>marshal\<close>, \<^verbatim>\<open>unmarshal\<close>, \<^verbatim>\<open>body\<close>,
  \<^verbatim>\<open>headers\<close> and the header names) are not members of a built-in prototype.
\<close>

definition socket_methods :: "jsstring list" where
  "socket_methods = map js [''send'', ''close'', ''addEventListener'', ''removeEventListener'']"

fun js_inherited :: "jsval \<Rightarrow> jsstring \<Rightarrow> jsval" where
  "js_inherited (JSocket n) k = (if k \<in> set socket_methods then JFunction (OtherFn n) else JUndefined)"
| "js_inherited v k = JUndefined"

definition js_get :: "jsval \<Rightarrow> jsstring \<Rightarrow> jsval" where
  "js_get v k = (case obj_get (js_entries v) k of Some x \<Rightarrow> x | None \<Rightarrow> js_inherited v k)"

text \<open>The own properties of \<^verbatim>\<open>Object.prototype\<close>, which a lookup on \<^verbatim>\<open>{}\<close> also finds.\<close>

definition object_prototype :: "jsstring list" where
  "object_prototype = map js
     [''constructor'', ''__defineGetter__'', ''__defineSetter__'', ''hasOwnProperty'',
      ''__lookupGetter__'', ''__lookupSetter__'', ''isPrototypeOf'', ''propertyIsEnumerable'',
      ''toString'', ''valueOf'', ''__proto__'', ''toLocaleString'']"

text \<open>\<^verbatim>\<open>ps[k]\<close> on a plain object: an own property, a member of \<^verbatim>\<open>Object.prototype\<close>, or nothing.\<close>

datatype 'a lookup = Own 'a | Inherited | Missing

definition obj_lookup :: "(jsstring \<times> 'v) list \<Rightarrow> jsstring \<Rightarrow> 'v lookup" where
  "obj_lookup ps k =
     (case obj_get ps k of
        Some v \<Rightarrow> Own v
      | None \<Rightarrow> if k \<in> set object_prototype then Inherited else Missing)"

section \<open>Facts\<close>

lemma own_order_mset: "mset (own_order ps) = mset ps"
proof -
  have "mset (own_order ps) = mset (filter (\<lambda>p. index_key (fst p) \<noteq> None) ps)
      + mset (filter (\<lambda>p. \<not> (index_key (fst p) \<noteq> None)) ps)"
    by (simp add: own_order_def)
  also have "\<dots> = mset ps"
    by (simp only: mset_filter multiset_partition [symmetric])
  finally show ?thesis .
qed

lemma set_own_order [simp]: "set (own_order ps) = set ps"
  by (metis own_order_mset set_mset_mset)

lemma own_order_Nil_iff [simp]: "own_order ps = [] \<longleftrightarrow> ps = []"
  by (metis own_order_mset mset_zero_iff)

lemma obj_wf_own_order [simp]: "obj_wf (own_order ps) \<longleftrightarrow> obj_wf ps"
  by (metis mset_map own_order_mset mset_eq_imp_distinct_iff)

lemma obj_get_own_order: "obj_wf ps \<Longrightarrow> obj_get (own_order ps) k = obj_get ps k"
proof -
  assume "obj_wf ps"
  then have "obj_get (own_order ps) k = Some v \<longleftrightarrow> obj_get ps k = Some v" for v
    by (simp add: obj_get_Some_iff)
  then show ?thesis by (metis option.exhaust)
qed

lemma own_order_id:
  "(\<And>k. k \<in> set (obj_keys ps) \<Longrightarrow> index_key k = None) \<Longrightarrow> own_order ps = ps"
  by (simp add: own_order_def)

lemma insort_key_map: "insort_key f (g x) (map g xs) = map g (insort_key (f \<circ> g) x xs)"
  by (induction xs) auto

lemma sort_key_map: "sort_key f (map g xs) = map g (sort_key (f \<circ> g) xs)"
  by (induction xs) (simp_all add: insort_key_map comp_def)

lemma own_order_map: "own_order (map (\<lambda>(k, v). (k, f v)) ps) = map (\<lambda>(k, v). (k, f v)) (own_order ps)"
proof -
  have "(\<lambda>p. the (index_key (fst p))) \<circ> (\<lambda>(k, v). (k, f v)) = (\<lambda>p. the (index_key (fst p)))"
    and "(\<lambda>p. index_key (fst p) \<noteq> None) \<circ> (\<lambda>(k, v). (k, f v)) = (\<lambda>p. index_key (fst p) \<noteq> None)"
    and "(\<lambda>p. index_key (fst p) = None) \<circ> (\<lambda>(k, v). (k, f v)) = (\<lambda>p. index_key (fst p) = None)"
    by auto
  then show ?thesis
    by (simp only: own_order_def filter_map sort_key_map map_append)
qed

end
