(* ===== verification/Utilities.thy ===== *)
theory Utilities
  imports Js_Value
begin

text \<open>
  utilities.ts: the object test, building an object from a list, the promise with its resolvers,
  optional prefixes, and the canonical spelling of header names. The facts: canonicalisation is
  idempotent and blind to letter case on ASCII names, and a promise settles at most once.
\<close>

section \<open>Definitions\<close>

definition isObj :: "jsval \<Rightarrow> bool" where
  "isObj x = (x \<noteq> JNull \<and> typeof x = ''object'')"

text \<open>\<^verbatim>\<open>Object.fromEntries(array.map(callback))\<close>: the callback runs on every element before the object
  is built, and may throw.\<close>

definition mapToObj :: "'i list \<Rightarrow> ('i \<Rightarrow> (jsstring \<times> 'v) result) \<Rightarrow> (jsstring \<times> 'v) list result" where
  "mapToObj array callback =
     andThen (map_result callback array) (\<lambda>entries. Inr (obj_assign [] entries))"

text \<open>A promise with the functions that settle it is a cell of a store; the triplet is its number.\<close>

datatype 'a promise = Pending | Fulfilled 'a | Rejected jserr

type_synonym 'a promises = "'a promise list"

definition newPromiseTriplet :: "'a promises \<Rightarrow> nat \<times> 'a promises" where
  "newPromiseTriplet ps = (length ps, ps @ [Pending])"

definition promise_at :: "'a promises \<Rightarrow> nat \<Rightarrow> 'a promise" where
  "promise_at ps i = (if i < length ps then ps ! i else Pending)"

definition settle :: "'a promise \<Rightarrow> nat \<Rightarrow> 'a promises \<Rightarrow> 'a promises" where
  "settle r i ps = (if promise_at ps i = Pending then ps[i := r] else ps)"

abbreviation resolve :: "nat \<Rightarrow> 'a \<Rightarrow> 'a promises \<Rightarrow> 'a promises" where
  "resolve i x \<equiv> settle (Fulfilled x) i"

abbreviation reject :: "nat \<Rightarrow> jserr \<Rightarrow> 'a promises \<Rightarrow> 'a promises" where
  "reject i e \<equiv> settle (Rejected e) i"

text \<open>What an \<^verbatim>\<open>async\<close> function's promise becomes when its body has ended, and what an \<^verbatim>\<open>await\<close> gets.\<close>

fun promise_of :: "'a result \<Rightarrow> 'a promise" where
  "promise_of (Inl e) = Rejected e"
| "promise_of (Inr x) = Fulfilled x"

fun result_of :: "'a promise \<Rightarrow> 'a result option" where
  "result_of Pending = None"
| "result_of (Fulfilled x) = Some (Inr x)"
| "result_of (Rejected e) = Some (Inl e)"

datatype 'a optional_prefix = Plain 'a | Prefixed jsstring 'a

fun splitPrefix :: "jsstring \<Rightarrow> 'a optional_prefix \<Rightarrow> jsstring \<times> 'a" where
  "splitPrefix defaultPrefix (Prefixed p x) = (p, x)"
| "splitPrefix defaultPrefix (Plain x) = (defaultPrefix, x)"

definition key_sep :: "code_unit \<Rightarrow> bool" where
  "key_sep c = (c = 45 \<or> c = 95 \<or> js_space c)"

definition capitalize :: "('z) unicode_scheme \<Rightarrow> jsstring \<Rightarrow> jsstring" where
  "capitalize u s = toUpperCase u (take 1 s) @ toLowerCase u (drop 1 s)"

definition canonicalizeKey :: "('z) unicode_scheme \<Rightarrow> jsstring \<Rightarrow> jsstring" where
  "canonicalizeKey u key = join [45] (map (capitalize u) (split_runs key_sep key))"

section \<open>Promises settle once\<close>

lemma promise_at_new:
  "promise_at (snd (newPromiseTriplet ps)) i = promise_at ps i"
  "promise_at ps (fst (newPromiseTriplet ps)) = Pending"
  by (auto simp: promise_at_def newPromiseTriplet_def nth_append)

lemma length_settle [simp]: "length (settle r i ps) = length ps"
  by (simp add: settle_def)

lemma promise_at_settle:
  "promise_at (settle r i ps) j =
     (if j = i \<and> i < length ps \<and> promise_at ps i = Pending then r else promise_at ps j)"
  by (auto simp: promise_at_def settle_def nth_list_update)

lemma settle_settled: "promise_at ps i \<noteq> Pending \<Longrightarrow> settle r i ps = ps"
  by (simp add: settle_def)

lemma settle_keeps_settled:
  "promise_at ps j \<noteq> Pending \<Longrightarrow> promise_at (settle r i ps) j = promise_at ps j"
  by (auto simp: promise_at_settle)

lemma promise_of_settled [simp]: "promise_of r \<noteq> Pending" "Pending \<noteq> promise_of r" "result_of (promise_of r) = Some r"
  by (cases r; simp)+

lemma result_of_Some: "result_of p = Some r \<longleftrightarrow> p = promise_of r"
  by (cases p; cases r) auto

lemma result_of_None: "result_of p = None \<longleftrightarrow> p = Pending"
  by (cases p) auto

lemma promise_at_snoc [simp]: "promise_at (ps @ [Pending]) j = promise_at ps j"
  by (simp add: promise_at_def nth_append)

section \<open>Splitting and joining names\<close>

lemma split_runs_Cons:
  "dropWhile (\<lambda>c. \<not> p c) s \<noteq> [] \<Longrightarrow>
   split_runs p s = takeWhile (\<lambda>c. \<not> p c) s # split_runs p (dropWhile p (dropWhile (\<lambda>c. \<not> p c) s))"
  by (simp only: split_runs.simps [of p s] Let_def if_False)

lemma split_runs_no_sep:
  assumes "\<And>c. c \<in> set s \<Longrightarrow> \<not> p c"
  shows "split_runs p s = [s]"
proof -
  have "dropWhile (\<lambda>c. \<not> p c) s = []" using assms by simp
  then show ?thesis by (subst split_runs.simps) simp
qed

lemma split_runs_sep:
  assumes "\<And>c. c \<in> set a \<Longrightarrow> \<not> p c" and "p s"
  shows "split_runs p (a @ s # rest) = a # split_runs p (dropWhile p rest)"
proof -
  have "dropWhile (\<lambda>c. \<not> p c) (a @ s # rest) = s # rest"
    using assms by (simp add: dropWhile_append2)
  moreover have "takeWhile (\<lambda>c. \<not> p c) (a @ s # rest) = a"
    using assms by (simp add: takeWhile_append2)
  ultimately show ?thesis
    using assms by (subst split_runs.simps) (simp add: Let_def)
qed

text \<open>The shape of the pieces: no separators inside, and only the first and the last may be empty.\<close>

fun pieces_tail :: "'a list list \<Rightarrow> bool" where
  "pieces_tail [] = False"
| "pieces_tail [b] = True"
| "pieces_tail (b # c # r) = (b \<noteq> [] \<and> pieces_tail (c # r))"

definition pieces :: "('a \<Rightarrow> bool) \<Rightarrow> 'a list list \<Rightarrow> bool" where
  "pieces p ps = ((\<forall>s \<in> set ps. \<forall>c \<in> set s. \<not> p c) \<and> ps \<noteq> [] \<and> (tl ps = [] \<or> pieces_tail (tl ps)))"

lemma split_runs_pieces:
  "pieces p (split_runs p s) \<and> (s = [] \<or> \<not> p (hd s) \<longrightarrow> pieces_tail (split_runs p s))"
proof (induction p s rule: split_runs.induct)
  case (1 p s)
  let ?rest = "dropWhile (\<lambda>c. \<not> p c) s"
  show ?case
  proof (cases "?rest = []")
    case True
    then have "split_runs p s = [s]" by (subst split_runs.simps) simp
    with True show ?thesis by (auto simp: pieces_def)
  next
    case False
    let ?t = "split_runs p (dropWhile p ?rest)"
    have eq: "split_runs p s = takeWhile (\<lambda>c. \<not> p c) s # ?t"
      using False by (rule split_runs_Cons)
    have "dropWhile p ?rest = [] \<or> \<not> p (hd (dropWhile p ?rest))"
      by (metis hd_dropWhile)
    with 1 [OF refl False] have t: "pieces p ?t" "pieces_tail ?t" by blast+
    then obtain b bs where tb: "?t = b # bs" by (cases ?t) auto
    have "pieces p (split_runs p s)"
      using t tb by (auto simp: eq pieces_def dest: set_takeWhileD)
    moreover have "pieces_tail (split_runs p s)" if "s = [] \<or> \<not> p (hd s)"
    proof -
      have "takeWhile (\<lambda>c. \<not> p c) s \<noteq> []" using that False by (cases s) auto
      with t tb show ?thesis by (simp add: eq)
    qed
    ultimately show ?thesis by blast
  qed
qed

lemma split_runs_join:
  "pieces p ps \<Longrightarrow> p s \<Longrightarrow> split_runs p (join [s] ps) = ps"
proof (induction ps)
  case Nil
  then show ?case by (simp add: pieces_def)
next
  case (Cons a ps)
  show ?case
  proof (cases ps)
    case Nil
    with Cons.prems show ?thesis by (auto simp: pieces_def intro: split_runs_no_sep)
  next
    case (Cons b bs)
    have rec: "pieces p ps" and a: "\<And>c. c \<in> set a \<Longrightarrow> \<not> p c"
      using \<open>pieces p (a # ps)\<close> Cons by (cases bs; auto simp: pieces_def)+
    have "dropWhile p (join [s] ps) = join [s] ps"
    proof (rule dropWhile_id)
      show "join [s] ps = [] \<or> \<not> p (hd (join [s] ps))"
        using \<open>pieces p (a # ps)\<close> Cons by (cases bs; cases b) (auto simp: pieces_def)
    qed
    with Cons.IH [OF rec \<open>p s\<close>] show ?thesis
      using split_runs_sep [of a p s "join [s] ps"] a \<open>p s\<close> Cons by (simp add: join_Cons)
  qed
qed

lemma pieces_map:
  assumes "pieces p ps" and "\<And>s. s \<in> set ps \<Longrightarrow> f s = [] \<longleftrightarrow> s = []"
    and "\<And>s c. s \<in> set ps \<Longrightarrow> c \<in> set (f s) \<Longrightarrow> \<not> p c"
  shows "pieces p (map f ps)"
proof -
  have "pieces_tail qs \<Longrightarrow> set qs \<subseteq> set ps \<Longrightarrow> pieces_tail (map f qs)" for qs
    by (induction qs rule: pieces_tail.induct) (auto simp: assms(2))
  with assms show ?thesis
    by (cases ps) (auto simp: pieces_def)
qed

section \<open>Letter case on ASCII\<close>

lemma unat_upper: "unat (ascii_upper c) = (if 97 \<le> unat c \<and> unat c \<le> 122 then unat c - 32 else unat c)"
  by (auto simp: ascii_upper_def word_le_nat_alt unat_sub)

lemma unat_lower: "unat (ascii_lower c) = (if 65 \<le> unat c \<and> unat c \<le> 90 then unat c + 32 else unat c)"
  by (auto simp: ascii_lower_def word_le_nat_alt unat_word_ariths)

lemma ascii_case_simps:
  "ascii_upper (ascii_upper c) = ascii_upper c"
  "ascii_lower (ascii_lower c) = ascii_lower c"
  "ascii_upper (ascii_lower c) = ascii_upper c"
  "ascii_lower (ascii_upper c) = ascii_lower c"
  "ascii_upper c < 128 \<longleftrightarrow> c < 128"
  "ascii_lower c < 128 \<longleftrightarrow> c < 128"
  by (auto simp: word_unat_eq_iff word_less_nat_alt unat_upper unat_lower)

lemma key_sep_letter: "65 \<le> unat c \<Longrightarrow> unat c \<le> 122 \<Longrightarrow> unat c \<noteq> 95 \<Longrightarrow> \<not> key_sep c"
  by (auto simp: key_sep_def js_space_def word_le_nat_alt)

lemma key_sep_case: "key_sep (ascii_upper c) \<longleftrightarrow> key_sep c" "key_sep (ascii_lower c) \<longleftrightarrow> key_sep c"
proof -
  show "key_sep (ascii_upper c) \<longleftrightarrow> key_sep c"
  proof (cases "97 \<le> c \<and> c \<le> 122")
    case True
    then have "97 \<le> unat c" "unat c \<le> 122" by (simp_all add: word_le_nat_alt)
    then show ?thesis using key_sep_letter [of c] key_sep_letter [of "ascii_upper c"] unat_upper [of c]
      by auto
  qed (auto simp: ascii_upper_def)
  show "key_sep (ascii_lower c) \<longleftrightarrow> key_sep c"
  proof (cases "65 \<le> c \<and> c \<le> 90")
    case True
    then have "65 \<le> unat c" "unat c \<le> 90" by (simp_all add: word_le_nat_alt)
    then show ?thesis using key_sep_letter [of c] key_sep_letter [of "ascii_lower c"] unat_lower [of c]
      by auto
  qed (auto simp: ascii_lower_def)
qed

lemma is_ascii_take_drop: "is_ascii s \<Longrightarrow> is_ascii (take n s) \<and> is_ascii (drop n s)"
  by (auto simp: is_ascii_iff dest: in_set_takeD in_set_dropD)

lemma is_ascii_map_case:
  "is_ascii (map ascii_upper s) \<longleftrightarrow> is_ascii s" "is_ascii (map ascii_lower s) \<longleftrightarrow> is_ascii s"
  by (simp_all add: is_ascii_iff ascii_case_simps)

lemma capitalize_ascii:
  "is_ascii s \<Longrightarrow> capitalize u s = map ascii_upper (take 1 s) @ map ascii_lower (drop 1 s)"
  by (simp add: capitalize_def toUpperCase_def toLowerCase_def is_ascii_take_drop)

lemma capitalize_facts:
  assumes "is_ascii s"
  shows "is_ascii (capitalize u s)" "capitalize u s = [] \<longleftrightarrow> s = []"
    "capitalize u (capitalize u s) = capitalize u s"
    "map ascii_lower (capitalize u s) = map ascii_lower s"
    "capitalize u (map ascii_lower s) = capitalize u s"
  using assms
  by (cases s; simp add: capitalize_ascii is_ascii_map_case ascii_case_simps o_def)+

section \<open>Canonical header names\<close>

lemma split_runs_ascii: "is_ascii s \<Longrightarrow> t \<in> set (split_runs p s) \<Longrightarrow> is_ascii t"
proof (induction p s rule: split_runs.induct)
  case (1 p s)
  let ?rest = "dropWhile (\<lambda>c. \<not> p c) s"
  show ?case
  proof (cases "?rest = []")
    case True
    then have "split_runs p s = [s]" by (subst split_runs.simps) simp
    with 1 show ?thesis by simp
  next
    case False
    have "is_ascii (dropWhile p ?rest)"
      using \<open>is_ascii s\<close> by (auto simp: is_ascii_iff dest: set_dropWhileD)
    moreover have "is_ascii (takeWhile (\<lambda>c. \<not> p c) s)"
      using \<open>is_ascii s\<close> by (auto simp: is_ascii_iff dest: set_takeWhileD)
    ultimately show ?thesis
      using "1.IH" [OF refl False] "1.prems"(2) split_runs_Cons [OF False] by auto
  qed
qed

lemma split_canonical:
  assumes "is_ascii k"
  shows "split_runs key_sep (canonicalizeKey u k) = map (capitalize u) (split_runs key_sep k)"
  unfolding canonicalizeKey_def
proof (rule split_runs_join)
  show "key_sep 45" by (simp add: key_sep_def)
  have nosep: "\<not> key_sep c" if "s \<in> set (split_runs key_sep k)" "c \<in> set (capitalize u s)" for s c
  proof -
    have "is_ascii s" using assms that(1) by (rule split_runs_ascii)
    moreover have "\<forall>c \<in> set s. \<not> key_sep c"
      using split_runs_pieces [of key_sep k] that(1) by (auto simp: pieces_def)
    ultimately show ?thesis
      using that(2) by (auto simp: capitalize_ascii key_sep_case dest: in_set_takeD in_set_dropD)
  qed
  show "pieces key_sep (map (capitalize u) (split_runs key_sep k))"
    using split_runs_pieces [of key_sep k] nosep
    by (intro pieces_map) (auto simp: capitalize_facts dest: split_runs_ascii [OF assms])
qed

lemma is_ascii_join:
  "is_ascii sep \<Longrightarrow> (\<And>s. s \<in> set ss \<Longrightarrow> is_ascii s) \<Longrightarrow> is_ascii (join sep ss)"
  by (induction sep ss rule: join.induct) auto

lemma canonical_ascii: "is_ascii k \<Longrightarrow> is_ascii (canonicalizeKey u k)"
  by (auto simp: canonicalizeKey_def intro!: is_ascii_join capitalize_facts(1) intro: split_runs_ascii)

lemma set_join: "c \<in> set (join sep ss) \<Longrightarrow> c \<in> set sep \<or> (\<exists>s \<in> set ss. c \<in> set s)"
  by (induction sep ss rule: join.induct) auto

lemma canonical_no_space:
  assumes "is_ascii k" and "c \<in> set (canonicalizeKey u k)"
  shows "\<not> js_space c"
proof -
  consider "c = 45" | s where "s \<in> set (split_runs key_sep (canonicalizeKey u k))" "c \<in> set s"
    using set_join [of c "[45]"] assms split_canonical [OF assms(1), of u]
    by (force simp: canonicalizeKey_def)
  then show ?thesis
  proof cases
    case 1
    then show ?thesis by (simp add: js_space_def)
  next
    case (2 s)
    then have "\<not> key_sep c"
      using split_runs_pieces [of key_sep "canonicalizeKey u k"] by (auto simp: pieces_def)
    then show ?thesis by (simp add: key_sep_def)
  qed
qed

text \<open>Canonicalisation is idempotent on ASCII header names.\<close>

lemma canonicalizeKey_idem:
  assumes "is_ascii k"
  shows "canonicalizeKey u (canonicalizeKey u k) = canonicalizeKey u k"
proof -
  have "map (capitalize u) (map (capitalize u) (split_runs key_sep k))
      = map (capitalize u) (split_runs key_sep k)"
    by (auto simp: capitalize_facts dest: split_runs_ascii [OF assms])
  then show ?thesis
    using split_canonical [OF assms, of u]
    by (simp only: canonicalizeKey_def [of u "canonicalizeKey u k"]) (simp add: canonicalizeKey_def)
qed

text \<open>
  C31: two ASCII header names get the same canonical spelling exactly when they consist of the same
  words up to letter case, whatever hyphens, underscores and white space separate the words.
\<close>

theorem canonicalizeKey_eq_iff:
  assumes "is_ascii k" "is_ascii l"
  shows "canonicalizeKey u k = canonicalizeKey u l \<longleftrightarrow>
    map (map ascii_lower) (split_runs key_sep k) = map (map ascii_lower) (split_runs key_sep l)"
    (is "?L \<longleftrightarrow> ?R")
proof
  have low: "map (map ascii_lower) (map (capitalize u) (split_runs key_sep x))
      = map (map ascii_lower) (split_runs key_sep x)" if "is_ascii x" for x
    by (auto simp: capitalize_facts dest: split_runs_ascii [OF that])
  show "?L \<Longrightarrow> ?R"
    using low assms split_canonical by metis
  have cap: "map (capitalize u) (map (map ascii_lower) (split_runs key_sep x))
      = map (capitalize u) (split_runs key_sep x)" if "is_ascii x" for x
    by (auto simp: capitalize_facts dest: split_runs_ascii [OF that])
  show "?R \<Longrightarrow> ?L"
    using cap assms unfolding canonicalizeKey_def by metis
qed

end
