(* ===== verification/Exchange.thy ===== *)
theory Exchange
  imports Utilities
begin

text \<open>
  Exchange.ts and PromiseExchange.ts: a buffer with two sides that pairs the calls of \<^verbatim>\<open>give\<close> with
  those of \<^verbatim>\<open>take\<close>, whichever comes first. The contract \<open>pairing_exchange\<close> says that the k-th give
  and the k-th take get the same item; the buffer satisfies it for every factory of numbered
  items, and the promise exchange for the factory of promise triplets, which makes it a queue of
  values in which a reader may wait before the value exists.
\<close>

section \<open>Definitions\<close>

record ('a, 'f) exchange =
  buffer :: "'a list"
  side :: bool
  fstate :: 'f

definition newExchange :: "'f \<Rightarrow> ('a, 'f) exchange" where
  "newExchange f = \<lparr>buffer = [], side = False, fstate = f\<rparr>"

definition exch_set :: "('f \<Rightarrow> 'a \<times> 'f) \<Rightarrow> bool \<Rightarrow> ('a, 'f) exchange \<Rightarrow> 'a \<times> ('a, 'f) exchange" where
  "exch_set factory fromSide x =
     (if length (buffer x) > 0 \<and> side x = fromSide
      then (hd (buffer x), x\<lparr>buffer := tl (buffer x)\<rparr>)
      else (let (n, f) = factory (fstate x)
            in (n, x\<lparr>side := \<not> fromSide, fstate := f, buffer := buffer x @ [n]\<rparr>)))"

definition exch_get :: "bool \<Rightarrow> ('a, 'f) exchange \<Rightarrow> 'a list" where
  "exch_get fromSide x = (if side x = fromSide then [] else buffer x)"

definition exch_take :: "('f \<Rightarrow> 'a \<times> 'f) \<Rightarrow> ('a, 'f) exchange \<Rightarrow> 'a \<times> ('a, 'f) exchange" where
  "exch_take factory = exch_set factory True"

definition exch_give :: "('f \<Rightarrow> 'a \<times> 'f) \<Rightarrow> ('a, 'f) exchange \<Rightarrow> 'a \<times> ('a, 'f) exchange" where
  "exch_give factory = exch_set factory False"

definition exch_taken :: "('a, 'f) exchange \<Rightarrow> 'a list" where
  "exch_taken = exch_get True"

definition exch_given :: "('a, 'f) exchange \<Rightarrow> 'a list" where
  "exch_given = exch_get False"

text \<open>The promise exchange: the factory makes promise triplets in the store of promises.\<close>

type_synonym 'm pexchange = "(nat, 'm promises) exchange"

definition createPromiseExchange :: "'m pexchange" where
  "createPromiseExchange = newExchange []"

definition pe_give :: "'m \<Rightarrow> 'm pexchange \<Rightarrow> 'm pexchange" where
  "pe_give obj x = (let (i, y) = exch_give newPromiseTriplet x in y\<lparr>fstate := resolve i obj (fstate y)\<rparr>)"

definition pe_take :: "'m pexchange \<Rightarrow> nat \<times> 'm pexchange" where
  "pe_take x = exch_take newPromiseTriplet x"

section \<open>The contract: gives and takes are paired in order\<close>

datatype xop = Give | Take

fun run_ops :: "('s \<Rightarrow> 'a \<times> 's) \<Rightarrow> ('s \<Rightarrow> 'a \<times> 's) \<Rightarrow> xop list \<Rightarrow> 's \<Rightarrow> (xop \<times> 'a) list \<times> 's" where
  "run_ops give tak [] s = ([], s)"
| "run_ops give tak (p # ps) s =
     (let (a, s') = (case p of Give \<Rightarrow> give s | Take \<Rightarrow> tak s);
          (rs, s'') = run_ops give tak ps s'
      in ((p, a) # rs, s''))"

definition results_of :: "xop \<Rightarrow> (xop \<times> 'a) list \<Rightarrow> 'a list" where
  "results_of p rs = map snd (filter (\<lambda>r. fst r = p) rs)"

locale pairing_exchange =
  fixes give :: "'s \<Rightarrow> 'a \<times> 's"
    and tak :: "'s \<Rightarrow> 'a \<times> 's"
    and given :: "'s \<Rightarrow> 'a list"
    and taken :: "'s \<Rightarrow> 'a list"
    and item :: "nat \<Rightarrow> 'a"
    and gives :: "'s \<Rightarrow> nat"
    and takes :: "'s \<Rightarrow> nat"
    and inv :: "'s \<Rightarrow> bool"
  assumes give_item: "inv s \<Longrightarrow> fst (give s) = item (gives s)"
    and take_item: "inv s \<Longrightarrow> fst (tak s) = item (takes s)"
    and give_counts: "inv s \<Longrightarrow> gives (snd (give s)) = Suc (gives s) \<and> takes (snd (give s)) = takes s"
    and take_counts: "inv s \<Longrightarrow> takes (snd (tak s)) = Suc (takes s) \<and> gives (snd (tak s)) = gives s"
    and inv_ops: "inv s \<Longrightarrow> inv (snd (give s)) \<and> inv (snd (tak s))"
    and given_items: "inv s \<Longrightarrow> given s = map item [takes s..<gives s]"
    and taken_items: "inv s \<Longrightarrow> taken s = map item [gives s..<takes s]"
begin

lemma run_results:
  assumes "inv s" and "run_ops give tak ps s = (rs, s')"
  shows "inv s' \<and> gives s' = gives s + count_list ps Give \<and> takes s' = takes s + count_list ps Take \<and>
    results_of Give rs = map item [gives s..<gives s'] \<and> results_of Take rs = map item [takes s..<takes s']"
  using assms
proof (induction ps arbitrary: s rs)
  case Nil
  then show ?case by (simp add: results_of_def)
next
  case (Cons p ps)
  show ?case
  proof (cases p)
    case Give
    obtain a t where g: "give s = (a, t)" by (cases "give s")
    obtain rs' where rs': "run_ops give tak ps t = (rs', s')" "rs = (Give, a) # rs'"
      using Cons.prems(2) Give g by (auto simp: split_beta prod_eq_iff)
    have t: "inv t" "gives t = Suc (gives s)" "takes t = takes s" "a = item (gives s)"
      using give_counts inv_ops give_item Cons.prems(1) g by (metis fst_conv snd_conv)+
    from Cons.IH [OF t(1) rs'(1)] t rs'(2) Give show ?thesis
      by (simp add: results_of_def upt_conv_Cons del: upt_Suc)
  next
    case Take
    obtain a t where g: "tak s = (a, t)" by (cases "tak s")
    obtain rs' where rs': "run_ops give tak ps t = (rs', s')" "rs = (Take, a) # rs'"
      using Cons.prems(2) Take g by (auto simp: split_beta prod_eq_iff)
    have t: "inv t" "takes t = Suc (takes s)" "gives t = gives s" "a = item (takes s)"
      using take_counts inv_ops take_item Cons.prems(1) g by (metis fst_conv snd_conv)+
    from Cons.IH [OF t(1) rs'(1)] t rs'(2) Take show ?thesis
      by (simp add: results_of_def upt_conv_Cons del: upt_Suc)
  qed
qed

end

section \<open>The buffer keeps the contract\<close>

text \<open>A factory whose k-th product is the k-th item, the count readable off its state.\<close>

locale item_factory =
  fixes factory :: "'f \<Rightarrow> 'a \<times> 'f"
    and made :: "'f \<Rightarrow> nat"
    and item :: "nat \<Rightarrow> 'a"
  assumes factory_item: "fst (factory f) = item (made f)"
    and factory_made: "made (snd (factory f)) = Suc (made f)"

definition exch_gives :: "('f \<Rightarrow> nat) \<Rightarrow> ('a, 'f) exchange \<Rightarrow> nat" where
  "exch_gives made x = (if side x then made (fstate x) else made (fstate x) - length (buffer x))"

definition exch_takes :: "('f \<Rightarrow> nat) \<Rightarrow> ('a, 'f) exchange \<Rightarrow> nat" where
  "exch_takes made x = (if side x then made (fstate x) - length (buffer x) else made (fstate x))"

definition exch_inv :: "('f \<Rightarrow> nat) \<Rightarrow> (nat \<Rightarrow> 'a) \<Rightarrow> ('a, 'f) exchange \<Rightarrow> bool" where
  "exch_inv made item x = (length (buffer x) \<le> made (fstate x) \<and>
     buffer x = map item [made (fstate x) - length (buffer x)..<made (fstate x)])"

lemma exch_inv_front:
  assumes "exch_inv made item x" and "buffer x \<noteq> []"
  shows "hd (buffer x) = item (made (fstate x) - length (buffer x))"
    and "tl (buffer x) = map item [Suc (made (fstate x) - length (buffer x))..<made (fstate x)]"
    and "0 < length (buffer x)" "length (buffer x) \<le> made (fstate x)"
proof -
  let ?n = "made (fstate x)" and ?l = "length (buffer x)"
  have l: "0 < ?l" "?l \<le> ?n" and b: "buffer x = map item [?n - ?l..<?n]"
    using assms by (auto simp: exch_inv_def)
  then have "[?n - ?l..<?n] = (?n - ?l) # [Suc (?n - ?l)..<?n]"
    by (intro upt_conv_Cons) linarith
  with b show "hd (buffer x) = item (?n - ?l)" "tl (buffer x) = map item [Suc (?n - ?l)..<?n]"
    by (metis list.map(2) list.sel(1), metis list.map(2) list.sel(3))
  from l show "0 < ?l" "?l \<le> ?n" by simp_all
qed

context item_factory
begin

lemma set_counts_all:
  assumes "exch_inv made item x"
  shows "exch_inv made item (snd (exch_set factory s x)) \<and>
    fst (exch_set factory s x) = item (if s then exch_takes made x else exch_gives made x) \<and>
    exch_gives made (snd (exch_set factory s x)) = (if s then exch_gives made x else Suc (exch_gives made x)) \<and>
    exch_takes made (snd (exch_set factory s x)) = (if s then Suc (exch_takes made x) else exch_takes made x)"
proof -
  let ?n = "made (fstate x)" and ?l = "length (buffer x)"
  obtain a f where f: "factory (fstate x) = (a, f)" by (cases "factory (fstate x)")
  have a: "a = item ?n" "made f = Suc ?n" using factory_item factory_made f by (metis fst_conv snd_conv)+
  have l: "?l \<le> ?n" "buffer x = map item [?n - ?l..<?n]" using assms by (simp_all add: exch_inv_def)
  note defs = exch_set_def exch_inv_def exch_gives_def exch_takes_def
  show ?thesis
  proof (cases "buffer x = []")
    case True
    with a f show ?thesis by (cases s) (auto simp: defs)
  next
    case False
    note front = exch_inv_front [OF assms False]
    have suc: "Suc (?n - ?l) = ?n - (?l - 1)" using front(3,4) by linarith
    show ?thesis
    proof (cases "side x = s")
      case True
      with False front suc show ?thesis by (cases s) (auto simp: defs)
    next
      case neq: False
      have "[?n - ?l..<Suc ?n] = [?n - ?l..<?n] @ [?n]" by simp
      with neq False a f l show ?thesis by (cases s) (auto simp: defs)
    qed
  qed
qed

lemmas set_counts =
  set_counts_all [THEN conjunct1]
  set_counts_all [THEN conjunct2, THEN conjunct1]
  set_counts_all [THEN conjunct2, THEN conjunct2, THEN conjunct1]
  set_counts_all [THEN conjunct2, THEN conjunct2, THEN conjunct2]

lemma views:
  assumes "exch_inv made item x"
  shows "exch_given x = map item [exch_takes made x..<exch_gives made x]"
    "exch_taken x = map item [exch_gives made x..<exch_takes made x]"
  using assms
  by (auto simp: exch_given_def exch_taken_def exch_get_def exch_gives_def exch_takes_def exch_inv_def)

end

sublocale item_factory \<subseteq> pairing: pairing_exchange
    "exch_give factory" "exch_take factory" exch_given exch_taken item
    "exch_gives made" "exch_takes made" "exch_inv made item"
  by unfold_locales (simp_all add: exch_give_def exch_take_def set_counts views)

interpretation triplets: item_factory "newPromiseTriplet :: 'm promises \<Rightarrow> nat \<times> 'm promises" length "\<lambda>k. k"
  by unfold_locales (simp_all add: newPromiseTriplet_def)

interpretation counter: item_factory "\<lambda>i. (i, Suc i)" "\<lambda>i. i" "\<lambda>k. k"
  by unfold_locales simp_all

lemma exch_inv_new: "made f = 0 \<Longrightarrow> exch_inv made item (newExchange f)"
  "made f = 0 \<Longrightarrow> exch_gives made (newExchange f) = 0" "made f = 0 \<Longrightarrow> exch_takes made (newExchange f) = 0"
  by (simp_all add: exch_inv_def newExchange_def exch_gives_def exch_takes_def)

context item_factory
begin

lemma run_new:
  assumes "made f = 0" and "run_ops (exch_give factory) (exch_take factory) ops (newExchange f) = (rs, x)"
  shows "results_of Give rs = map item [0..<count_list ops Give] \<and>
    results_of Take rs = map item [0..<count_list ops Take]"
  using pairing.run_results [OF exch_inv_new(1) [of made f item, OF assms(1)] assms(2)]
  by (simp add: exch_inv_new assms(1))

end

text \<open>
  Whatever the order of the calls, the k-th \<^verbatim>\<open>give\<close> and the k-th \<^verbatim>\<open>take\<close> on an exchange get the
  same item, the k-th product of the factory.
\<close>

lemma exchange_pairs:
  assumes "item_factory factory made item" and "made f = 0"
    and "run_ops (exch_give factory) (exch_take factory) ops (newExchange f) = (rs, x)"
  shows "results_of Give rs = map item [0..<count_list ops Give] \<and>
    results_of Take rs = map item [0..<count_list ops Take]"
  using item_factory.run_new [OF assms] .

section \<open>The promise exchange is a queue of values\<close>

datatype 'm pop = PGive 'm | PTake

fun pe_run :: "'m pop list \<Rightarrow> 'm pexchange \<Rightarrow> nat list \<times> 'm pexchange" where
  "pe_run [] x = ([], x)"
| "pe_run (PGive m # ps) x = pe_run ps (pe_give m x)"
| "pe_run (PTake # ps) x =
     (let (i, y) = pe_take x; (is, z) = pe_run ps y in (i # is, z))"

fun given_values :: "'m pop list \<Rightarrow> 'm list" where
  "given_values [] = []"
| "given_values (PGive m # ps) = m # given_values ps"
| "given_values (PTake # ps) = given_values ps"

fun take_count :: "'m pop list \<Rightarrow> nat" where
  "take_count [] = 0"
| "take_count (PGive m # ps) = take_count ps"
| "take_count (PTake # ps) = Suc (take_count ps)"

text \<open>What the store of promises looks like after the values were given and the takes made.\<close>

definition queue_cells :: "'m list \<Rightarrow> nat \<Rightarrow> 'm promises" where
  "queue_cells ms t = map Fulfilled ms @ replicate (t - length ms) Pending"

definition pe_inv :: "'m list \<Rightarrow> nat \<Rightarrow> 'm pexchange \<Rightarrow> bool" where
  "pe_inv ms t x = (exch_inv length (\<lambda>k. k) x \<and> exch_gives length x = length ms \<and>
     exch_takes length x = t \<and> fstate x = queue_cells ms t)"

lemma exch_set_fstate:
  assumes "exch_inv made item x"
  shows "fstate (snd (exch_set factory s x)) =
    (if (if s then exch_takes made x < exch_gives made x else exch_gives made x < exch_takes made x)
     then fstate x else snd (factory (fstate x)))"
proof (cases "buffer x = []")
  case True
  then show ?thesis by (auto simp: exch_set_def exch_gives_def exch_takes_def split_beta)
next
  case False
  have "made (fstate x) - length (buffer x) < made (fstate x)"
    using exch_inv_front(3,4) [OF assms False] by linarith
  with False show ?thesis
    by (cases s; cases "side x") (auto simp: exch_set_def exch_gives_def exch_takes_def split_beta)
qed

lemma exch_settle:
  "exch_inv length item (x\<lparr>fstate := settle r i (fstate x)\<rparr>) = exch_inv length item x"
  "exch_gives length (x\<lparr>fstate := settle r i (fstate x)\<rparr>) = exch_gives length x"
  "exch_takes length (x\<lparr>fstate := settle r i (fstate x)\<rparr>) = exch_takes length x"
  by (simp_all add: exch_inv_def exch_gives_def exch_takes_def)

lemma pe_give_inv:
  assumes "pe_inv ms t x"
  shows "pe_inv (ms @ [m]) t (pe_give m x)"
proof -
  let ?i = "fst (exch_give newPromiseTriplet x)" and ?y = "snd (exch_give newPromiseTriplet x)"
  have inv: "exch_inv length (\<lambda>k. k) x" "exch_gives length x = length ms" "exch_takes length x = t"
    and cells: "fstate x = queue_cells ms t" using assms by (auto simp: pe_inv_def)
  have i: "?i = length ms" using triplets.pairing.give_item [OF inv(1)] inv(2) by simp
  have counts: "exch_gives length ?y = Suc (length ms)" "exch_takes length ?y = t" "exch_inv length (\<lambda>k. k) ?y"
    using triplets.pairing.give_counts [OF inv(1)] triplets.pairing.inv_ops [OF inv(1)] inv by auto
  have store: "fstate ?y = (if length ms < t then queue_cells ms t else queue_cells ms t @ [Pending])"
    using exch_set_fstate [OF inv(1), where factory = newPromiseTriplet and s = False] inv cells
    by (simp add: exch_give_def newPromiseTriplet_def)
  have settled: "settle (Fulfilled m) (length ms) (fstate ?y) = queue_cells (ms @ [m]) t"
  proof (cases "length ms < t")
    case True
    then have "replicate (t - length ms) (Pending :: 'a promise) = Pending # replicate (t - Suc (length ms)) Pending"
      by (metis Suc_diff_Suc replicate_Suc)
    with True store show ?thesis
      by (simp add: settle_def promise_at_def queue_cells_def nth_append list_update_append)
  next
    case False
    with store show ?thesis
      by (simp add: settle_def promise_at_def queue_cells_def nth_append list_update_append)
  qed
  have pe: "pe_give m x = ?y\<lparr>fstate := settle (Fulfilled m) (length ms) (fstate ?y)\<rparr>"
    using i by (simp add: pe_give_def split_beta)
  show ?thesis
    unfolding pe pe_inv_def exch_settle using counts settled by simp
qed

lemma pe_take_inv:
  assumes "pe_inv ms t x"
  shows "fst (pe_take x) = t \<and> pe_inv ms (Suc t) (snd (pe_take x))"
proof -
  have inv: "exch_inv length (\<lambda>k. k) x" "exch_gives length x = length ms" "exch_takes length x = t"
    and cells: "fstate x = queue_cells ms t" using assms by (auto simp: pe_inv_def)
  have "fstate (snd (pe_take x)) = (if t < length ms then queue_cells ms t else queue_cells ms t @ [Pending])"
    using exch_set_fstate [OF inv(1), where factory = newPromiseTriplet and s = True] inv cells
    by (simp add: pe_take_def exch_take_def newPromiseTriplet_def)
  also have "\<dots> = queue_cells ms (Suc t)"
    by (simp add: queue_cells_def Suc_diff_le not_less replicate_append_same)
  finally show ?thesis
    using triplets.pairing.take_item [OF inv(1)] triplets.pairing.take_counts [OF inv(1)]
      triplets.pairing.inv_ops [OF inv(1)] inv
    by (simp add: pe_inv_def pe_take_def)
qed

lemma pe_run_inv:
  "pe_inv ms t x \<Longrightarrow> pe_run ps x = (is, y) \<Longrightarrow>
   is = [t..<t + take_count ps] \<and> pe_inv (ms @ given_values ps) (t + take_count ps) y"
proof (induction ps arbitrary: ms t x "is")
  case (Cons p ps)
  show ?case
  proof (cases p)
    case (PGive m)
    with Cons.prems Cons.IH [OF pe_give_inv [OF Cons.prems(1), of m]] show ?thesis by simp
  next
    case PTake
    obtain i z where i: "pe_take x = (i, z)" by (cases "pe_take x")
    obtain js where js: "pe_run ps z = (js, y)" "is = i # js"
      using Cons.prems(2) PTake i by (auto simp: split_beta prod_eq_iff)
    have "i = t" "pe_inv ms (Suc t) z" using pe_take_inv [OF Cons.prems(1)] i by auto
    with Cons.IH [OF this(2) js(1)] js(2) PTake show ?thesis
      by (simp add: upt_conv_Cons del: upt_Suc)
  qed
qed simp

text \<open>
  C16: the promise exchange is a queue in which readers may wait: after any sequence of gives and
  takes, the k-th take returned promise k, and that promise is fulfilled with the k-th value given,
  or pending while fewer values were given.
\<close>

theorem promise_exchange_fifo:
  assumes "pe_run ps createPromiseExchange = (is, x)"
  shows "is = [0..<take_count ps] \<and>
    fstate x = map Fulfilled (given_values ps) @ replicate (take_count ps - length (given_values ps)) Pending"
proof -
  have "pe_inv [] 0 createPromiseExchange"
    by (simp add: pe_inv_def createPromiseExchange_def exch_inv_new queue_cells_def)
      (simp add: newExchange_def)
  from pe_run_inv [OF this assms] show ?thesis by (simp add: pe_inv_def queue_cells_def)
qed

end
