(* ===== verification/Messages.thy ===== *)
theory Messages
  imports Utilities
begin

text \<open>
  Headers and messages: Header.ts, Headers.ts, RpcHeaders.ts, RpcEventHeaders.ts,
  RpcRequestHeaders.ts, ErrorHeaders.ts, the Message types over them with their guards, and the
  accessors of messages.ts. The guards run on values of unknown type; \<open>message_val\<close> is a message
  of the code as such a value.
\<close>

section \<open>Header names\<close>

datatype Header = Header_ID | Header_Type | Header_Class | Header_Error | Header_Length

instantiation Header :: enum
begin

definition enum_Header :: "Header list" where
  "enum_Header = [Header_ID, Header_Type, Header_Class, Header_Error, Header_Length]"

definition enum_all_Header :: "(Header \<Rightarrow> bool) \<Rightarrow> bool" where
  "enum_all_Header P = list_all P enum_class.enum"

definition enum_ex_Header :: "(Header \<Rightarrow> bool) \<Rightarrow> bool" where
  "enum_ex_Header P = list_ex P enum_class.enum"

instance
proof
  show univ: "(UNIV :: Header set) = set enum_class.enum"
    using Header.exhaust by (auto simp: enum_Header_def)
  show "distinct (enum_class.enum :: Header list)" by (simp add: enum_Header_def)
  show "enum_class.enum_all P \<longleftrightarrow> Ball (UNIV :: Header set) P" for P
    using univ by (auto simp: enum_all_Header_def list_all_iff)
  show "enum_class.enum_ex P \<longleftrightarrow> Bex (UNIV :: Header set) P" for P
    using univ by (auto simp: enum_ex_Header_def list_ex_iff)
qed

end

fun header_name :: "Header \<Rightarrow> jsstring" where
  "header_name Header_ID = js ''Interop-Rpc-Id''"
| "header_name Header_Type = js ''Content-Type''"
| "header_name Header_Class = js ''Interop-Rpc-Class''"
| "header_name Header_Error = js ''Interop-Error''"
| "header_name Header_Length = js ''Content-Length''"

section \<open>Guards\<close>

definition isHeaders :: "jsval \<Rightarrow> bool" where
  "isHeaders obj = (isObj obj \<and> list_all (\<lambda>k. typeof (js_get obj k) = ''string'') (obj_keys (js_entries obj)))"

definition isRpcHeaders :: "jsval \<Rightarrow> bool" where
  "isRpcHeaders obj = (isHeaders obj \<and> typeof (js_get obj (header_name Header_ID)) = ''string'')"

definition isRpcEventHeaders :: "jsval \<Rightarrow> bool" where
  "isRpcEventHeaders obj = (isHeaders obj \<and> typeof (js_get obj (header_name Header_Class)) = ''string'')"

definition isErrorHeaders :: "jsval \<Rightarrow> bool" where
  "isErrorHeaders obj = (isHeaders obj \<and> typeof (js_get obj (header_name Header_Error)) = ''string'')"

definition isRpcRequestHeaders :: "jsval \<Rightarrow> bool" where
  "isRpcRequestHeaders obj = (isRpcHeaders obj \<and> typeof (js_get obj (header_name Header_Class)) = ''string'')"

fun instanceof_Blob :: "jsval \<Rightarrow> bool" where
  "instanceof_Blob (JBlob b) = True"
| "instanceof_Blob v = False"

definition isMessage :: "jsval \<Rightarrow> bool" where
  "isMessage obj = (isObj obj \<and> instanceof_Blob (js_get obj (js ''body'')) \<and> isHeaders (js_get obj (js ''headers'')))"

definition isRpcMessage :: "jsval \<Rightarrow> bool" where
  "isRpcMessage obj = (isMessage obj \<and> isRpcHeaders (js_get obj (js ''headers'')))"

definition isRpcEventMessage :: "jsval \<Rightarrow> bool" where
  "isRpcEventMessage obj = (isMessage obj \<and> isRpcEventHeaders (js_get obj (js ''headers'')))"

definition isErrorMessage :: "jsval \<Rightarrow> bool" where
  "isErrorMessage obj = (isMessage obj \<and> isErrorHeaders (js_get obj (js ''headers'')))"

definition isRpcRequestMessage :: "jsval \<Rightarrow> bool" where
  "isRpcRequestMessage obj = (isMessage obj \<and> isRpcRequestHeaders (js_get obj (js ''headers'')))"

section \<open>Messages\<close>

type_synonym headers = "(jsstring \<times> jsstring) list"

record message =
  headers :: headers
  body :: blob

definition headers_val :: "headers \<Rightarrow> jsval" where
  "headers_val hs = JObject (map (\<lambda>(k, v). (k, JString v)) hs)"

definition message_val :: "message \<Rightarrow> jsval" where
  "message_val m = JObject [(js ''headers'', headers_val (headers m)), (js ''body'', JBlob (body m))]"

definition header_of :: "message \<Rightarrow> Header \<Rightarrow> jsstring option" where
  "header_of m k = obj_get (headers m) (header_name k)"

text \<open>\<^verbatim>\<open>message.headers[header] || message.headers[canonicalizeKey(header)]\<close>; the empty string is falsy.\<close>

definition messageHeader :: "('z) unicode_scheme \<Rightarrow> message \<Rightarrow> jsstring \<Rightarrow> jsstring option" where
  "messageHeader u m h =
     (case obj_get (headers m) h of
        Some v \<Rightarrow> if v \<noteq> [] then Some v else obj_get (headers m) (canonicalizeKey u h)
      | None \<Rightarrow> obj_get (headers m) (canonicalizeKey u h))"

definition messageID :: "('z) unicode_scheme \<Rightarrow> message \<Rightarrow> jsstring option" where
  "messageID u m = messageHeader u m (header_name Header_ID)"

definition messageClass :: "('z) unicode_scheme \<Rightarrow> message \<Rightarrow> jsstring option" where
  "messageClass u m = messageHeader u m (header_name Header_Class)"

definition messageError :: "('z) unicode_scheme \<Rightarrow> message \<Rightarrow> jsstring option" where
  "messageError u m = messageHeader u m (header_name Header_Error)"

section \<open>Facts on header names\<close>

lemma js_simps [string_simps]: "js [] = []" "js (c # cs) = of_char c # js cs"
  by (simp_all add: js_def)

lemma header_names_ascii: "\<forall>k. is_ascii (header_name k)"
  by code_simp

lemma header_name_ascii: "is_ascii (header_name k)"
  by (rule header_names_ascii [rule_format])

lemma header_name_canonical: "canonicalizeKey u (header_name k) = header_name k"
  by (cases k; simp add: canonicalizeKey_def; code_simp)

lemma header_names_inj: "\<forall>j k. header_name j = header_name k \<longrightarrow> j = k"
  by code_simp

lemma header_name_inj [simp]: "header_name j = header_name k \<longleftrightarrow> j = k"
  using header_names_inj by blast

declare header_name.simps [simp del]

lemma messageHeader_canonical:
  "canonicalizeKey u k = k \<Longrightarrow> messageHeader u m k = obj_get (headers m) k"
  by (auto simp: messageHeader_def split: option.splits)

lemma message_accessors [simp]:
  "messageID u m = header_of m Header_ID"
  "messageClass u m = header_of m Header_Class"
  "messageError u m = header_of m Header_Error"
  by (simp_all add: messageID_def messageClass_def messageError_def header_of_def
      messageHeader_canonical header_name_canonical)

section \<open>The guards on messages\<close>

lemma obj_get_map: "obj_get (map (\<lambda>(k, v). (k, f v)) ps) k = map_option f (obj_get ps k)"
  by (induction ps) (auto simp: obj_simps)

lemma obj_keys_map: "obj_keys (map (\<lambda>(k, v). (k, f v)) ps) = obj_keys ps"
  by (induction ps) auto

lemma js_get_headers_val:
  "obj_wf hs \<Longrightarrow> js_get (headers_val hs) k = (case obj_get hs k of Some v \<Rightarrow> JString v | None \<Rightarrow> JUndefined)"
proof -
  assume "obj_wf hs"
  then have "obj_wf (map (\<lambda>(k, v). (k, JString v)) hs)" by (simp only: obj_keys_map)
  from obj_get_own_order [OF this, of k] show ?thesis
    by (cases "obj_get hs k") (simp_all add: js_get_def headers_val_def obj_get_map)
qed

lemma isHeaders_headers_val: "obj_wf hs \<Longrightarrow> isHeaders (headers_val hs)"
proof -
  assume wf: "obj_wf hs"
  have "set (obj_keys (js_entries (headers_val hs))) = set (obj_keys hs)"
    by (force simp: headers_val_def)
  moreover have "typeof (js_get (headers_val hs) k) = ''string''" if "k \<in> set (obj_keys hs)" for k
    using that wf obj_get_None_iff [of hs k] by (auto simp: js_get_headers_val)
  ultimately show ?thesis
    by (auto simp: isHeaders_def isObj_def headers_val_def list_all_iff)
qed

lemma js_get_message_val:
  "js_get (message_val m) (js ''headers'') = headers_val (headers m)"
  "js_get (message_val m) (js ''body'') = JBlob (body m)"
proof -
  have ne: "js ''headers'' \<noteq> js ''body''" by code_simp
  then have "obj_wf [(js ''headers'', headers_val (headers m)), (js ''body'', JBlob (body m))]" by simp
  then show "js_get (message_val m) (js ''headers'') = headers_val (headers m)"
    "js_get (message_val m) (js ''body'') = JBlob (body m)"
    using ne by (simp_all add: js_get_def message_val_def obj_get_own_order obj_simps)
qed

lemma isMessage_message_val: "obj_wf (headers m) \<Longrightarrow> isMessage (message_val m)"
  by (simp add: isMessage_def js_get_message_val isHeaders_headers_val)
    (simp add: isObj_def message_val_def)

lemma guards_message_val:
  assumes "obj_wf (headers m)"
  shows "isRpcMessage (message_val m) \<longleftrightarrow> header_of m Header_ID \<noteq> None"
    "isRpcEventMessage (message_val m) \<longleftrightarrow> header_of m Header_Class \<noteq> None"
    "isErrorMessage (message_val m) \<longleftrightarrow> header_of m Header_Error \<noteq> None"
    "isRpcRequestMessage (message_val m) \<longleftrightarrow>
       header_of m Header_ID \<noteq> None \<and> header_of m Header_Class \<noteq> None"
  using assms
  by (auto simp: isRpcMessage_def isRpcEventMessage_def isErrorMessage_def isRpcRequestMessage_def
      isRpcHeaders_def isRpcEventHeaders_def isErrorHeaders_def isRpcRequestHeaders_def
      isMessage_message_val js_get_message_val isHeaders_headers_val js_get_headers_val header_of_def
      split: option.splits)

text \<open>
  An RPC request is exactly a value that is both an RPC message and an RPC event message,
  for every value whatsoever.
\<close>

lemma isRpcRequestMessage_iff:
  "isRpcRequestMessage v \<longleftrightarrow> isRpcMessage v \<and> isRpcEventMessage v"
  by (auto simp: isRpcRequestMessage_def isRpcMessage_def isRpcEventMessage_def isRpcRequestHeaders_def
      isRpcHeaders_def isRpcEventHeaders_def)

end
