(* ===== verification/Content.thy ===== *)
theory Content
  imports Messages
begin

text \<open>
  Content types and messages that carry content: Marshaler.ts, marshalers.ts, ContentType.ts,
  ContentTypes.ts, createDecoder.ts, createMessage.ts, createRpcMessage.ts and
  createRpcRequestMessage.ts. An \<^verbatim>\<open>async\<close> function that shares no state is a function into
  \<open>result\<close>: a rejected promise is \<open>Inl\<close>. The module variables \<^verbatim>\<open>sessionId\<close> and \<^verbatim>\<open>nextId\<close> of
  createRpcMessage.ts are a record passed through.
\<close>

section \<open>Marshalers\<close>

definition isMarshaler :: "jsval \<Rightarrow> bool" where
  "isMarshaler obj = (isObj obj \<and> typeof (js_get obj (js ''marshal'')) = ''function'' \<and>
     typeof (js_get obj (js ''unmarshal'')) = ''function'')"

definition json_marshal :: "('z) host_scheme \<Rightarrow> jsval \<Rightarrow> blob result" where
  "json_marshal h obj =
     andThen (json_stringify h (if obj = JUndefined then JNull else obj))
       (\<lambda>r. Inr (mk_blob (utf8_encode (case r of Some s \<Rightarrow> s | None \<Rightarrow> js ''undefined''))))"

definition json_unmarshal :: "('z) host_scheme \<Rightarrow> blob \<Rightarrow> jsval result" where
  "json_unmarshal h b = json_parse h (blob_text b)"

fun isBlobPart :: "jsval \<Rightarrow> bool" where
  "isBlobPart (JString s) = True"
| "isBlobPart (JBlob b) = True"
| "isBlobPart (JBuffer bs) = True"
| "isBlobPart (JView ns bs) = True"
| "isBlobPart v = False"

fun part_bytes :: "jsval \<Rightarrow> byte list" where
  "part_bytes (JString s) = utf8_encode s"
| "part_bytes (JBlob b) = blob_bytes b"
| "part_bytes (JBuffer bs) = bs"
| "part_bytes (JView ns bs) = bs"
| "part_bytes v = []"

definition null_marshal :: "('z) host_scheme \<Rightarrow> jsval \<Rightarrow> blob result" where
  "null_marshal h obj =
     (if isBlobPart obj then Inr (mk_blob (part_bytes obj))
      else andThen (js_String h obj) (\<lambda>s. Inr (mk_blob (part_bytes (JString s)))))"

definition null_unmarshal :: "blob \<Rightarrow> jsval result" where
  "null_unmarshal b = Inr (JBlob b)"

text \<open>
  Calling a marshaler's methods. A function that is no marshal method rejects with a type error:
  the Marshaler interface admits none.
\<close>

fun call_marshal :: "('z) host_scheme \<Rightarrow> jsval \<Rightarrow> jsval \<Rightarrow> blob result" where
  "call_marshal h (JFunction (MarshalFn JsonMarshaler)) v = json_marshal h v"
| "call_marshal h (JFunction (MarshalFn NullMarshaler)) v = null_marshal h v"
| "call_marshal h (JFunction (MarshalFn (UserMarshaler n))) v = user_marshal h n v"
| "call_marshal h f v = Inl TypeErr"

fun call_unmarshal :: "('z) host_scheme \<Rightarrow> marshaler_id \<Rightarrow> blob \<Rightarrow> jsval result" where
  "call_unmarshal h JsonMarshaler b = json_unmarshal h b"
| "call_unmarshal h NullMarshaler b = null_unmarshal b"
| "call_unmarshal h (UserMarshaler n) b = user_unmarshal h n b"

section \<open>Content types\<close>

record content_type =
  ct_name :: jsstring
  ct_marshaler :: marshaler_id

definition isContentType :: "jsval \<Rightarrow> bool" where
  "isContentType obj = (isObj obj \<and> typeof (js_get obj (js ''name'')) = ''string'' \<and>
     isMarshaler (js_get obj (js ''marshaler'')))"

definition marshaler_val :: "marshaler_id \<Rightarrow> jsval" where
  "marshaler_val mid = JObject [(js ''marshal'', JFunction (MarshalFn mid)),
     (js ''unmarshal'', JFunction (UnmarshalFn mid))]"

definition content_type_val :: "content_type \<Rightarrow> jsval" where
  "content_type_val ct = JObject [(js ''name'', JString (ct_name ct)),
     (js ''marshaler'', marshaler_val (ct_marshaler ct))]"

definition makeContentType :: "jsstring \<Rightarrow> marshaler_id \<Rightarrow> content_type" where
  "makeContentType name marshaler = \<lparr>ct_name = name, ct_marshaler = marshaler\<rparr>"

definition ContentTypes_json :: content_type where
  "ContentTypes_json = makeContentType (js ''application/json'') JsonMarshaler"

definition ContentTypes_binary :: content_type where
  "ContentTypes_binary = makeContentType (js ''application/octet-stream'') NullMarshaler"

section \<open>Decoding\<close>

definition createDecoder :: "('z) host_scheme \<Rightarrow> content_type list \<Rightarrow> message \<Rightarrow> jsval result" where
  "createDecoder h contentTypes m =
     (let typeName = header_of m Header_Type;
          type = (case typeName of Some n \<Rightarrow> find (\<lambda>t. ct_name t = n) contentTypes | None \<Rightarrow> None)
      in case type of
           Some t \<Rightarrow> call_unmarshal h (ct_marshaler t) (body m)
         | None \<Rightarrow>
             (case typeName of
                Some n \<Rightarrow> if n \<noteq> [] then Inl (CannotDecodeType n) else Inl CannotDecodeNoType
              | None \<Rightarrow> Inl CannotDecodeNoType))"

definition decode :: "('z) host_scheme \<Rightarrow> message \<Rightarrow> jsval result" where
  "decode h = createDecoder h [ContentTypes_json, ContentTypes_binary]"

definition nullDecoder :: "message \<Rightarrow> message result" where
  "nullDecoder m = Inr m"

section \<open>Creating messages\<close>

definition emptyBlob :: blob where
  "emptyBlob = mk_blob (utf8_encode [])"

fun string_of :: "jsval \<Rightarrow> jsstring" where
  "string_of (JString s) = s"
| "string_of v = []"

text \<open>The own properties of a value that passed \<open>isHeaders\<close>, all strings.\<close>

definition headers_of :: "jsval \<Rightarrow> headers" where
  "headers_of v = map (\<lambda>(k, x). (k, string_of x)) (js_entries v)"

text \<open>
  \<^verbatim>\<open>Object.assign(target, source)\<close> on a plain object: assigning a string to \<^verbatim>\<open>__proto__\<close> calls the setter
  of \<^verbatim>\<open>Object.prototype\<close>, which ignores it.
\<close>

definition assignable :: "(jsstring \<times> 'v) list \<Rightarrow> (jsstring \<times> 'v) list" where
  "assignable ps = filter (\<lambda>p. fst p \<noteq> js ''__proto__'') ps"

definition set_header :: "Header \<Rightarrow> jsstring \<Rightarrow> message \<Rightarrow> message" where
  "set_header k v m = m\<lparr>headers := obj_set (header_name k) v (headers m)\<rparr>"

fun blob_of :: "jsval \<Rightarrow> blob" where
  "blob_of (JBlob b) = b"
| "blob_of v = emptyBlob"

fun arg0 :: "jsval list \<Rightarrow> jsval" where
  "arg0 [] = JUndefined"
| "arg0 (a # as) = a"

definition createMessageBase :: "('z) host_scheme \<Rightarrow> jsval list \<Rightarrow> message result" where
  "createMessageBase h args =
     (let m0 = \<lparr>headers = [], body = emptyBlob\<rparr>;
          m1 = (if isHeaders (arg0 args)
                then m0\<lparr>headers := obj_assign (headers m0) (assignable (headers_of (arg0 args)))\<rparr> else m0);
          args1 = (if isHeaders (arg0 args) then tl args else args)
      in if instanceof_Blob (arg0 args1) then Inr (m1\<lparr>body := blob_of (arg0 args1)\<rparr>)
         else if isContentType (arg0 args1) then
           (let contentType = arg0 args1;
                args2 = tl args1;
                m2 = set_header Header_Type (string_of (js_get contentType (js ''name''))) m1
            in if args2 \<noteq> [] then
                 andThen (call_marshal h (js_get (js_get contentType (js ''marshaler'')) (js ''marshal'')) (arg0 args2))
                   (\<lambda>b. Inr (set_header Header_Length (dec_string (blob_size b)) (m2\<lparr>body := b\<rparr>)))
               else Inr m2)
         else Inr m1)"

text \<open>
  \<^verbatim>\<open>sessionId\<close> is \<^verbatim>\<open>Math.floor(Math.random() * 1e9)\<close>, a number below 10^9. \<^verbatim>\<open>nextId\<close> is a double:
  incrementing it is exact up to 2^53 and then has no effect.
\<close>

record rpc_ids =
  sessionId :: nat
  nextId :: nat

definition js_inc :: "nat \<Rightarrow> nat" where
  "js_inc n = (if n < 2 ^ 53 then n + 1 else n)"

definition rpc_id :: "nat \<Rightarrow> nat \<Rightarrow> jsstring" where
  "rpc_id session n = dec_string session @ [46] @ dec_string n"

definition createRpcMessageBase :: "('z) host_scheme \<Rightarrow> rpc_ids \<Rightarrow> jsval list \<Rightarrow> message result \<times> rpc_ids" where
  "createRpcMessageBase h ids args =
     (case createMessageBase h args of
        Inl e \<Rightarrow> (Inl e, ids)
      | Inr m \<Rightarrow>
          (let n = js_inc (nextId ids)
           in (Inr (set_header Header_ID (rpc_id (sessionId ids) n) m), ids\<lparr>nextId := n\<rparr>)))"

definition createRpcRequestMessage ::
  "('z) host_scheme \<Rightarrow> rpc_ids \<Rightarrow> jsstring \<Rightarrow> jsval list \<Rightarrow> message result \<times> rpc_ids" where
  "createRpcRequestMessage h ids className args =
     (case createRpcMessageBase h ids args of
        (Inl e, ids') \<Rightarrow> (Inl e, ids')
      | (Inr m, ids') \<Rightarrow> (Inr (set_header Header_Class className m), ids'))"

section \<open>Facts on created messages\<close>

lemma ContentTypes_fields [simp]:
  "ct_name ContentTypes_json = js ''application/json''" "ct_marshaler ContentTypes_json = JsonMarshaler"
  "ct_name ContentTypes_binary = js ''application/octet-stream''" "ct_marshaler ContentTypes_binary = NullMarshaler"
  by (simp_all add: ContentTypes_json_def ContentTypes_binary_def makeContentType_def)

lemma header_of_set_header [simp]:
  "header_of (set_header k v m) k' = (if k' = k then Some v else header_of m k')"
  by (auto simp: header_of_def set_header_def obj_simps)

lemma set_header_frame [simp]:
  "body (set_header k v m) = body m"
  "obj_wf (headers m) \<Longrightarrow> obj_wf (headers (set_header k v m))"
  by (simp_all add: set_header_def obj_simps)

lemma createMessageBase_wf: "createMessageBase h args = Inr m \<Longrightarrow> obj_wf (headers m)"
proof -
  have wf: "obj_wf (obj_assign [] hs)" for hs :: headers
    by (rule obj_wf_assign) simp
  show "createMessageBase h args = Inr m \<Longrightarrow> obj_wf (headers m)"
    by (auto simp: createMessageBase_def Let_def result_simps wf split: if_splits)
qed

lemma js_get_JObject:
  "obj_wf ps \<Longrightarrow> js_get (JObject ps) k = (case obj_get ps k of Some x \<Rightarrow> x | None \<Rightarrow> JUndefined)"
  by (simp add: js_get_def obj_get_own_order split: option.splits)

lemma js_get_content_type:
  "js_get (content_type_val ct) (js ''name'') = JString (ct_name ct)"
  "js_get (content_type_val ct) (js ''marshaler'') = marshaler_val (ct_marshaler ct)"
proof -
  have ne: "js ''name'' \<noteq> js ''marshaler''" by code_simp
  then show "js_get (content_type_val ct) (js ''name'') = JString (ct_name ct)"
    "js_get (content_type_val ct) (js ''marshaler'') = marshaler_val (ct_marshaler ct)"
    by (simp_all add: content_type_val_def js_get_JObject obj_simps)
qed

lemma js_get_marshaler:
  "js_get (marshaler_val mid) (js ''marshal'') = JFunction (MarshalFn mid)"
  "js_get (marshaler_val mid) (js ''unmarshal'') = JFunction (UnmarshalFn mid)"
proof -
  have ne: "js ''marshal'' \<noteq> js ''unmarshal''" by code_simp
  then show "js_get (marshaler_val mid) (js ''marshal'') = JFunction (MarshalFn mid)"
    "js_get (marshaler_val mid) (js ''unmarshal'') = JFunction (UnmarshalFn mid)"
    by (simp_all add: marshaler_val_def js_get_JObject obj_simps)
qed

lemma isContentType_val: "isContentType (content_type_val ct)"
  by (simp add: isContentType_def isMarshaler_def js_get_content_type js_get_marshaler)
    (simp add: isObj_def content_type_val_def marshaler_val_def)

lemma not_isHeaders_content_type: "\<not> isHeaders (content_type_val ct)"
proof -
  have "js ''marshaler'' \<in> set (obj_keys (js_entries (content_type_val ct)))"
    by (force simp: content_type_val_def)
  moreover have "typeof (js_get (content_type_val ct) (js ''marshaler'')) \<noteq> ''string''"
    by (simp add: js_get_content_type marshaler_val_def)
  ultimately show ?thesis unfolding isHeaders_def list_all_iff by blast
qed

lemma content_type_val_not_blob: "\<not> instanceof_Blob (content_type_val ct)"
  by (simp add: content_type_val_def)

text \<open>What the function builds on each overload of the interface \<^verbatim>\<open>CreateMessageFunc\<close>.\<close>

abbreviation empty_message :: message where
  "empty_message \<equiv> \<lparr>headers = [], body = emptyBlob\<rparr>"

abbreviation headers_message :: "headers \<Rightarrow> message" where
  "headers_message hs \<equiv> \<lparr>headers = assignable (own_order hs), body = emptyBlob\<rparr>"

definition with_content :: "('z) host_scheme \<Rightarrow> content_type \<Rightarrow> jsval list \<Rightarrow> message \<Rightarrow> message result" where
  "with_content h ct content m =
     (case content of
        [] \<Rightarrow> Inr (set_header Header_Type (ct_name ct) m)
      | c # _ \<Rightarrow> andThen (call_marshal h (JFunction (MarshalFn (ct_marshaler ct))) c)
          (\<lambda>b. Inr (set_header Header_Length (dec_string (blob_size b))
                 (set_header Header_Type (ct_name ct) (m\<lparr>body := b\<rparr>)))))"

lemma headers_of_headers_val: "headers_of (headers_val hs) = own_order hs"
proof -
  have "map (\<lambda>(k, x). (k, string_of x)) (map (\<lambda>(k, v). (k, JString v)) qs) = qs" for qs
    by (induction qs) auto
  then show ?thesis by (simp add: headers_of_def headers_val_def own_order_map del: map_map)
qed

lemma createMessageBase_contentType:
  "createMessageBase h (content_type_val ct # content) = with_content h ct content empty_message"
  by (cases content)
    (simp_all add: createMessageBase_def with_content_def not_isHeaders_content_type isContentType_val
      content_type_val_not_blob js_get_content_type js_get_marshaler set_header_def)

lemma obj_wf_assignable: "obj_wf ps \<Longrightarrow> obj_wf (assignable ps)"
  by (simp add: assignable_def distinct_map_filter)

lemma createMessageBase_headers:
  assumes "obj_wf hs"
  shows "createMessageBase h (headers_val hs # content_type_val ct # content)
      = with_content h ct content (headers_message hs)"
    and "createMessageBase h [headers_val hs, JBlob b] = Inr (headers_message hs\<lparr>body := b\<rparr>)"
    and "createMessageBase h [headers_val hs] = Inr (headers_message hs)"
proof -
  have "obj_wf (assignable (own_order hs))" using assms by (intro obj_wf_assignable) simp
  then have "obj_assign [] (assignable (headers_of (headers_val hs))) = assignable (own_order hs)"
    by (simp only: headers_of_headers_val obj_assign_empty)
  note this [simp]
  show "createMessageBase h (headers_val hs # content_type_val ct # content)
      = with_content h ct content (headers_message hs)"
    "createMessageBase h [headers_val hs, JBlob b] = Inr (headers_message hs\<lparr>body := b\<rparr>)"
    "createMessageBase h [headers_val hs] = Inr (headers_message hs)"
    by (cases content;
      simp add: createMessageBase_def with_content_def isHeaders_headers_val [OF assms] isContentType_val
        content_type_val_not_blob js_get_content_type js_get_marshaler set_header_def)
      (simp_all add: createMessageBase_def isHeaders_headers_val [OF assms] isContentType_def isObj_def)
qed

text \<open>What \<^verbatim>\<open>createMessage\<close> builds on the overloads that take headers or a content type.\<close>

lemma createMessage_overloads:
  assumes "obj_wf hs"
  shows "createMessageBase h [] = Inr empty_message \<and>
    createMessageBase h (content_type_val ct # content) = with_content h ct content empty_message \<and>
    createMessageBase h [headers_val hs] = Inr (headers_message hs) \<and>
    createMessageBase h [headers_val hs, JBlob b] = Inr (headers_message hs\<lparr>body := b\<rparr>) \<and>
    createMessageBase h (headers_val hs # content_type_val ct # content)
      = with_content h ct content (headers_message hs)"
proof -
  have "createMessageBase h [] = Inr empty_message"
    by (simp add: createMessageBase_def isHeaders_def isContentType_def isObj_def)
  with assms show ?thesis
    by (simp add: createMessageBase_contentType createMessageBase_headers)
qed

text \<open>
  \<^verbatim>\<open>createMessage(blob)\<close> loses its body. A Blob has no own enumerable properties, so it passes
  for an empty headers object, is consumed as such, and the message keeps the empty body.
\<close>

lemma createMessage_blob_dropped:
  "createMessageBase h [JBlob b] = Inr empty_message"
  by (simp add: createMessageBase_def isHeaders_def isContentType_def isObj_def headers_of_def assignable_def
      obj_simps js_get_def)

section \<open>Request identifiers\<close>

text \<open>
  A supply of identifiers: the identifier a state issues, the state after issuing it, and a rank
  that grows by one per issue until the limit. The clients of the supply need that identifiers
  do not repeat below the limit.
\<close>

locale id_supply =
  fixes issue :: "'s \<Rightarrow> 'i"
    and advance :: "'s \<Rightarrow> 's"
    and rank :: "'s \<Rightarrow> nat"
    and limit :: nat
  assumes rank_advance: "rank s < limit \<Longrightarrow> rank (advance s) = Suc (rank s)"
    and issue_inj: "rank s < limit \<Longrightarrow> rank t < limit \<Longrightarrow> issue s = issue t \<Longrightarrow> rank s = rank t"
begin

lemma rank_iterate: "rank s + n \<le> limit \<Longrightarrow> rank ((advance ^^ n) s) = rank s + n"
proof (induction n)
  case (Suc n)
  then have "rank ((advance ^^ n) s) = rank s + n" by simp
  with Suc.prems rank_advance [of "(advance ^^ n) s"] show ?case by simp
qed simp

lemma issues_distinct:
  assumes "rank s + n \<le> limit"
  shows "distinct (map (\<lambda>i. issue ((advance ^^ i) s)) [0..<n])"
proof -
  have "i = j" if "i < n" "j < n" "issue ((advance ^^ i) s) = issue ((advance ^^ j) s)" for i j
  proof -
    have "rank ((advance ^^ i) s) = rank s + i" "rank ((advance ^^ j) s) = rank s + j"
      using that assms by (simp_all add: rank_iterate)
    with that assms issue_inj [of "(advance ^^ i) s" "(advance ^^ j) s"] show ?thesis by simp
  qed
  then show ?thesis by (auto simp: distinct_map inj_on_def)
qed

end

definition ids_issue :: "rpc_ids \<Rightarrow> jsstring" where
  "ids_issue ids = rpc_id (sessionId ids) (js_inc (nextId ids))"

definition ids_advance :: "rpc_ids \<Rightarrow> rpc_ids" where
  "ids_advance ids = ids\<lparr>nextId := js_inc (nextId ids)\<rparr>"

lemma dec_string_no_dot: "46 \<notin> set (dec_string n)"
  using dec_string_digits [of 46 n] by (auto simp: word_le_nat_alt)

lemma rpc_id_inj: "rpc_id s m = rpc_id t n \<longleftrightarrow> s = t \<and> m = n"
proof
  assume eq: "rpc_id s m = rpc_id t n"
  have "indexOf 46 (rpc_id s m) = Some (length (dec_string s))"
    and "indexOf 46 (rpc_id t n) = Some (length (dec_string t))"
    by (simp_all add: rpc_id_def indexOf_append dec_string_no_dot)
  with eq have "length (dec_string s) = length (dec_string t)" by simp
  with eq show "s = t \<and> m = n" by (simp add: rpc_id_def dec_string_inj)
qed simp

interpretation rpc_supply: id_supply ids_issue ids_advance nextId "2 ^ 53"
  by unfold_locales (auto simp: ids_issue_def ids_advance_def js_inc_def rpc_id_inj)

lemma createRpcMessageBase_ok:
  assumes "createMessageBase h args = Inr m"
  shows "createRpcMessageBase h ids args = (Inr (set_header Header_ID (ids_issue ids) m), ids_advance ids)"
  using assms by (simp add: createRpcMessageBase_def ids_issue_def ids_advance_def Let_def)

lemma createRpcRequestMessage_ok:
  assumes "createMessageBase h args = Inr m"
  shows "createRpcRequestMessage h ids className args =
    (Inr (set_header Header_Class className (set_header Header_ID (ids_issue ids) m)), ids_advance ids)"
  using createRpcMessageBase_ok [OF assms, of ids] by (simp add: createRpcRequestMessage_def)

lemma createRpcRequestMessage_error:
  assumes "createMessageBase h args = Inl e"
  shows "createRpcRequestMessage h ids className args = (Inl e, ids)"
  using assms by (simp add: createRpcRequestMessage_def createRpcMessageBase_def)

lemma createRpcRequestMessage_cases:
  obtains m where "createMessageBase h args = Inr m"
    "createRpcRequestMessage h ids className args =
      (Inr (set_header Header_Class className (set_header Header_ID (ids_issue ids) m)), ids_advance ids)"
  | e where "createMessageBase h args = Inl e" "createRpcRequestMessage h ids className args = (Inl e, ids)"
  by (cases "createMessageBase h args")
    (auto simp: createRpcRequestMessage_ok createRpcRequestMessage_error)

text \<open>
  C25: a created request passes the guard for RPC requests and carries the given class and the
  next identifier; the body and every other header are those of the underlying message.
\<close>

theorem createRpcRequestMessage_request:
  assumes "createRpcRequestMessage h ids className args = (Inr m, ids')"
  shows "isRpcRequestMessage (message_val m) \<and> messageClass u m = Some className \<and>
    messageID u m = Some (ids_issue ids) \<and> ids' = ids_advance ids \<and>
    (\<exists>m0. createMessageBase h args = Inr m0 \<and> body m = body m0 \<and>
       (\<forall>k. k \<noteq> Header_ID \<longrightarrow> k \<noteq> Header_Class \<longrightarrow> header_of m k = header_of m0 k))"
proof (cases rule: createRpcRequestMessage_cases [of h args ids className])
  case (1 m0)
  then have m: "m = set_header Header_Class className (set_header Header_ID (ids_issue ids) m0)"
    and "ids' = ids_advance ids" using assms by simp_all
  moreover have "obj_wf (headers m)"
    using 1(1) m by (simp add: createMessageBase_wf)
  ultimately show ?thesis
    using 1(1) by (simp add: guards_message_val)
next
  case (2 e)
  with assms show ?thesis by simp
qed

text \<open>The messages of a sequence of calls, in the order in which the calls get their identifiers.\<close>

fun createRequests ::
  "('z) host_scheme \<Rightarrow> rpc_ids \<Rightarrow> (jsstring \<times> jsval list) list \<Rightarrow> message list \<times> rpc_ids" where
  "createRequests h ids [] = ([], ids)"
| "createRequests h ids ((className, args) # calls) =
     (case createRpcRequestMessage h ids className args of
        (Inl e, ids') \<Rightarrow> createRequests h ids' calls
      | (Inr m, ids') \<Rightarrow> (let (ms, ids'') = createRequests h ids' calls in (m # ms, ids'')))"

lemma createRequests_ids:
  "map (\<lambda>m. header_of m Header_ID) (fst (createRequests h ids calls))
     = map (\<lambda>i. Some (ids_issue ((ids_advance ^^ i) ids))) [0..<length (fst (createRequests h ids calls))]"
proof (induction calls arbitrary: ids)
  case (Cons c calls)
  obtain className args where c: "c = (className, args)" by (cases c)
  show ?case
  proof (cases rule: createRpcRequestMessage_cases [of h args ids className])
    case (1 m0)
    have "map (\<lambda>i. Some (ids_issue ((ids_advance ^^ i) (ids_advance ids)))) [0..<n]
        = map (\<lambda>i. Some (ids_issue ((ids_advance ^^ i) ids))) [1..<Suc n]" for n
      by (simp add: map_Suc_upt [symmetric] funpow_swap1 del: upt_Suc)
    with 1 Cons.IH [of "ids_advance ids"] c show ?thesis
      by (simp add: split_beta upt_conv_Cons del: upt_Suc)
  next
    case (2 e)
    with Cons.IH c show ?thesis by simp
  qed
qed simp

lemma length_createRequests: "length (fst (createRequests h ids calls)) \<le> length calls"
  by (induction h ids calls rule: createRequests.induct)
    (auto split: prod.splits sum.splits intro: le_SucI)

text \<open>
  C24: the requests of one session have distinct identifiers as long as the counter stays below
  2^53, the last integer a double counts exactly.
\<close>

theorem createRequests_distinct_ids:
  assumes "nextId ids + length calls \<le> 2 ^ 53"
  shows "distinct (map (\<lambda>m. messageID u m) (fst (createRequests h ids calls)))"
proof -
  let ?n = "length (fst (createRequests h ids calls))"
  have "nextId ids + ?n \<le> 2 ^ 53"
    using assms length_createRequests [of h ids calls] by linarith
  then have "distinct (map Some (map (\<lambda>i. ids_issue ((ids_advance ^^ i) ids)) [0..<?n]))"
    by (intro distinct_map [THEN iffD2] conjI rpc_supply.issues_distinct) simp_all
  then show ?thesis by (simp add: createRequests_ids o_def)
qed

text \<open>At 2^53 the counter no longer moves and every further request gets the same identifier.\<close>

lemma rpc_id_repeats:
  assumes "createMessageBase h args = Inr m" and "nextId ids = 2 ^ 53"
  shows "createRpcMessageBase h ids args = (Inr (set_header Header_ID (rpc_id (sessionId ids) (2 ^ 53)) m), ids)"
  using assms by (simp add: createRpcMessageBase_def js_inc_def)

end
