(* ===== verification/Wire.thy ===== *)
theory Wire
  imports Content
begin

text \<open>
  The wire format: createBlobFromMessage.ts writes a message as a Blob, parseMessageFromBlob.ts
  reads one back. The reader finds the end of the headers in chunks of 64 bytes; \<open>header_scan\<close> is
  the byte-at-a-time reference it is proved equal to.
\<close>

section \<open>Writing\<close>

definition header_part :: "jsstring \<times> jsstring \<Rightarrow> jsstring" where
  "header_part = (\<lambda>(k, v). k @ js '': '' @ v @ [LF])"

definition createBlobFromMessage :: "message \<Rightarrow> blob" where
  "createBlobFromMessage m =
     \<lparr>blob_bytes = concat (map (utf8_encode \<circ> header_part) (own_order (headers m))) @
        utf8_encode [LF] @ blob_bytes (body m) @ utf8_encode [LF],
      blob_type = ct_name ContentTypes_binary\<rparr>"

section \<open>Reading\<close>

definition endsWithDoubleLineBreak :: "blob \<Rightarrow> bool" where
  "endsWithDoubleLineBreak b =
     (let tail = filter (\<lambda>x. x \<noteq> CR) (blob_bytes (blob_slice_from b (- 4)));
          end2 = list_slice (- 2) (int (length tail)) tail
      in (0 < length end2 \<and> end2 ! 0 = LF) \<and> (1 < length end2 \<and> end2 ! 1 = LF))"

definition indexOf_from :: "'a \<Rightarrow> 'a list \<Rightarrow> nat \<Rightarrow> nat option" where
  "indexOf_from x xs start = map_option (\<lambda>i. start + i) (indexOf x (drop start xs))"

lemma indexOf_less: "indexOf x xs = Some i \<Longrightarrow> i < length xs \<and> xs ! i = x \<and> x \<notin> set (take i xs)"
  by (induction xs arbitrary: i) (auto split: if_splits)

lemma indexOf_from_Some:
  assumes "indexOf_from x xs start = Some i"
  shows "start \<le> i" "i < length xs" "xs ! i = x" "\<And>j. start \<le> j \<Longrightarrow> j < i \<Longrightarrow> xs ! j \<noteq> x"
proof -
  obtain k where k: "indexOf x (drop start xs) = Some k" "i = start + k"
    using assms by (auto simp: indexOf_from_def)
  from indexOf_less [OF k(1)] k(2) show "start \<le> i" "i < length xs" "xs ! i = x" by auto
  fix j assume "start \<le> j" "j < i"
  then have "xs ! j = take k (drop start xs) ! (j - start)" "j - start < length (take k (drop start xs))"
    using k indexOf_less [OF k(1)] by auto
  then have "xs ! j \<in> set (take k (drop start xs))" by (metis nth_mem)
  with indexOf_less [OF k(1)] show "xs ! j \<noteq> x" by auto
qed

text \<open>The inner loop over the line feeds of a chunk, and the outer loop over the chunks.\<close>

function scan_chunk :: "blob \<Rightarrow> nat \<Rightarrow> byte list \<Rightarrow> nat \<Rightarrow> blob \<Rightarrow> bool \<Rightarrow> blob \<times> bool" where
  "scan_chunk b offset bytes cursor headerView stop =
     (if stop then (headerView, stop)
      else case indexOf_from LF bytes cursor of
             None \<Rightarrow> (headerView, stop)
           | Some c \<Rightarrow>
               (let view = blob_slice b 0 (int (offset + c + 1))
                in scan_chunk b offset bytes (c + 1) view (endsWithDoubleLineBreak view)))"
  by pat_completeness auto
termination
  by (relation "measure (\<lambda>(b, offset, bytes, cursor, view, stop). length bytes - cursor)")
    (auto, frule indexOf_from_Some(1), drule indexOf_from_Some(2), simp)

function scan_blob :: "blob \<Rightarrow> nat \<Rightarrow> blob \<Rightarrow> bool \<Rightarrow> blob" where
  "scan_blob b offset headerView stop =
     (if offset < blob_size b \<and> \<not> stop then
        (let bytes = blob_bytes (blob_slice b (int offset) (int (offset + 64)));
             (view, stop') = scan_chunk b offset bytes 0 headerView stop
         in scan_blob b (offset + 64) view stop')
      else headerView)"
  by pat_completeness auto
termination
  by (relation "measure (\<lambda>(b, offset, view, stop). blob_size b - offset)") auto

declare scan_chunk.simps [simp del] scan_blob.simps [simp del]

definition extractHeadersFromBlob :: "blob \<Rightarrow> blob" where
  "extractHeadersFromBlob b = scan_blob b 0 (blob_slice b 0 0) False"

definition parse_header_line :: "('z) unicode_scheme \<Rightarrow> jsstring \<Rightarrow> (jsstring \<times> jsstring) result" where
  "parse_header_line u line =
     (case indexOf 58 line of
        None \<Rightarrow> Inl (ExpectedColon line)
      | Some splitAt \<Rightarrow>
          Inr (canonicalizeKey u (take splitAt line), trimStart (drop (splitAt + 1) line)))"

text \<open>The integer a number argument of \<^verbatim>\<open>slice\<close> is converted to; \<^verbatim>\<open>NaN\<close> becomes 0.\<close>

fun slice_arg :: "int option \<Rightarrow> int" where
  "slice_arg None = 0"
| "slice_arg (Some i) = i"

definition parseMessageFromBlob :: "('z) unicode_scheme \<Rightarrow> blob \<Rightarrow> message result" where
  "parseMessageFromBlob u b =
     (let headerBlob = extractHeadersFromBlob b;
          headerString = blob_text headerBlob
      in andThen (mapToObj (split_lines (trim headerString)) (parse_header_line u)) (\<lambda>hs.
           let body0 = blob_slice_from b (int (blob_size headerBlob))
           in case obj_get hs (header_name Header_Length) of
                None \<Rightarrow> Inr \<lparr>headers = hs, body = body0\<rparr>
              | Some l \<Rightarrow>
                  (let len = parseInt l;
                       newLine0 = blob_text (blob_slice body0 (slice_arg len)
                         (slice_arg (map_option (\<lambda>n. n + 2) len)));
                       newLine = (if newLine0 \<noteq> [] \<and> hd newLine0 = CR then tl newLine0 else newLine0)
                   in if newLine \<noteq> [] \<and> hd newLine = LF
                      then Inr \<lparr>headers = hs, body = blob_slice body0 0 (slice_arg len)\<rparr>
                      else Inl (ExpectedNewline len newLine))))"

section \<open>The chunked scan equals a byte-at-a-time scan\<close>

definition double_break :: "byte list \<Rightarrow> bool" where
  "double_break bs = endsWithDoubleLineBreak (mk_blob bs)"

text \<open>
  After \<open>k\<close> bytes: the length of the header view and whether a double line break ended it. The
  view grows to each line feed until it ends in a double line break.
\<close>

fun header_scan :: "byte list \<Rightarrow> nat \<Rightarrow> nat \<times> bool" where
  "header_scan bs 0 = (0, False)"
| "header_scan bs (Suc k) =
     (let (n, stop) = header_scan bs k
      in if stop then (n, stop)
         else if bs ! k = LF then (Suc k, double_break (take (Suc k) bs)) else (n, stop))"

definition header_length :: "byte list \<Rightarrow> nat" where
  "header_length bs = fst (header_scan bs (length bs))"

lemma header_scan_mono:
  "snd (header_scan bs k) \<Longrightarrow> k \<le> j \<Longrightarrow> header_scan bs j = header_scan bs k"
proof (induction j)
  case (Suc j)
  show ?case
  proof (cases "k = Suc j")
    case False
    with Suc have "header_scan bs j = header_scan bs k" by simp
    with Suc.prems show ?thesis by (simp add: split_beta prod_eq_iff)
  qed simp
qed simp

lemma header_scan_skip:
  "k \<le> j \<Longrightarrow> (\<And>i. k \<le> i \<Longrightarrow> i < j \<Longrightarrow> bs ! i \<noteq> LF) \<Longrightarrow> header_scan bs j = header_scan bs k"
  by (induction j) (auto simp: le_Suc_eq split_beta prod_eq_iff)

lemma blob_slice_prefix: "blob_slice b 0 (int n) = mk_blob (take n (blob_bytes b))"
  by (simp add: blob_slice_def list_slice_prefix)

lemma no_lf_from: "x \<notin> set (drop a xs) \<Longrightarrow> a \<le> i \<Longrightarrow> i < length xs \<Longrightarrow> xs ! i \<noteq> x"
  by (auto simp: in_set_conv_nth) (metis add_diff_inverse_nat diff_less_mono leD less_or_eq_imp_le)

lemma scan_chunk_correct:
  assumes "bytes = take 64 (drop offset (blob_bytes b))" and "cursor \<le> length bytes"
    and "header_scan (blob_bytes b) (offset + cursor) = (n, stop)"
    and "headerView = mk_blob (take n (blob_bytes b))"
  shows "\<exists>n' stop'. header_scan (blob_bytes b) (offset + length bytes) = (n', stop') \<and>
    scan_chunk b offset bytes cursor headerView stop = (mk_blob (take n' (blob_bytes b)), stop')"
  using assms
proof (induction b offset bytes cursor headerView stop arbitrary: n rule: scan_chunk.induct)
  case (1 b offset bytes cursor headerView stop)
  let ?bs = "blob_bytes b"
  have nth: "?bs ! (offset + i) = bytes ! i" if "i < length bytes" for i
  proof -
    have "offset \<le> length ?bs" using that 1(2) by simp linarith
    with that 1(2) show ?thesis by simp
  qed
  show ?case
  proof (cases "stop \<or> indexOf_from LF bytes cursor = None")
    case True
    have "header_scan ?bs (offset + length bytes) = (n, stop)"
    proof (cases stop)
      case True
      with 1 show ?thesis by (simp add: header_scan_mono [of _ "offset + cursor"])
    next
      case False
      with True have "LF \<notin> set (drop cursor bytes)"
        by (auto simp: indexOf_from_def indexOf_None_iff)
      then have "?bs ! i \<noteq> LF" if "offset + cursor \<le> i" "i < offset + length bytes" for i
        using no_lf_from [of LF cursor bytes "i - offset"] that nth [of "i - offset"] 1(3) by simp
      then have "header_scan ?bs (offset + length bytes) = header_scan ?bs (offset + cursor)"
        using 1(3) by (intro header_scan_skip) auto
      with 1(4) show ?thesis by simp
    qed
    moreover have "scan_chunk b offset bytes cursor headerView stop = (headerView, stop)"
      using True by (subst scan_chunk.simps) auto
    ultimately show ?thesis using 1(5) by simp
  next
    case False
    then obtain c where c: "indexOf_from LF bytes cursor = Some c" and ns: "\<not> stop" by auto
    let ?view = "mk_blob (take (offset + c + 1) ?bs)"
    have "header_scan ?bs (offset + c) = (n, stop)"
      using 1(4) indexOf_from_Some(1) [OF c]
    proof (subst header_scan_skip [of "offset + cursor"])
      fix i assume "offset + cursor \<le> i" "i < offset + c"
      then have "cursor \<le> i - offset" "i - offset < c" "offset + (i - offset) = i" by auto
      then show "?bs ! i \<noteq> LF"
        using indexOf_from_Some(2) [OF c] indexOf_from_Some(4) [OF c, of "i - offset"] nth [of "i - offset"]
        by simp
    qed simp_all
    then have "header_scan ?bs (offset + (c + 1)) = (offset + c + 1, endsWithDoubleLineBreak ?view)"
      using indexOf_from_Some(2,3) [OF c] ns nth [of c] by (simp add: double_break_def)
    moreover have "scan_chunk b offset bytes cursor headerView stop
        = scan_chunk b offset bytes (c + 1) ?view (endsWithDoubleLineBreak ?view)"
      using c ns by (subst scan_chunk.simps) (simp add: Let_def blob_slice_prefix [symmetric])
    moreover have "blob_slice b 0 (int (offset + c + 1)) = ?view"
      by (rule blob_slice_prefix)
    ultimately show ?thesis
      using 1(1) [OF ns c refl] 1(2) indexOf_from_Some(2) [OF c] by simp
  qed
qed

lemma scan_blob_correct:
  assumes "header_scan (blob_bytes b) (min offset (blob_size b)) = (n, stop)"
    and "headerView = mk_blob (take n (blob_bytes b))"
  shows "scan_blob b offset headerView stop = mk_blob (take (header_length (blob_bytes b)) (blob_bytes b))"
  using assms
proof (induction b offset headerView stop arbitrary: n rule: scan_blob.induct)
  case (1 b offset headerView stop)
  let ?bs = "blob_bytes b"
  show ?case
  proof (cases "offset < blob_size b \<and> \<not> stop")
    case True
    let ?bytes = "take 64 (drop offset ?bs)"
    have bytes: "blob_bytes (blob_slice b (int offset) (int (offset + 64))) = ?bytes"
      by (simp only: blob_slice_def list_slice_nat blob_bytes_mk) simp
    have "header_scan ?bs (offset + 0) = (n, stop)" using 1(2) True by simp
    from scan_chunk_correct [OF refl _ this 1(3)] obtain n' stop' where
      res: "header_scan ?bs (offset + length ?bytes) = (n', stop')"
        "scan_chunk b offset ?bytes 0 headerView stop = (mk_blob (take n' ?bs), stop')"
      by auto
    have "offset + length ?bytes = min (offset + 64) (blob_size b)"
      using True by (auto simp: blob_size_def)
    with res have "scan_blob b (offset + 64) (mk_blob (take n' ?bs)) stop'
        = mk_blob (take (header_length ?bs) ?bs)"
      using 1(1) [OF True bytes [symmetric] res(2) [symmetric] refl] by simp
    moreover have "scan_blob b offset headerView stop = scan_blob b (offset + 64) (mk_blob (take n' ?bs)) stop'"
      using True res(2) by (subst scan_blob.simps) (simp only: Let_def bytes, simp)
    ultimately show ?thesis by simp
  next
    case False
    then have "header_scan ?bs (length ?bs) = (n, stop)"
    proof (cases stop)
      case True
      with 1(2) show ?thesis
        by (simp add: header_scan_mono [of _ "min offset (blob_size b)"] blob_size_def)
    next
      case False
      with \<open>\<not> (offset < blob_size b \<and> \<not> stop)\<close> 1(2) show ?thesis by (simp add: blob_size_def)
    qed
    with False 1(3) show ?thesis by (subst scan_blob.simps) (auto simp: header_length_def)
  qed
qed

lemma extract_prefix:
  "extractHeadersFromBlob b = mk_blob (take (header_length (blob_bytes b)) (blob_bytes b))"
  unfolding extractHeadersFromBlob_def
  by (rule scan_blob_correct [where n = 0]) (use blob_slice_prefix [of b 0] in simp_all)

text \<open>
  C15: the chunked search for the end of the headers returns the same prefix as reading the Blob
  byte by byte, whatever the chunk boundaries cut.
\<close>

theorem extractHeaders_eq_scan:
  "extractHeadersFromBlob b = mk_blob (take (header_length (blob_bytes b)) (blob_bytes b))"
  by (rule extract_prefix)

end
