(* ===== verification/Wire_Roundtrip.thy ===== *)
theory Wire_Roundtrip
  imports Wire
begin

text \<open>
  Reading back what was written, by this program or by a peer. A peer may end its lines with a
  carriage return and a line feed and spell header names in any case (\<open>peer_bytes\<close>).
  \<open>wire_message\<close> says which messages the format can carry unchanged: at least one header,
  canonical ASCII names without a colon, trimmed values without line feeds.
\<close>

section \<open>Where the header scan stops\<close>

lemma double_break_eq:
  "double_break bs \<longleftrightarrow>
     (let t = filter (\<lambda>x. x \<noteq> CR) (drop (length bs - 4) bs);
          e = drop (length t - 2) t
      in 2 \<le> length e \<and> e ! 0 = LF \<and> e ! 1 = LF)"
proof -
  have "list_slice (- 2) (int (length t)) t = drop (length t - 2) t" for t :: "byte list"
    using list_slice_suffix [of 2 t] by simp
  moreover have "list_slice (- 4) (int (length bs)) bs = drop (length bs - 4) bs"
    using list_slice_suffix [of 4 bs] by simp
  ultimately show ?thesis
    by (auto simp: double_break_def endsWithDoubleLineBreak_def blob_slice_from_def blob_slice_def
        blob_size_def Let_def)
qed

lemma drop_four_snoc2: "\<exists>p. drop (length (pre @ [x, y]) - 4) (pre @ [x, y]) = p @ [x, y]"
  by (rule exI [of _ "drop (length (pre @ [x, y]) - 4) pre"]) simp

lemma drop_two_snoc2: "drop (length (p @ [x, y]) - 2) (p @ [x, y]) = [x, y]"
  by simp

lemma drop_four_snoc3: "\<exists>p. drop (length (pre @ [x, y, z]) - 4) (pre @ [x, y, z]) = p @ [x, y, z]"
  by (rule exI [of _ "drop (length (pre @ [x, y, z]) - 4) pre"]) simp

text \<open>Only the last two bytes that are no carriage returns count, and they are among the last four.\<close>

lemma double_break_tail:
  assumes "drop (length bs - 4) bs = p @ t" and "filter (\<lambda>x. x \<noteq> CR) t = [x, y]"
  shows "double_break bs \<longleftrightarrow> x = LF \<and> y = LF"
proof -
  have "filter (\<lambda>x. x \<noteq> CR) (p @ t) = filter (\<lambda>x. x \<noteq> CR) p @ [x, y]" using assms(2) by simp
  then show ?thesis unfolding double_break_eq Let_def assms(1) by (simp add: drop_two_snoc2)
qed

lemma double_break_LF: "double_break (pre @ [LF, LF])" "double_break (pre @ [LF, CR, LF])"
  "double_break (pre @ [CR, LF, CR, LF])"
proof -
  show "double_break (pre @ [LF, LF])"
    using drop_four_snoc2 [of pre LF LF] double_break_tail [where t = "[LF, LF]"] by force
  show "double_break (pre @ [LF, CR, LF])"
    using drop_four_snoc3 [of pre LF CR LF] double_break_tail [where t = "[LF, CR, LF]"] by force
  show "double_break (pre @ [CR, LF, CR, LF])"
    using double_break_tail [where t = "[CR, LF, CR, LF]" and p = "[]"] by simp
qed

lemma not_double_break:
  assumes "x \<noteq> LF" "x \<noteq> CR"
  shows "\<not> double_break (pre @ [x, LF])" "\<not> double_break (pre @ [x, CR, LF])"
proof -
  show "\<not> double_break (pre @ [x, LF])"
    using drop_four_snoc2 [of pre x LF] double_break_tail [where t = "[x, LF]"] assms by force
  show "\<not> double_break (pre @ [x, CR, LF])"
    using drop_four_snoc3 [of pre x CR LF] double_break_tail [where t = "[x, CR, LF]"] assms by force
qed

lemma not_double_break_single: "\<not> double_break [x]"
  by (auto simp: double_break_eq Let_def)

text \<open>A line break as \<^verbatim>\<open>\n\<close> or as \<^verbatim>\<open>\r\n\<close>.\<close>

definition eol :: "bool \<Rightarrow> 'a::len word list" where
  "eol cr = (if cr then [CR, LF] else [LF])"

lemma double_break_eol: "double_break (pre @ eol cr @ eol cr')"
  using double_break_LF [of pre] double_break_LF(1) [of "pre @ [CR]"] by (simp add: eol_def)

text \<open>Bytes whose line breaks all follow a byte that is neither a line feed nor a carriage return.\<close>

definition solid_at :: "byte list \<Rightarrow> nat \<Rightarrow> bool" where
  "solid_at bs i = (\<exists>pre x cr. take (Suc i) bs = pre @ x # eol cr \<and> x \<noteq> LF \<and> x \<noteq> CR)"

lemma not_double_break_eol: "x \<noteq> LF \<Longrightarrow> x \<noteq> CR \<Longrightarrow> \<not> double_break (pre @ x # eol cr)"
  using not_double_break [of x pre] by (simp add: eol_def)

definition solid_lines :: "byte list \<Rightarrow> bool" where
  "solid_lines bs = (\<forall>i < length bs. bs ! i = LF \<longrightarrow> solid_at bs i)"

lemma solid_at_append: "solid_at bs i \<Longrightarrow> solid_at (as @ bs) (length as + i)"
proof -
  assume "solid_at bs i"
  then obtain pre x cr where "take (Suc i) bs = pre @ x # eol cr" "x \<noteq> LF" "x \<noteq> CR"
    by (auto simp: solid_at_def)
  then have "take (Suc (length as + i)) (as @ bs) = (as @ pre) @ x # eol cr" by simp
  with \<open>x \<noteq> LF\<close> \<open>x \<noteq> CR\<close> show ?thesis unfolding solid_at_def by blast
qed

lemma solid_lines_append:
  assumes "solid_lines as" "solid_lines bs"
  shows "solid_lines (as @ bs)"
  unfolding solid_lines_def
proof (intro allI impI)
  fix i assume i: "i < length (as @ bs)" "(as @ bs) ! i = LF"
  show "solid_at (as @ bs) i"
  proof (cases "i < length as")
    case True
    with i assms(1) show ?thesis by (simp add: solid_lines_def solid_at_def nth_append)
  next
    case False
    with i assms(2) have "solid_at bs (i - length as)" by (simp add: solid_lines_def nth_append)
    with False show ?thesis using solid_at_append [of bs "i - length as" as] by simp
  qed
qed

lemma solid_lines_concat: "(\<And>bs. bs \<in> set bss \<Longrightarrow> solid_lines bs) \<Longrightarrow> solid_lines (concat bss)"
  by (induction bss) (simp_all add: solid_lines_append, simp add: solid_lines_def)

lemma solid_line:
  assumes "LF \<notin> set l" "l \<noteq> []" "last l \<noteq> CR"
  shows "solid_lines (l @ eol cr)"
  unfolding solid_lines_def
proof (intro allI impI)
  fix i assume i: "i < length (l @ eol cr)" "(l @ eol cr) ! i = LF"
  have "\<not> i < length l" using i(2) assms(1) by (metis nth_append nth_mem)
  with i have "Suc i = length (l @ eol cr)"
    by (auto simp: eol_def nth_append nth_Cons' split: if_splits)
  then have "take (Suc i) (l @ eol cr) = butlast l @ last l # eol cr" using assms(2) by simp
  moreover have "last l \<noteq> LF" using assms by (metis last_in_set)
  ultimately show "solid_at (l @ eol cr) i"
    using assms(3) unfolding solid_at_def by blast
qed

lemma header_scan_solid:
  assumes "solid_lines bs"
  shows "k \<le> length bs \<Longrightarrow> \<not> snd (header_scan (bs @ cs) k)"
proof (induction k)
  case (Suc k)
  have "\<not> double_break (take (Suc k) (bs @ cs))" if "(bs @ cs) ! k = LF"
  proof -
    have "solid_at bs k" using assms Suc.prems that by (simp add: solid_lines_def nth_append)
    then obtain pre x cr where "take (Suc k) bs = pre @ x # eol cr" "x \<noteq> LF" "x \<noteq> CR"
      by (auto simp: solid_at_def)
    moreover have "take (Suc k) (bs @ cs) = take (Suc k) bs" using Suc.prems by simp
    ultimately show ?thesis using not_double_break_eol [of x pre cr] by metis
  qed
  with Suc show ?case by (auto simp: split_beta)
qed simp

lemma header_scan_eol:
  assumes "\<not> snd (header_scan (as @ eol cr @ rest) (length as))" and "double_break (as @ eol cr)"
  shows "header_length (as @ eol cr @ rest) = length (as @ eol cr)"
proof -
  let ?bs = "as @ eol cr @ rest" and ?n = "length (as @ eol cr)"
  have "header_scan ?bs ?n = (?n, True)"
  proof (cases cr)
    case True
    then have "?bs ! length as = CR" "?bs ! Suc (length as) = LF" "?n = Suc (Suc (length as))"
      "take ?n ?bs = as @ eol cr"
      by (simp_all add: eol_def nth_append)
    with assms show ?thesis by (simp add: split_beta)
  next
    case False
    then have "?bs ! length as = LF" "?n = Suc (length as)" "take ?n ?bs = as @ eol cr"
      by (simp_all add: eol_def)
    with assms show ?thesis by (simp add: split_beta)
  qed
  then have "header_scan ?bs (length ?bs) = (?n, True)"
    using header_scan_mono [of ?bs ?n "length ?bs"] by simp
  then show ?thesis by (simp add: header_length_def)
qed

lemma header_length_solid:
  assumes "solid_lines (pre @ eol cr)"
  shows "header_length ((pre @ eol cr) @ eol cr' @ rest) = length ((pre @ eol cr) @ eol cr')"
  using header_scan_eol [of "pre @ eol cr" cr' rest] header_scan_solid [OF assms] double_break_eol [of pre cr cr']
  by (metis append.assoc order_refl)

section \<open>Messages the format can carry\<close>

definition wire_header :: "('z) unicode_scheme \<Rightarrow> jsstring \<times> jsstring \<Rightarrow> bool" where
  "wire_header u p = (is_ascii (fst p) \<and> canonicalizeKey u (fst p) = fst p \<and> 58 \<notin> set (fst p) \<and>
     trimmed (snd p) \<and> LF \<notin> set (snd p) \<and> wf_utf16 (snd p))"

definition wire_message :: "('z) unicode_scheme \<Rightarrow> message \<Rightarrow> bool" where
  "wire_message u m = (obj_wf (headers m) \<and> headers m \<noteq> [] \<and> list_all (wire_header u) (headers m))"

definition header_line :: "jsstring \<times> jsstring \<Rightarrow> jsstring" where
  "header_line p = fst p @ 58 # 32 # snd p"

text \<open>The last line as \<^verbatim>\<open>trim\<close> leaves it: an empty value loses the space after the colon.\<close>

definition last_line :: "jsstring \<times> jsstring \<Rightarrow> jsstring" where
  "last_line p = fst p @ 58 # (if snd p = [] then [] else 32 # snd p)"

text \<open>
  What a peer may write: names in any spelling, each line with its own kind of line break, a
  blank line, and then the body.
\<close>

definition line_header :: "jsstring \<times> jsstring \<Rightarrow> bool" where
  "line_header p = (is_ascii (fst p) \<and> list_all (\<lambda>c. \<not> js_space c) (fst p) \<and> 58 \<notin> set (fst p) \<and>
     trimmed (snd p) \<and> LF \<notin> set (snd p) \<and> wf_utf16 (snd p))"

definition peer_part :: "(jsstring \<times> jsstring) \<times> bool \<Rightarrow> jsstring" where
  "peer_part l = header_line (fst l) @ eol (snd l)"

definition peer_headers :: "((jsstring \<times> jsstring) \<times> bool) list \<Rightarrow> byte list" where
  "peer_headers ls = concat (map (utf8_encode \<circ> peer_part) ls)"

text \<open>The headers as the reader spells them; of two lines for the same name the later one counts.\<close>

definition canonical_headers :: "('z) unicode_scheme \<Rightarrow> ((jsstring \<times> jsstring) \<times> bool) list \<Rightarrow> headers" where
  "canonical_headers u ls = obj_assign [] (map (\<lambda>((k, v), cr). (canonicalizeKey u k, v)) ls)"

abbreviation peer_lines :: "((jsstring \<times> jsstring) \<times> bool) list \<Rightarrow> bool" where
  "peer_lines ls \<equiv> ls \<noteq> [] \<and> list_all (\<lambda>l. line_header (fst l)) ls"

lemma colon_space: "js '': '' = [58, 32]"
  by code_simp

lemma header_part_line: "header_part p = peer_part (p, False)"
  by (cases p) (simp add: header_part_def peer_part_def header_line_def colon_space eol_def)

lemma LF_space: "js_space LF" "js_space 32" "js_space CR" "\<not> js_space 58"
  by (simp_all add: js_space_def)

lemma trimmed_last: "trimmed v \<Longrightarrow> v \<noteq> [] \<Longrightarrow> \<not> js_space (last v) \<and> last v \<noteq> CR \<and> last v \<noteq> LF"
  using LF_space by (auto simp: trimmed_def)

lemma wire_line: "wire_header u p \<Longrightarrow> line_header p"
  using canonical_no_space [of "fst p" _ u] by (auto simp: wire_header_def line_header_def list_all_iff)

lemma line_header_key: "line_header p \<Longrightarrow> c \<in> set (fst p) \<Longrightarrow> \<not> js_space c \<and> c \<noteq> LF \<and> c \<noteq> CR"
  using LF_space by (auto simp: line_header_def list_all_iff)

lemma header_line_facts:
  assumes "line_header p"
  shows "wf_utf16 (header_line p)" "LF \<notin> set (header_line p)" "header_line p \<noteq> []"
    "last (header_line p) \<noteq> CR"
proof -
  have "wf_utf16 (fst p)" "wf_utf16 [58, 32]" "wf_utf16 (snd p)"
    using assms by (auto simp: line_header_def is_high_def is_low_def intro: wf_utf16_ascii)
  then have "wf_utf16 (fst p @ [58, 32] @ snd p)" by (intro wf_utf16_append)
  then show "wf_utf16 (header_line p)" by (simp add: header_line_def)
  show "LF \<notin> set (header_line p)"
    using assms line_header_key [OF assms] by (auto simp: header_line_def line_header_def)
  show "last (header_line p) \<noteq> CR"
    using assms trimmed_last [of "snd p"] by (auto simp: header_line_def line_header_def)
qed (simp add: header_line_def)

lemma eol_facts: "utf8_encode (eol cr) = eol cr" "wf_utf16 (eol cr)" "utf8_encode [LF] = [LF]"
  by (simp_all add: eol_def utf8_encode_ascii is_ascii_def wf_utf16_ascii)

lemma encoded_part:
  assumes "line_header (fst l)"
  shows "utf8_encode (peer_part l) = utf8_encode (header_line (fst l)) @ eol (snd l)"
    and "solid_lines (utf8_encode (peer_part l))"
proof -
  note f = header_line_facts [OF assms]
  show eq: "utf8_encode (peer_part l) = utf8_encode (header_line (fst l)) @ eol (snd l)"
    using f(1) by (simp add: peer_part_def utf8_encode_append eol_facts)
  have "(LF :: byte) \<notin> set (utf8_encode (header_line (fst l)))"
    using utf8_encode_small [of LF "header_line (fst l)"] f(2) by auto
  moreover have "utf8_encode (header_line (fst l)) \<noteq> [] \<and> last (utf8_encode (header_line (fst l))) \<noteq> CR"
    using last_utf8_encode [OF f(3)] f(4) by auto
  ultimately show "solid_lines (utf8_encode (peer_part l))"
    unfolding eq by (intro solid_line) simp_all
qed

lemma peer_headers_snoc: "peer_lines ls \<Longrightarrow> \<exists>pre cr. peer_headers ls = pre @ eol cr"
  by (cases ls rule: rev_cases) (auto simp: peer_headers_def encoded_part(1), metis append.assoc)

lemma extract_peer_headers:
  assumes "peer_lines ls" and "blob_bytes b = peer_headers ls @ eol cr @ rest"
  shows "extractHeadersFromBlob b = mk_blob (peer_headers ls @ eol cr)"
proof -
  obtain pre cr0 where pre: "peer_headers ls = pre @ eol cr0" using peer_headers_snoc [OF assms(1)] by blast
  have "solid_lines (peer_headers ls)"
    using assms(1) unfolding peer_headers_def
    by (intro solid_lines_concat) (auto simp: list_all_iff encoded_part(2))
  then have "header_length (blob_bytes b) = length (peer_headers ls @ eol cr)"
    using header_length_solid [of pre cr0 cr rest] assms(2) pre by simp
  then show ?thesis by (simp add: extract_prefix assms(2))
qed

section \<open>Reading the header text back\<close>

lemma header_text:
  assumes "peer_lines ls"
  shows "utf8_decode (peer_headers ls @ eol cr) = concat (map peer_part ls) @ eol cr"
proof -
  let ?s = "concat (map peer_part ls @ [eol cr])"
  have wf: "wf_utf16 s" if "s \<in> set (map peer_part ls @ [eol cr])" for s
    using that assms
    by (auto simp: list_all_iff peer_part_def eol_facts intro!: wf_utf16_append header_line_facts(1))
  have "utf8_encode ?s = peer_headers ls @ eol cr"
    using utf8_encode_concat [of "map peer_part ls @ [eol cr]", OF wf] by (simp add: eol_facts peer_headers_def)
  moreover have "hd ?s \<noteq> 0xFEFF"
  proof -
    obtain l ls' where ls: "ls = l # ls'" using assms by (cases ls) auto
    with assms have "is_ascii (fst (fst l))" by (simp add: line_header_def)
    with ls show ?thesis
      by (cases "fst (fst l)") (auto simp: peer_part_def header_line_def)
  qed
  ultimately show ?thesis
    using utf8_decode_encode [of ?s] wf_utf16_concat [of "map peer_part ls @ [eol cr]", OF wf] by simp
qed

lemma trimEnd_append: "trimEnd t \<noteq> [] \<Longrightarrow> trimEnd (s @ t) = s @ trimEnd t"
  by (auto simp: trimEnd_def dropWhile_append)

lemma trimEnd_line: "line_header p \<Longrightarrow> trimEnd (header_line p @ eol cr @ eol cr') = last_line p"
  using LF_space trimmed_last [of "snd p"]
  by (cases "snd p" rule: rev_cases) (auto simp: trimEnd_def header_line_def last_line_def line_header_def eol_def)

lemma trim_header_text:
  assumes "list_all (\<lambda>l. line_header (fst l)) (init @ [l])"
  shows "trim (concat (map peer_part (init @ [l])) @ eol cr) = concat (map peer_part init) @ last_line (fst l)"
proof -
  let ?s = "concat (map peer_part init) @ header_line (fst l) @ eol (snd l) @ eol cr"
  have s: "concat (map peer_part (init @ [l])) @ eol cr = ?s"
    by (simp add: peer_part_def)
  have "trimStart ?s = ?s"
  proof -
    obtain q qs where qs: "init @ [l] = q # qs" by (cases init) auto
    with assms have q: "line_header (fst q)" by simp
    obtain rest where "?s = header_line (fst q) @ rest"
      using qs by (cases init) (auto simp: peer_part_def)
    then have "\<not> js_space (hd ?s)"
      using line_header_key [OF q] LF_space by (cases "fst (fst q)") (auto simp: header_line_def)
    then show ?thesis unfolding trimStart_def by (intro dropWhile_id) blast
  qed
  moreover have "trimEnd ?s = concat (map peer_part init) @ last_line (fst l)"
    using trimEnd_line [of "fst l" "snd l" cr] assms
      trimEnd_append [of "header_line (fst l) @ eol (snd l) @ eol cr" "concat (map peer_part init)"]
    by (simp add: last_line_def)
  ultimately show ?thesis unfolding s trim_def by simp
qed

lemma parse_lines:
  assumes "line_header p"
  shows "parse_header_line u (header_line p) = Inr (canonicalizeKey u (fst p), snd p)"
    "parse_header_line u (last_line p) = Inr (canonicalizeKey u (fst p), snd p)"
  using assms LF_space trimStart_trimmed [of "snd p"]
  by (cases p; auto simp: parse_header_line_def header_line_def last_line_def line_header_def
      indexOf_append trimStart_def)+

lemma plain_lines:
  assumes "line_header p"
  shows "plain_line (header_line p)" "LF \<notin> set (last_line p)"
  using header_line_facts [OF assms] line_header_key [OF assms] assms
  by (auto simp: plain_line_def last_line_def header_line_def line_header_def)

lemma split_peer_lines:
  assumes "list_all (\<lambda>l. line_header (fst l)) init" and "LF \<notin> set t"
  shows "split_lines (concat (map peer_part init) @ t) = map (header_line \<circ> fst) init @ [t]"
  using assms(1)
proof (induction init)
  case (Cons l init)
  then have "plain_line (header_line (fst l))" by (simp add: plain_lines)
  with Cons show ?case
    using split_lines_append [of "header_line (fst l)"] split_lines_crlf [of "header_line (fst l)"]
    by (simp add: peer_part_def eol_def)
qed (simp add: split_lines_plain assms(2))

lemma parse_header_text:
  assumes "peer_lines ls"
  shows "mapToObj (split_lines (trim (concat (map peer_part ls) @ eol cr))) (parse_header_line u) =
    Inr (canonical_headers u ls)"
proof -
  obtain init l where ls: "ls = init @ [l]" using assms by (cases ls rule: rev_cases) auto
  have ok: "list_all (\<lambda>l. line_header (fst l)) init" "line_header (fst l)" using assms ls by simp_all
  have "trim (concat (map peer_part ls) @ eol cr) = concat (map peer_part init) @ last_line (fst l)"
    using assms ls trim_header_text [of init l cr] by simp
  then have "split_lines (trim (concat (map peer_part ls) @ eol cr)) = map (header_line \<circ> fst) init @ [last_line (fst l)]"
    using split_peer_lines [OF ok(1) plain_lines(2) [OF ok(2)]] by simp
  moreover have "map_result (parse_header_line u) (map (header_line \<circ> fst) init @ [last_line (fst l)]) =
      Inr (map (\<lambda>((k, v), cr). (canonicalizeKey u k, v)) ls)"
    using ok unfolding ls by (induction init) (auto simp: parse_lines split_beta)
  ultimately show ?thesis by (simp add: mapToObj_def canonical_headers_def)
qed

section \<open>Round trips\<close>

text \<open>What the reader makes of a peer's bytes, up to the body.\<close>

lemma parse_peer:
  assumes "peer_lines ls" and "blob_bytes b = peer_headers ls @ eol cr @ rest"
  shows "parseMessageFromBlob u b =
    (let hs = canonical_headers u ls; body0 = mk_blob rest
     in case obj_get hs (header_name Header_Length) of
          None \<Rightarrow> Inr \<lparr>headers = hs, body = body0\<rparr>
        | Some l \<Rightarrow>
            (let len = parseInt l;
                 newLine0 = blob_text (blob_slice body0 (slice_arg len) (slice_arg (map_option (\<lambda>n. n + 2) len)));
                 newLine = (if newLine0 \<noteq> [] \<and> hd newLine0 = CR then tl newLine0 else newLine0)
             in if newLine \<noteq> [] \<and> hd newLine = LF
                then Inr \<lparr>headers = hs, body = blob_slice body0 0 (slice_arg len)\<rparr>
                else Inl (ExpectedNewline len newLine)))"
proof -
  have header_str: "blob_text (mk_blob (peer_headers ls @ eol cr)) = concat (map peer_part ls) @ eol cr"
    by (simp add: blob_text_def header_text [OF assms(1)])
  have rest: "blob_slice_from b (int (blob_size (mk_blob (peer_headers ls @ eol cr)))) = mk_blob rest"
    unfolding blob_slice_from_def blob_slice_def list_slice_nat by (simp add: assms(2) blob_size_def)
  show ?thesis
    unfolding parseMessageFromBlob_def Let_def extract_peer_headers [OF assms] header_str
      parse_header_text [OF assms(1)] rest andThen.simps ..
qed

lemma text_eol: "utf8_decode (eol cr) = eol cr"
  using utf8_decode_encode [of "eol cr"] by (simp add: eol_facts) (simp add: eol_def)

lemma parse_peer_exact:
  assumes "peer_lines ls" and "blob_bytes b = peer_headers ls @ eol cr @ bs @ eol cr'"
    and "obj_get (canonical_headers u ls) (header_name Header_Length) = Some (dec_string (length bs))"
  shows "parseMessageFromBlob u b = Inr \<lparr>headers = canonical_headers u ls, body = mk_blob bs\<rparr>"
proof -
  let ?n = "length bs"
  have "blob_slice (mk_blob (bs @ eol cr')) (int ?n) (int ?n + 2) = mk_blob (eol cr')"
    using list_slice_nat [of ?n "?n + 2" "bs @ eol cr'"]
    by (simp add: blob_slice_def add.commute eol_def)
  moreover have "blob_text (mk_blob (eol cr')) = eol cr'" by (simp add: blob_text_def text_eol)
  moreover have "blob_slice (mk_blob (bs @ eol cr')) 0 (int ?n) = mk_blob bs"
    by (simp add: blob_slice_prefix)
  ultimately show ?thesis
    by (simp add: parse_peer [OF assms(1,2)] assms(3) parseInt_dec_string Let_def) (simp add: eol_def)
qed

text \<open>What this program writes is a case of it.\<close>

lemma created_peer:
  assumes "wire_message u m"
  defines "ls \<equiv> map (\<lambda>p. (p, False)) (own_order (headers m))"
  shows "peer_lines ls" "canonical_headers u ls = own_order (headers m)"
    "blob_bytes (createBlobFromMessage m) = peer_headers ls @ eol False @ blob_bytes (body m) @ eol False"
    "obj_get (canonical_headers u ls) (header_name Header_Length) = header_of m Header_Length"
proof -
  have hs: "obj_wf (own_order (headers m))" "list_all (wire_header u) (own_order (headers m))" "headers m \<noteq> []"
    using assms(1) by (simp_all add: wire_message_def list_all_iff)
  then show "peer_lines ls" by (auto simp: ls_def list_all_iff wire_line)
  have "map (\<lambda>((k, v), cr). (canonicalizeKey u k, v)) ls = own_order (headers m)"
    using hs(2) unfolding ls_def map_map by (intro map_idI) (auto simp: wire_header_def list_all_iff)
  then show can: "canonical_headers u ls = own_order (headers m)"
    using hs(1) by (simp add: canonical_headers_def obj_assign_empty)
  show "blob_bytes (createBlobFromMessage m) = peer_headers ls @ eol False @ blob_bytes (body m) @ eol False"
    by (simp add: createBlobFromMessage_def eol_facts peer_headers_def ls_def comp_def header_part_line eol_def)
  show "obj_get (canonical_headers u ls) (header_name Header_Length) = header_of m Header_Length"
    using assms(1) can by (simp add: header_of_def obj_get_own_order wire_message_def)
qed

lemma parse_create_exact:
  assumes "wire_message u m"
    and "header_of m Header_Length = Some (dec_string (blob_size (body m)))"
  shows "parseMessageFromBlob u (createBlobFromMessage m) =
    Inr \<lparr>headers = own_order (headers m), body = mk_blob (blob_bytes (body m))\<rparr>"
  using parse_peer_exact [OF created_peer(1,3) [OF assms(1)], of u] created_peer(2,4) [OF assms(1)] assms(2)
  by (simp add: blob_size_def)

text \<open>
  C1: a message with at least one header, canonical header names and trimmed values (\<open>wire_message\<close>) whose Content-Length
  header gives the size of its body is read back as it was written: the same headers, in the order
  of an object's keys, and the same bytes in the body.
\<close>

theorem parse_create_roundtrip:
  assumes "wire_message u m"
    and "header_of m Header_Length = Some (dec_string (blob_size (body m)))"
  shows "parseMessageFromBlob u (createBlobFromMessage m) =
    Inr \<lparr>headers = own_order (headers m), body = mk_blob (blob_bytes (body m))\<rparr>"
  using assms by (rule parse_create_exact)

text \<open>
  C3: what a peer writes is read whatever its spelling, if it has a Content-Length and that is the
  number of the bytes of its body. Each of its header lines (at least one, each a name, a colon, a
  space and a trimmed value) may end in a line feed or in a carriage return and a line feed, and so
  may the blank line and the body; header names come out in their canonical spelling, so that they
  are looked up regardless of case, and the body has exactly its bytes.
\<close>

theorem parse_peer_message:
  assumes "peer_lines ls" and "blob_bytes b = peer_headers ls @ eol cr @ bs @ eol cr'"
    and "obj_get (canonical_headers u ls) (header_name Header_Length) = Some (dec_string (length bs))"
  shows "parseMessageFromBlob u b = Inr \<lparr>headers = canonical_headers u ls, body = mk_blob bs\<rparr>"
  using assms by (rule parse_peer_exact)

text \<open>
  C38: without a Content-Length header the terminating line feed the writer adds is read back as
  part of the body.
\<close>

theorem parse_create_no_length:
  assumes "wire_message u m" and "header_of m Header_Length = None"
  shows "parseMessageFromBlob u (createBlobFromMessage m) =
    Inr \<lparr>headers = own_order (headers m), body = mk_blob (blob_bytes (body m) @ [LF])\<rparr>"
  using parse_peer [OF created_peer(1,3) [OF assms(1)], of u] created_peer(2,4) [OF assms(1)] assms(2)
  by (simp add: Let_def eol_def)

text \<open>
  A message without headers, which the protocol allows, is written but cannot be read: with
  an empty body the reader fails for want of a colon.
\<close>

lemma parse_create_no_headers:
  "parseMessageFromBlob u (createBlobFromMessage empty_message) = Inl (ExpectedColon [])"
proof -
  have bytes: "blob_bytes (createBlobFromMessage empty_message) = [LF, LF]"
    by (simp add: createBlobFromMessage_def own_order_def eol_facts emptyBlob_def)
  have "header_length [LF, LF] = 2"
    using double_break_LF(1) [of "[]"] not_double_break_single
    by (simp add: header_length_def eval_nat_numeral split_beta)
  then have ext: "extractHeadersFromBlob (createBlobFromMessage empty_message) = mk_blob [LF, LF]"
    by (simp add: extract_prefix bytes)
  have "trim (blob_text (mk_blob [LF, LF])) = []"
    by (simp add: blob_text_def utf8_decode_def utf8_step_def utf8_first_def utf8_idle_def utf16_units_def
        trim_def trimStart_def trimEnd_def LF_space)
  then show ?thesis
    by (simp add: parseMessageFromBlob_def ext mapToObj_def parse_header_line_def)
qed

end
