(* ===== verification/Registry.thy ===== *)
theory Registry
  imports Prelude
begin

text \<open>
  The contract of a registry of subscriptions kept in registration order: registering a key that
  is not registered puts it last, removing a registered key takes it out and leaves the others as
  they are. The event target and the message dispatcher provide it. A registry that keeps the
  contract refines the plain list of keys: after any sequence of registrations and removals both
  hold the same keys in the same order.
\<close>

datatype 'k reg_op = Reg 'k | Unreg 'k

fun spec_op :: "'k reg_op \<Rightarrow> 'k list \<Rightarrow> 'k list" where
  "spec_op (Reg k) ks = ks @ [k]"
| "spec_op (Unreg k) ks = remove1 k ks"

fun impl_op :: "('k \<Rightarrow> 's \<Rightarrow> 's) \<Rightarrow> ('k \<Rightarrow> 's \<Rightarrow> 's) \<Rightarrow> 'k reg_op \<Rightarrow> 's \<Rightarrow> 's" where
  "impl_op add del (Reg k) s = add k s"
| "impl_op add del (Unreg k) s = del k s"

text \<open>A history whose registrations are possible and whose removals name registered keys.\<close>

fun valid_ops :: "('s \<Rightarrow> 'k list) \<Rightarrow> ('k \<Rightarrow> 's \<Rightarrow> bool) \<Rightarrow> ('k \<Rightarrow> 's \<Rightarrow> 's) \<Rightarrow> ('k \<Rightarrow> 's \<Rightarrow> 's) \<Rightarrow>
    'k reg_op list \<Rightarrow> 's \<Rightarrow> bool" where
  "valid_ops entries can_add add del [] s = True"
| "valid_ops entries can_add add del (Reg k # ops) s =
     (can_add k s \<and> valid_ops entries can_add add del ops (add k s))"
| "valid_ops entries can_add add del (Unreg k # ops) s =
     (k \<in> set (entries s) \<and> valid_ops entries can_add add del ops (del k s))"

locale registry =
  fixes entries :: "'s \<Rightarrow> 'k list"
    and can_add :: "'k \<Rightarrow> 's \<Rightarrow> bool"
    and add :: "'k \<Rightarrow> 's \<Rightarrow> 's"
    and del :: "'k \<Rightarrow> 's \<Rightarrow> 's"
    and good :: "'s \<Rightarrow> bool"
  assumes good_distinct: "good s \<Longrightarrow> distinct (entries s)"
    and add_law: "good s \<Longrightarrow> can_add k s \<Longrightarrow> good (add k s) \<and> entries (add k s) = entries s @ [k]"
    and del_law: "good s \<Longrightarrow> k \<in> set (entries s) \<Longrightarrow> good (del k s) \<and> entries (del k s) = remove1 k (entries s)"
begin

lemma refines_list:
  assumes "good s" and "valid_ops entries can_add add del ops s"
  shows "good (fold (impl_op add del) ops s) \<and>
    entries (fold (impl_op add del) ops s) = fold spec_op ops (entries s)"
  using assms
proof (induction ops arbitrary: s)
  case Nil
  then show ?case by simp
next
  case (Cons op ops)
  then show ?case by (cases op) (simp_all add: add_law del_law)
qed

lemma keeps_distinct:
  "good s \<Longrightarrow> valid_ops entries can_add add del ops s \<Longrightarrow> distinct (fold spec_op ops (entries s))"
  using refines_list good_distinct by metis

lemma add_del: "good s \<Longrightarrow> can_add k s \<Longrightarrow> entries (del k (add k s)) = entries s"
  using add_law [of s k] del_law [of "add k s" k] good_distinct [of "add k s"]
  by (simp add: remove1_append)

end

end
