(* ===== verification/Event_Target.thy ===== *)
theory Event_Target
  imports Js_Value Registry
begin

text \<open>
  createConstrainedEventTarget.ts: the listeners of each event type in registration order, with
  \<^verbatim>\<open>addEventListener\<close>, \<^verbatim>\<open>removeEventListener\<close> and \<^verbatim>\<open>dispatchEvent\<close>. A listener is client code: \<open>call\<close> runs
  it on the event and on the whole state (the target and what the client keeps beside it, the
  record's extension), so a listener may itself change the target. The facts: a dispatch calls
  the listeners present when it starts, each once and in order, whatever they do meanwhile;
  \<^verbatim>\<open>once\<close> listeners are gone afterwards and the others stay; removal undoes registration.
\<close>

section \<open>Definitions\<close>

record listener_options =
  capture :: "bool option"
  once :: "bool option"

datatype options_arg = NoOptions | BooleanOptions bool | ObjectOptions listener_options

record event =
  event_type :: jsstring
  defaultPrevented :: bool

record 'l target =
  listeners :: "(jsstring \<times> ('l \<times> listener_options) list) list"

definition createConstrainedEventTarget :: "'l target" where
  "createConstrainedEventTarget = \<lparr>listeners = []\<rparr>"

definition listeners_at :: "('l, 'z) target_scheme \<Rightarrow> jsstring \<Rightarrow> ('l \<times> listener_options) list lookup" where
  "listeners_at t type = obj_lookup (listeners t) type"

fun add_options :: "options_arg \<Rightarrow> listener_options" where
  "add_options (ObjectOptions o1) = o1"
| "add_options (BooleanOptions b) = \<lparr>capture = Some b, once = None\<rparr>"
| "add_options NoOptions = \<lparr>capture = None, once = None\<rparr>"

fun capture_option :: "options_arg \<Rightarrow> bool option" where
  "capture_option (ObjectOptions o1) = capture o1"
| "capture_option (BooleanOptions b) = Some b"
| "capture_option NoOptions = None"

abbreviation truthy :: "bool option \<Rightarrow> bool" where
  "truthy b \<equiv> b = Some True"

definition addEventListener ::
  "jsstring \<Rightarrow> 'l \<Rightarrow> options_arg \<Rightarrow> ('l, 'z) target_scheme \<Rightarrow> unit result \<times> ('l, 'z) target_scheme" where
  "addEventListener type listener options t =
     (case listeners_at t type of
        Own stack \<Rightarrow> (Inr (), t\<lparr>listeners := obj_set type (stack @ [(listener, add_options options)]) (listeners t)\<rparr>)
      | Missing \<Rightarrow> (Inr (), t\<lparr>listeners := obj_set type [(listener, add_options options)] (listeners t)\<rparr>)
      | Inherited \<Rightarrow> (Inl TypeErr, t))"

fun remove_first :: "'l \<Rightarrow> bool option \<Rightarrow> ('l \<times> listener_options) list \<Rightarrow> ('l \<times> listener_options) list" where
  "remove_first listener capt [] = []"
| "remove_first listener capt ((l, o1) # stack) =
     (if l = listener \<and> (\<not> truthy (capture o1)) = (\<not> truthy capt) then stack
      else (l, o1) # remove_first listener capt stack)"

definition removeEventListener ::
  "jsstring \<Rightarrow> 'l \<Rightarrow> options_arg \<Rightarrow> ('l, 'z) target_scheme \<Rightarrow> ('l, 'z) target_scheme" where
  "removeEventListener type listener options t =
     (case listeners_at t type of
        Own stack \<Rightarrow>
          t\<lparr>listeners := obj_set type (remove_first listener (capture_option options) stack) (listeners t)\<rparr>
      | _ \<Rightarrow> t)"

text \<open>The listeners' code: it may change the event and the state, and throw.\<close>

type_synonym ('l, 'e, 'z) listener_code =
  "'l \<Rightarrow> 'e event_scheme \<Rightarrow> ('l, 'z) target_scheme \<Rightarrow> unit result \<times> 'e event_scheme \<times> ('l, 'z) target_scheme"

fun dispatch_each ::
  "('l, 'e, 'z) listener_code \<Rightarrow> ('l \<times> listener_options) list \<Rightarrow> 'e event_scheme \<Rightarrow>
   ('l, 'z) target_scheme \<Rightarrow> unit result \<times> 'e event_scheme \<times> ('l, 'z) target_scheme" where
  "dispatch_each call [] e t = (Inr (), e, t)"
| "dispatch_each call ((l, o1) # stack) e t =
     (let t1 = (if truthy (once o1) then removeEventListener (event_type e) l (ObjectOptions o1) t else t);
          (r, e', t2) = call l e t1
      in case r of Inl err \<Rightarrow> (Inl err, e', t2)
         | Inr _ \<Rightarrow> dispatch_each call stack e' t2)"

definition dispatchEvent ::
  "('l, 'e, 'z) listener_code \<Rightarrow> 'e event_scheme \<Rightarrow> ('l, 'z) target_scheme \<Rightarrow>
   bool result \<times> 'e event_scheme \<times> ('l, 'z) target_scheme" where
  "dispatchEvent call e t =
     (case listeners_at t (event_type e) of
        Missing \<Rightarrow> (Inr True, e, t)
      | Inherited \<Rightarrow> (Inl TypeErr, e, t)
      | Own stack \<Rightarrow>
          (case dispatch_each call stack e t of
             (Inl err, e', t') \<Rightarrow> (Inl err, e', t')
           | (Inr _, e', t') \<Rightarrow> (Inr (\<not> defaultPrevented e'), e', t')))"

section \<open>Stacks\<close>

text \<open>The registered listeners of a type, none where the type has no stack.\<close>

definition stack_of :: "('l, 'z) target_scheme \<Rightarrow> jsstring \<Rightarrow> ('l \<times> listener_options) list" where
  "stack_of t type = (case listeners_at t type of Own stack \<Rightarrow> stack | _ \<Rightarrow> [])"

text \<open>What two registrations must share for one to be taken for the other.\<close>

definition same_key :: "('l \<times> listener_options) \<Rightarrow> 'l \<times> bool" where
  "same_key r = (fst r, truthy (capture (snd r)))"

abbreviation no_duplicates :: "('l \<times> listener_options) list \<Rightarrow> bool" where
  "no_duplicates stack \<equiv> distinct (map same_key stack)"

lemma capture_add_options [simp]: "capture (add_options opts) = capture_option opts"
  by (cases opts) auto

lemma listeners_at_set:
  "listeners_at (t\<lparr>listeners := obj_set type stack (listeners t)\<rparr>) type' =
     (if type' = type then Own stack else listeners_at t type')"
  by (simp add: listeners_at_def obj_lookup_def obj_simps)

lemma stack_of_set:
  "stack_of (t\<lparr>listeners := obj_set type stack (listeners t)\<rparr>) type' =
     (if type' = type then stack else stack_of t type')"
  by (simp add: stack_of_def listeners_at_set)

lemma stack_of_remove:
  "stack_of (removeEventListener type l opts t) type' =
     (if type' = type then remove_first l (capture_option opts) (stack_of t type) else stack_of t type')"
  by (auto simp: removeEventListener_def stack_of_set split: lookup.splits)
    (simp_all add: stack_of_def)

lemma stack_of_add:
  "type \<notin> set object_prototype \<Longrightarrow>
   fst (addEventListener type l opts t) = Inr () \<and>
   stack_of (snd (addEventListener type l opts t)) type' =
     (if type' = type then stack_of t type @ [(l, add_options opts)] else stack_of t type')"
  by (auto simp: addEventListener_def stack_of_set split: lookup.splits)
    (auto simp: stack_of_def listeners_at_def obj_lookup_def split: option.splits if_splits)

lemma more_remove [simp]: "target.more (removeEventListener type l opts t) = target.more t"
  by (simp add: removeEventListener_def split: lookup.splits)

lemma more_add [simp]: "target.more (snd (addEventListener type l opts t)) = target.more t"
  by (simp add: addEventListener_def split: lookup.splits)

lemma remove_first_Cons:
  "remove_first l capt (r # stack) =
     (if same_key r = (l, truthy capt) then stack else r # remove_first l capt stack)"
  by (cases r) (auto simp: same_key_def)

lemma remove_first_absent:
  "(l, truthy capt) \<notin> set (map same_key stack) \<Longrightarrow> remove_first l capt stack = stack"
  by (induction l capt stack rule: remove_first.induct) (auto simp: same_key_def)

lemma remove_first_append:
  "remove_first l capt (xs @ ys) =
     (if (l, truthy capt) \<in> set (map same_key xs) then remove_first l capt xs @ ys
      else xs @ remove_first l capt ys)"
  by (induction xs) (auto simp: remove_first_Cons simp del: remove_first.simps(2))

lemma remove_first_distinct:
  "no_duplicates stack \<Longrightarrow>
   remove_first l capt stack = filter (\<lambda>r. same_key r \<noteq> (l, truthy capt)) stack"
proof (induction l capt stack rule: remove_first.induct)
  case (2 listener capt l o1 stack)
  then show ?case
    by (auto simp: same_key_def intro!: filter_True [symmetric])
qed simp

section \<open>Dispatching\<close>

lemma dispatch_each_trace:
  assumes "\<And>l e t. fst (call l e t) = Inr ()"
    and "\<And>l e t. trace (target.more (snd (snd (call l e t)))) = trace (target.more t) @ [l]"
  shows "fst (dispatch_each call stack e t) = Inr () \<and>
    trace (target.more (snd (snd (dispatch_each call stack e t)))) = trace (target.more t) @ map fst stack"
proof (induction stack arbitrary: e t)
  case (Cons r stack)
  obtain l o1 where r: "r = (l, o1)" by (cases r)
  let ?t = "if truthy (once o1) then removeEventListener (event_type e) l (ObjectOptions o1) t else t"
  obtain r' e' t' where c: "call l e ?t = (r', e', t')" by (cases "call l e ?t")
  have "r' = Inr ()" "trace (target.more t') = trace (target.more t) @ [l]"
    using assms [of l e ?t] c by (auto split: if_splits)
  with Cons.IH [of e' t'] c r show ?case by simp
qed simp

text \<open>
  C29: a dispatch calls exactly the listeners registered for the event's type when it starts, each
  once, in the order of registration, whatever the listeners add or remove meanwhile, as long as
  none throws.
\<close>

theorem dispatch_calls_snapshot:
  assumes "\<And>l e t. fst (call l e t) = Inr ()"
    and "\<And>l e t. trace (target.more (snd (snd (call l e t)))) = trace (target.more t) @ [l]"
    and "event_type e \<notin> set object_prototype"
  shows "is_ok (fst (dispatchEvent call e t)) \<and>
    trace (target.more (snd (snd (dispatchEvent call e t)))) =
      trace (target.more t) @ map fst (stack_of t (event_type e))"
proof (cases "listeners_at t (event_type e)")
  case (Own stack)
  with dispatch_each_trace [of call trace, OF assms(1,2), of stack e t] show ?thesis
    by (auto simp: dispatchEvent_def stack_of_def split: prod.splits sum.splits)
next
  case Inherited
  with assms(3) show ?thesis by (auto simp: listeners_at_def obj_lookup_def split: option.splits if_splits)
next
  case Missing
  then show ?thesis by (simp add: dispatchEvent_def stack_of_def)
qed

text \<open>Listeners that leave the target and the type of the event alone.\<close>

definition leaves_target :: "('l, 'e, 'z) listener_code \<Rightarrow> bool" where
  "leaves_target call = (\<forall>l e t. fst (call l e t) = Inr () \<and> event_type (fst (snd (call l e t))) = event_type e \<and>
     listeners (snd (snd (call l e t))) = listeners t)"

lemma leaves_targetD:
  "leaves_target call \<Longrightarrow> call l e t = (r, e', t') \<Longrightarrow> r = Inr () \<and> event_type e' = event_type e \<and> listeners t' = listeners t"
  unfolding leaves_target_def by (metis fst_conv snd_conv)

lemma stack_of_cong: "listeners t = listeners t' \<Longrightarrow> stack_of t type = stack_of t' type"
  by (simp add: stack_of_def listeners_at_def obj_lookup_def)

lemma dispatch_each_once:
  assumes "leaves_target call"
    and "no_duplicates (kept @ stack)" and "stack_of t type = kept @ stack" and "event_type e = type"
  shows "stack_of (snd (snd (dispatch_each call stack e t))) type' =
    (if type' = type then kept @ filter (\<lambda>r. \<not> truthy (once (snd r))) stack else stack_of t type')"
  using assms(2-4)
proof (induction stack arbitrary: kept e t)
  case Nil
  then show ?case by simp
next
  case (Cons r stack)
  obtain l o1 where r: "r = (l, o1)" by (cases r)
  let ?t = "if truthy (once o1) then removeEventListener (event_type e) l (ObjectOptions o1) t else t"
  obtain r' e' t' where c: "call l e ?t = (r', e', t')" by (cases "call l e ?t")
  then have ok: "r' = Inr ()" and type': "event_type e' = type" and same: "listeners t' = listeners ?t"
    using leaves_targetD [OF assms(1)] Cons.prems(3) by blast+
  have stack': "stack_of t' type'' = stack_of ?t type''" for type''
    using same by (rule stack_of_cong)
  have unfold: "dispatch_each call (r # stack) e t = dispatch_each call stack e' t'"
    using c ok r by simp
  show ?case
  proof (cases "truthy (once o1)")
    case True
    have "(l, truthy (capture o1)) \<notin> set (map same_key kept)"
      using Cons.prems(1) r by (auto simp: same_key_def)
    then have "stack_of t' type = kept @ stack"
      using True stack' Cons.prems(2,3) r by (simp add: stack_of_remove remove_first_append)
    with Cons.IH [of kept t' e'] Cons.prems(1,3) type' True r unfold stack' show ?thesis
      by (simp add: stack_of_remove)
  next
    case False
    with Cons.IH [of "kept @ [r]" t' e'] Cons.prems type' r unfold stack' show ?thesis by simp
  qed
qed

text \<open>
  After a dispatch to listeners that do not touch the target or the event's type, the \<^verbatim>\<open>once\<close> listeners of that
  type are gone, the others stay in their order and the other types are untouched, provided no
  listener is registered twice for the type with the same capture flag.
\<close>

lemma dispatch_removes_once:
  assumes "leaves_target call" and "no_duplicates (stack_of t (event_type e))"
  shows "stack_of (snd (snd (dispatchEvent call e t))) type =
    (if type = event_type e then filter (\<lambda>r. \<not> truthy (once (snd r))) (stack_of t type) else stack_of t type)"
proof (cases "listeners_at t (event_type e)")
  case (Own stack)
  then have stack: "stack_of t (event_type e) = [] @ stack" by (simp add: stack_of_def)
  obtain r e' t' where d: "dispatch_each call stack e t = (r, e', t')"
    by (cases "dispatch_each call stack e t")
  have "snd (snd (dispatchEvent call e t)) = t'"
    using d Own by (simp add: dispatchEvent_def split: sum.splits)
  moreover have "no_duplicates ([] @ stack)" using assms(2) stack by simp
  ultimately show ?thesis
    using dispatch_each_once [OF assms(1) _ stack refl, of type] d stack by simp
qed (auto simp: dispatchEvent_def stack_of_def)

text \<open>
  Removing a listener undoes its registration: when it was not registered for the type with
  that capture flag before, adding and then removing it leaves every stack as it was.
\<close>

lemma remove_undoes_add:
  assumes "type \<notin> set object_prototype"
    and "(l, truthy (capture_option opts)) \<notin> set (map same_key (stack_of t type))"
  shows "stack_of (removeEventListener type l opts (snd (addEventListener type l opts t))) type' = stack_of t type'"
proof -
  have "stack_of (snd (addEventListener type l opts t)) type'' =
      (if type'' = type then stack_of t type @ [(l, add_options opts)] else stack_of t type'')" for type''
    using stack_of_add [OF assms(1), of l opts t type''] by blast
  with assms(2) show ?thesis
    by (simp add: stack_of_remove remove_first_append)
qed

text \<open>
  When a listener is registered first permanently and then with \<^verbatim>\<open>once\<close> (same capture flag),
  one dispatch removes the permanent registration and keeps the \<^verbatim>\<open>once\<close> one, so the permanent
  listener is lost at the next dispatch.
\<close>

lemma once_removes_permanent:
  assumes "leaves_target call" and "event_type e = type"
    and "stack_of t type = [(l, \<lparr>capture = None, once = None\<rparr>), (l, \<lparr>capture = None, once = Some True\<rparr>)]"
  shows "stack_of (snd (snd (dispatchEvent call e t))) type = [(l, \<lparr>capture = None, once = Some True\<rparr>)]"
proof -
  let ?p = "(l, \<lparr>capture = None, once = None\<rparr>)" and ?o = "(l, \<lparr>capture = None, once = Some True\<rparr>)"
  have own: "listeners_at t type = Own [?p, ?o]"
    using assms(3) by (simp add: stack_of_def split: lookup.splits)
  obtain r1 e1 t1 where c1: "call l e t = (r1, e1, t1)" by (cases "call l e t")
  let ?t = "removeEventListener type l (ObjectOptions (snd ?o)) t1"
  obtain r2 e2 t2 where c2: "call l e1 ?t = (r2, e2, t2)" by (cases "call l e1 ?t")
  have "r1 = Inr ()" "listeners t1 = listeners t" "r2 = Inr ()" "listeners t2 = listeners ?t"
    and e1: "event_type e1 = type"
    using leaves_targetD [OF assms(1) c1] leaves_targetD [OF assms(1) c2] assms(2) by simp_all
  then have "stack_of t2 type = [?o]"
    using assms(3) stack_of_cong [of t2 ?t type] stack_of_cong [of t1 t type]
    by (simp add: stack_of_remove)
  with c1 c2 \<open>r1 = Inr ()\<close> \<open>r2 = Inr ()\<close> own assms(2) e1 show ?thesis
    by (simp add: dispatchEvent_def)
qed

text \<open>
  The name of a member of \<^verbatim>\<open>Object.prototype\<close> cannot be used as an event type: registering and
  dispatching throw a TypeError, and no listener is ever kept under it.
\<close>

lemma prototype_event_type:
  assumes "type \<in> set object_prototype" and "type \<notin> set (obj_keys (listeners t))"
  shows "addEventListener type l opts t = (Inl TypeErr, t) \<and>
    (event_type e = type \<longrightarrow> dispatchEvent call e t = (Inl TypeErr, e, t)) \<and>
    removeEventListener type l opts t = t"
proof -
  have "listeners_at t type = Inherited"
    using assms by (auto simp: listeners_at_def obj_lookup_def obj_get_None_iff split: option.splits
        dest: obj_get_None_iff [THEN iffD2])
  then show ?thesis
    by (auto simp: addEventListener_def dispatchEvent_def removeEventListener_def)
qed

section \<open>The listeners of a type are a registry\<close>

lemma stack_of_new: "stack_of createConstrainedEventTarget type = []"
  by (simp add: createConstrainedEventTarget_def stack_of_def listeners_at_def obj_lookup_def obj_get_Nil)

lemma remove_first_keys:
  "map same_key (remove_first l capt stack) = remove1 (l, truthy capt) (map same_key stack)"
  by (induction stack) (auto simp: remove_first_Cons simp del: remove_first.simps(2))

interpretation listener_registry: registry
    "\<lambda>t. map same_key (stack_of t type)" "\<lambda>k t. k \<notin> set (map same_key (stack_of t type))"
    "\<lambda>k t. snd (addEventListener type (fst k) (BooleanOptions (snd k)) t)"
    "\<lambda>k t. removeEventListener type (fst k) (BooleanOptions (snd k)) t"
    "\<lambda>t. type \<notin> set object_prototype \<and> no_duplicates (stack_of t type)"
proof unfold_locales
  fix t :: "('a, 'b) target_scheme" and k :: "'a \<times> bool"
  assume good: "type \<notin> set object_prototype \<and> no_duplicates (stack_of t type)"
  then show "distinct (map same_key (stack_of t type))" by simp
  let ?t = "snd (addEventListener type (fst k) (BooleanOptions (snd k)) t)"
  have "stack_of ?t type = stack_of t type @ [(fst k, add_options (BooleanOptions (snd k)))]"
    using good stack_of_add [of type "fst k" "BooleanOptions (snd k)" t type] by simp
  moreover have "same_key (fst k, add_options (BooleanOptions (snd k))) = k"
    by (cases k) (simp add: same_key_def)
  ultimately show "k \<notin> set (map same_key (stack_of t type)) \<Longrightarrow>
      (type \<notin> set object_prototype \<and> no_duplicates (stack_of ?t type)) \<and>
      map same_key (stack_of ?t type) = map same_key (stack_of t type) @ [k]"
    using good by simp
  show "(type \<notin> set object_prototype \<and>
        no_duplicates (stack_of (removeEventListener type (fst k) (BooleanOptions (snd k)) t) type)) \<and>
      map same_key (stack_of (removeEventListener type (fst k) (BooleanOptions (snd k)) t) type) =
        remove1 k (map same_key (stack_of t type))"
    using good by (cases k) (simp add: stack_of_remove remove_first_keys)
qed

text \<open>
  C30: the listeners of an event type behave as a list of subscriptions keyed by listener and
  capture flag: after any sequence of registrations of new keys and removals of registered ones,
  the keys left are those the list holds, in the order of registration.
\<close>

theorem listeners_refine_list:
  assumes "type \<notin> set object_prototype"
    and "valid_ops (\<lambda>t. map same_key (stack_of t type)) (\<lambda>k t. k \<notin> set (map same_key (stack_of t type)))
      (\<lambda>k t. snd (addEventListener type (fst k) (BooleanOptions (snd k)) t))
      (\<lambda>k t. removeEventListener type (fst k) (BooleanOptions (snd k)) t) ops createConstrainedEventTarget"
  shows "map same_key (stack_of (fold (impl_op
        (\<lambda>k t. snd (addEventListener type (fst k) (BooleanOptions (snd k)) t))
        (\<lambda>k t. removeEventListener type (fst k) (BooleanOptions (snd k)) t)) ops createConstrainedEventTarget) type) =
    fold spec_op ops []"
  using listener_registry.refines_list [OF _ assms(2)] assms(1) by (simp add: stack_of_new)

section \<open>What listeners may change\<close>

text \<open>
  A relation that holds from before to after every listener call, and from before to after a
  removal, holds from before to after a whole dispatch.
\<close>

locale listener_frame =
  fixes call :: "('l, 'e, 'z) listener_code"
    and keeps :: "('l, 'z) target_scheme \<Rightarrow> ('l, 'z) target_scheme \<Rightarrow> bool"
  assumes keeps_refl: "keeps t t"
    and keeps_trans: "keeps t u \<Longrightarrow> keeps u v \<Longrightarrow> keeps t v"
    and keeps_remove: "keeps t (removeEventListener type l opts t)"
    and keeps_call: "keeps t (snd (snd (call l e t)))"
begin

lemma keeps_each: "keeps t (snd (snd (dispatch_each call stack e t)))"
proof (induction stack arbitrary: e t)
  case Nil
  show ?case by (simp add: keeps_refl)
next
  case (Cons r stack)
  obtain l o1 where r: "r = (l, o1)" by (cases r)
  let ?t = "if truthy (once o1) then removeEventListener (event_type e) l (ObjectOptions o1) t else t"
  obtain r' e' t' where c: "call l e ?t = (r', e', t')" by (cases "call l e ?t")
  have "keeps t ?t" by (simp add: keeps_refl keeps_remove)
  moreover have "keeps ?t t'" using keeps_call [of ?t l e] c by simp
  ultimately have t': "keeps t t'" by (rule keeps_trans)
  have "snd (snd (dispatch_each call (r # stack) e t)) =
      (case r' of Inl err \<Rightarrow> t' | Inr _ \<Rightarrow> snd (snd (dispatch_each call stack e' t')))"
    using c r by (simp split: sum.splits)
  then show ?case using t' keeps_trans [OF t' Cons.IH [of t' e']] by (cases r') simp_all
qed

lemma keeps_dispatch: "keeps t (snd (snd (dispatchEvent call e t)))"
proof (cases "listeners_at t (event_type e)")
  case (Own stack)
  then show ?thesis
    using keeps_each [of t stack e]
    by (cases "dispatch_each call stack e t")
      (auto simp: dispatchEvent_def split: sum.splits)
qed (simp_all add: dispatchEvent_def keeps_refl)

end

end
