(* ===== verification/Persistent_Web_Socket.thy ===== *)
theory Persistent_Web_Socket
  imports Event_Target Utilities
begin

text \<open>
  PersistentWebSocket.ts: a socket that reconnects. The state holds the closure's variables
  (\<^verbatim>\<open>readyState\<close>, \<^verbatim>\<open>attempts\<close>, the current promise triplet, the listeners), the browser's sockets, the
  timers, and the continuations that wait on the promises. Each task of the event loop (an event
  of a socket, a timer, a call by the client) runs its handler to the end and then the
  microtasks. Client listeners answer an event with a list of calls of the returned object.
\<close>

section \<open>The browser's sockets\<close>

datatype sock_state = SConnecting | SOpen | SClosing | SClosed

record 'd sock =
  sstate :: sock_state
  binaryType :: jsstring
  timeout :: bool
  onerror :: bool
  sent :: "'d list"

definition live :: "('d, 'z) sock_scheme \<Rightarrow> bool" where
  "live k = (sstate k \<noteq> SClosed)"

text \<open>
  \<^verbatim>\<open>WebSocket.close(code, reason)\<close>: a code other than 1000 and 3000 to 4999, or a reason of more than
  123 bytes, makes it throw and do nothing; otherwise a socket that is not closed starts closing.
\<close>

definition close_args_ok :: "nat option \<Rightarrow> jsstring option \<Rightarrow> bool" where
  "close_args_ok code reason =
     ((case code of None \<Rightarrow> True | Some c \<Rightarrow> c = 1000 \<or> 3000 \<le> c \<and> c \<le> 4999) \<and>
      (case reason of None \<Rightarrow> True | Some r \<Rightarrow> length (utf8_encode r) \<le> 123))"

definition sock_close :: "nat option \<Rightarrow> jsstring option \<Rightarrow> 'd sock \<Rightarrow> 'd sock" where
  "sock_close code reason k =
     (if close_args_ok code reason \<and> live k then k\<lparr>sstate := SClosing\<rparr> else k)"

text \<open>\<^verbatim>\<open>WebSocket.send(data)\<close> throws before the socket is open and drops the data once it is closing.\<close>

definition sock_send :: "'d \<Rightarrow> 'd sock \<Rightarrow> unit result \<times> 'd sock" where
  "sock_send d k =
     (case sstate k of
        SConnecting \<Rightarrow> (Inl TypeErr, k)
      | SOpen \<Rightarrow> (Inr (), k\<lparr>sent := sent k @ [d]\<rparr>)
      | _ \<Rightarrow> (Inr (), k))"

section \<open>The state\<close>

datatype ready_state = CONNECTING | OPEN | CLOSED

text \<open>
  What waits on a promise for a socket: the callback of \<^verbatim>\<open>close\<close> and the rest of a \<^verbatim>\<open>send\<close>, with the
  number of the promise that this \<^verbatim>\<open>send\<close> returned.
\<close>

datatype 'd reaction = CloseReaction "nat option" "jsstring option" | SendReaction nat 'd

record 'd ws_event = event +
  event_data :: 'd

definition new_event :: "string \<Rightarrow> 'd \<Rightarrow> 'd ws_event" where
  "new_event type d = \<lparr>event_type = js type, defaultPrevented = False, event_data = d\<rparr>"

text \<open>\<open>heard\<close> is what the client's listeners have been called with so far, and the \<^verbatim>\<open>readyState\<close> they could read.\<close>

record ('l, 'd) pws = "'l target" +
  readyState :: ready_state
  attempts :: nat
  current :: nat
  promises :: "nat promises"
  socks :: "'d sock list"
  reconnects :: "nat list"
  reactions :: "(nat \<times> 'd reaction) list"
  microtasks :: "('d reaction \<times> nat promise) list"
  send_results :: "unit promises"
  heard :: "('l \<times> 'd ws_event \<times> ready_state) list"

record options =
  url :: jsstring
  connectTimeout :: "nat opt_field"
  retryInterval :: "nat opt_field"
  opt_binaryType :: "jsstring opt_field"
  maxRetries :: "int option"

record settings =
  set_url :: jsstring
  set_connectTimeout :: "nat option"
  set_retryInterval :: "nat option"
  set_binaryType :: "jsstring option"
  set_maxRetries :: "int option"

definition with_defaults :: "options \<Rightarrow> settings" where
  "with_defaults opts =
     \<lparr>set_url = url opts,
      set_connectTimeout = spread 5000 (connectTimeout opts),
      set_retryInterval = spread 3000 (retryInterval opts),
      set_binaryType = spread (js ''blob'') (opt_binaryType opts),
      set_maxRetries = maxRetries opts\<rparr>"

text \<open>\<^verbatim>\<open>setTimeout\<close> without a delay waits 0 ms; \<^verbatim>\<open>ws.binaryType\<close> ignores \<^verbatim>\<open>undefined\<close> and stays a Blob.\<close>

definition timer_delay :: "nat option \<Rightarrow> nat" where
  "timer_delay n = (case n of Some ms \<Rightarrow> ms | None \<Rightarrow> 0)"

definition binary_type :: "jsstring option \<Rightarrow> jsstring" where
  "binary_type b = (case b of Some t \<Rightarrow> t | None \<Rightarrow> js ''blob'')"

section \<open>Promises and their reactions\<close>

definition then_do :: "nat \<Rightarrow> 'd reaction \<Rightarrow> ('l, 'd) pws \<Rightarrow> ('l, 'd) pws" where
  "then_do i r s =
     (case promise_at (promises s) i of
        Pending \<Rightarrow> s\<lparr>reactions := reactions s @ [(i, r)]\<rparr>
      | p \<Rightarrow> s\<lparr>microtasks := microtasks s @ [(r, p)]\<rparr>)"

definition settle_current :: "nat promise \<Rightarrow> ('l, 'd) pws \<Rightarrow> ('l, 'd) pws" where
  "settle_current p s =
     (if promise_at (promises s) (current s) = Pending
      then s\<lparr>promises := settle p (current s) (promises s),
             microtasks := microtasks s @
               map (\<lambda>(i, r). (r, p)) (filter (\<lambda>(i, r). i = current s) (reactions s)),
             reactions := filter (\<lambda>(i, r). i \<noteq> current s) (reactions s)\<rparr>
      else s)"

definition update_sock :: "nat \<Rightarrow> ('d sock \<Rightarrow> 'd sock) \<Rightarrow> ('l, 'd) pws \<Rightarrow> ('l, 'd) pws" where
  "update_sock w f s = s\<lparr>socks := (socks s)[w := f (socks s ! w)]\<rparr>"

fun run_reaction :: "'d reaction \<times> nat promise \<Rightarrow> ('l, 'd) pws \<Rightarrow> ('l, 'd) pws" where
  "run_reaction (CloseReaction code reason, Fulfilled w) s = update_sock w (sock_close code reason) s"
| "run_reaction (SendReaction k d, Fulfilled w) s =
     (case sock_send d (socks s ! w) of
        (Inl e, _) \<Rightarrow> s\<lparr>send_results := reject k e (send_results s)\<rparr>
      | (Inr _, sk) \<Rightarrow> (update_sock w (\<lambda>_. sk) s)\<lparr>send_results := resolve k () (send_results s)\<rparr>)"
| "run_reaction (SendReaction k d, Rejected e) s = s\<lparr>send_results := reject k e (send_results s)\<rparr>"
| "run_reaction (CloseReaction code reason, Rejected e) s = s"
| "run_reaction (r, Pending) s = s"

definition run_microtasks :: "('l, 'd) pws \<Rightarrow> ('l, 'd) pws" where
  "run_microtasks s = fold run_reaction (microtasks s) (s\<lparr>microtasks := []\<rparr>)"

section \<open>The operations\<close>

definition pws_connect :: "settings \<Rightarrow> ('l, 'd) pws \<Rightarrow> ('l, 'd) pws" where
  "pws_connect opts s =
     s\<lparr>socks := socks s @ [\<lparr>sstate = SConnecting, binaryType = binary_type (set_binaryType opts),
                              timeout = True, onerror = False, sent = []\<rparr>]\<rparr>"

definition pws_close :: "nat option \<Rightarrow> jsstring option \<Rightarrow> ('l, 'd) pws \<Rightarrow> ('l, 'd) pws" where
  "pws_close code reason s =
     (if readyState s = OPEN then then_do (current s) (CloseReaction code reason) s else s)
       \<lparr>readyState := CLOSED\<rparr>"

definition pws_send :: "'d \<Rightarrow> ('l, 'd) pws \<Rightarrow> ('l, 'd) pws" where
  "pws_send d s =
     (let (k, rs) = newPromiseTriplet (send_results s)
      in if readyState s = CLOSED then s\<lparr>send_results := reject k ConnectionClosed rs\<rparr>
         else then_do (current s) (SendReaction k d) (s\<lparr>send_results := rs\<rparr>))"

text \<open>What client code may do with the object: its calls, and a throw.\<close>

datatype ('l, 'd) api =
    ApiClose "nat option" "jsstring option"
  | ApiSend 'd
  | ApiAdd jsstring 'l options_arg
  | ApiRemove jsstring 'l options_arg
  | ApiThrow jserr

fun run_api :: "('l, 'd) api \<Rightarrow> ('l, 'd) pws \<Rightarrow> unit result \<times> ('l, 'd) pws" where
  "run_api (ApiClose code reason) s = (Inr (), pws_close code reason s)"
| "run_api (ApiSend d) s = (Inr (), pws_send d s)"
| "run_api (ApiAdd type l opts) s = addEventListener type l opts s"
| "run_api (ApiRemove type l opts) s = (Inr (), removeEventListener type l opts s)"
| "run_api (ApiThrow e) s = (Inl e, s)"

fun run_apis :: "('l, 'd) api list \<Rightarrow> ('l, 'd) pws \<Rightarrow> unit result \<times> ('l, 'd) pws" where
  "run_apis [] s = (Inr (), s)"
| "run_apis (a # as) s =
     (case run_api a s of
        (Inl e, s') \<Rightarrow> (Inl e, s')
      | (Inr _, s') \<Rightarrow> run_apis as s')"

text \<open>
  A client's listeners: what one of them does with an event may depend on the \<^verbatim>\<open>readyState\<close> it reads
  and on everything that the listeners were called with before.
\<close>

type_synonym ('l, 'd) client =
  "'l \<Rightarrow> 'd ws_event \<Rightarrow> ready_state \<Rightarrow> ('l \<times> 'd ws_event \<times> ready_state) list \<Rightarrow> ('l, 'd) api list"

definition call_listener ::
  "('l, 'd) client \<Rightarrow> 'l \<Rightarrow> 'd ws_event \<Rightarrow> ('l, 'd) pws \<Rightarrow> unit result \<times> 'd ws_event \<times> ('l, 'd) pws" where
  "call_listener react l e s =
     (let (r, s') = run_apis (react l e (readyState s) (heard s)) (s\<lparr>heard := heard s @ [(l, e, readyState s)]\<rparr>)
      in (r, e, s'))"

definition pws_dispatch :: "('l, 'd) client \<Rightarrow> 'd ws_event \<Rightarrow> ('l, 'd) pws \<Rightarrow> unit result \<times> ('l, 'd) pws" where
  "pws_dispatch react e s =
     (case dispatchEvent (call_listener react) e s of
        (Inl err, _, s') \<Rightarrow> (Inl err, s')
      | (Inr _, _, s') \<Rightarrow> (Inr (), s'))"

definition onopen :: "('l, 'd) client \<Rightarrow> nat \<Rightarrow> 'd \<Rightarrow> ('l, 'd) pws \<Rightarrow> ('l, 'd) pws" where
  "onopen react w d s =
     snd (pws_dispatch react (new_event ''open'' d)
       (settle_current (Fulfilled w)
         ((update_sock w (\<lambda>k. k\<lparr>timeout := False, onerror := True\<rparr>) s)
            \<lparr>attempts := 0, readyState := OPEN\<rparr>)))"

definition onclose :: "('l, 'd) client \<Rightarrow> settings \<Rightarrow> nat \<Rightarrow> 'd \<Rightarrow> ('l, 'd) pws \<Rightarrow> ('l, 'd) pws" where
  "onclose react opts w d s0 =
     (let s = update_sock w (\<lambda>k. k\<lparr>timeout := False\<rparr>) s0;
          opened = (readyState s = OPEN);
          closed = (readyState s = CLOSED);
          s1 = (if opened
                then (let (i, ps) = newPromiseTriplet (promises s) in s\<lparr>current := i, promises := ps\<rparr>)
                else s);
          (r, s2) = (if opened \<or> closed then pws_dispatch react (new_event ''close'' d) s1 else (Inr (), s1))
      in case r of
           Inl e \<Rightarrow> s2
         | Inr _ \<Rightarrow>
             if closed then settle_current (Rejected ConnectionClosed) s2
             else if \<not> opened \<and> set_maxRetries opts = Some (int (attempts s2))
             then settle_current (Rejected MaxRetriesExceeded)
                    (pws_close None None (s2\<lparr>attempts := attempts s2 + 1\<rparr>))
             else s2\<lparr>attempts := (if opened then attempts s2 else attempts s2 + 1),
                     reconnects := reconnects s2 @ [if opened then 0 else timer_delay (set_retryInterval opts)],
                     readyState := CONNECTING\<rparr>)"

definition createPersistentWebSocket :: "(jsstring \<Rightarrow> bool) \<Rightarrow> options \<Rightarrow> ('l, 'd) pws result" where
  "createPersistentWebSocket valid_url options =
     (if valid_url (url options)
      then Inr (pws_connect (with_defaults options)
             \<lparr>listeners = [], readyState = CONNECTING, attempts = 0, current = 0, promises = [Pending],
              socks = [], reconnects = [], reactions = [], microtasks = [], send_results = [], heard = []\<rparr>)
      else Inl SyntaxErr)"

section \<open>The event loop\<close>

datatype ('l, 'd) task =
    SockOpen nat 'd
  | SockMessage nat 'd
  | SockError nat 'd
  | SockClose nat 'd
  | ConnectTimeout nat
  | ReconnectTimer nat
  | Client "('l, 'd) api list"

text \<open>
  What the browser may do next: \<^verbatim>\<open>open\<close> only on a connecting socket, \<^verbatim>\<open>message\<close> only on an open one,
  \<^verbatim>\<open>close\<close> once, nothing after it; a timer that was set and not cleared.
\<close>

fun enabled :: "('l, 'd) task \<Rightarrow> ('l, 'd) pws \<Rightarrow> bool" where
  "enabled (SockOpen w d) s = (w < length (socks s) \<and> sstate (socks s ! w) = SConnecting)"
| "enabled (SockMessage w d) s = (w < length (socks s) \<and> sstate (socks s ! w) = SOpen)"
| "enabled (SockError w d) s = (w < length (socks s) \<and> live (socks s ! w))"
| "enabled (SockClose w d) s = (w < length (socks s) \<and> live (socks s ! w))"
| "enabled (ConnectTimeout w) s = (w < length (socks s) \<and> timeout (socks s ! w))"
| "enabled (ReconnectTimer i) s = (i < length (reconnects s))"
| "enabled (Client as) s = True"

fun run_task :: "('l, 'd) client \<Rightarrow> settings \<Rightarrow> ('l, 'd) task \<Rightarrow> ('l, 'd) pws \<Rightarrow> ('l, 'd) pws" where
  "run_task react opts (SockOpen w d) s = onopen react w d (update_sock w (\<lambda>k. k\<lparr>sstate := SOpen\<rparr>) s)"
| "run_task react opts (SockMessage w d) s = snd (pws_dispatch react (new_event ''message'' d) s)"
| "run_task react opts (SockError w d) s =
     (if onerror (socks s ! w) then snd (pws_dispatch react (new_event ''error'' d) s) else s)"
| "run_task react opts (SockClose w d) s =
     onclose react opts w d (update_sock w (\<lambda>k. k\<lparr>sstate := SClosed\<rparr>) s)"
| "run_task react opts (ConnectTimeout w) s =
     update_sock w (\<lambda>k. sock_close (Some 1000) (Some (js ''Connection timeout'')) (k\<lparr>timeout := False\<rparr>)) s"
| "run_task react opts (ReconnectTimer i) s =
     pws_connect opts (s\<lparr>reconnects := take i (reconnects s) @ drop (Suc i) (reconnects s)\<rparr>)"
| "run_task react opts (Client as) s = snd (run_apis as s)"

definition do_task :: "('l, 'd) client \<Rightarrow> settings \<Rightarrow> ('l, 'd) task \<Rightarrow> ('l, 'd) pws \<Rightarrow> ('l, 'd) pws" where
  "do_task react opts k s = run_microtasks (run_task react opts k s)"

definition do_tasks :: "('l, 'd) client \<Rightarrow> settings \<Rightarrow> ('l, 'd) task list \<Rightarrow> ('l, 'd) pws \<Rightarrow> ('l, 'd) pws" where
  "do_tasks react opts ks s = fold (do_task react opts) ks s"

inductive pws_step :: "('l, 'd) client \<Rightarrow> settings \<Rightarrow> ('l, 'd) pws \<Rightarrow> ('l, 'd) pws \<Rightarrow> bool"
  for react :: "('l, 'd) client" and opts :: settings where
  pws_task [step_intros]: "enabled k s \<Longrightarrow> pws_step react opts s (do_task react opts k s)"

definition pws_start :: "(jsstring \<Rightarrow> bool) \<Rightarrow> options \<Rightarrow> ('l, 'd) pws \<Rightarrow> bool" where
  "pws_start valid_url options s = (createPersistentWebSocket valid_url options = Inr s)"

end
