(* ===== verification/Web_Socket_Conn.thy ===== *)
theory Web_Socket_Conn
  imports Exchange Wire_Roundtrip Persistent_Web_Socket
begin

text \<open>
  createWebSocketConn.ts and createWebSocketWriter.ts: the connection over a socket. Incoming
  Blobs are parsed asynchronously, so a parse is a pending task that may complete at any later
  time; a parsed message goes into the promise exchange from which \<^verbatim>\<open>read\<close> takes. The facts: reads
  get the messages in the order their parses complete, a closed connection leaves no reader
  waiting, and what one side writes the other side reads.
\<close>

section \<open>Definitions\<close>

definition isPartialWebSocket :: "jsval \<Rightarrow> bool" where
  "isPartialWebSocket obj = (isObj obj \<and> typeof (js_get obj (js ''send'')) = ''function'' \<and>
     typeof (js_get obj (js ''addEventListener'')) = ''function'')"

text \<open>The socket a connection is made over: the one given, or a persistent one to an URL or with
  options.\<close>

datatype conn_socket = GivenSocket jsval | PersistentTo jsval | PersistentWith jsval

definition select_socket :: "jsval \<Rightarrow> conn_socket" where
  "select_socket arg =
     (if isPartialWebSocket arg then GivenSocket arg
      else if typeof arg = ''string'' then PersistentTo arg
      else PersistentWith arg)"

text \<open>A persistent socket as a value: the object that \<^verbatim>\<open>createPersistentWebSocket\<close> returns.\<close>

definition persistent_val :: "settings \<Rightarrow> 64 word \<Rightarrow> nat \<Rightarrow> jsval" where
  "persistent_val sets state f =
     JObject [(js ''binaryType'', (case set_binaryType sets of Some b \<Rightarrow> JString b | None \<Rightarrow> JUndefined)), (js ''url'', JString (set_url sets)),
       (js ''addEventListener'', JFunction (OtherFn f)), (js ''removeEventListener'', JFunction (OtherFn f)),
       (js ''readyState'', JNumber state), (js ''send'', JFunction (OtherFn f)), (js ''close'', JFunction (OtherFn f))]"

record ws_conn =
  exch :: "message pexchange"
  closed :: bool
  parsing :: "(nat \<times> blob) list"
  next_parse :: nat

definition createWebSocketConn :: ws_conn where
  "createWebSocketConn = \<lparr>exch = createPromiseExchange, closed = False, parsing = [], next_parse = 0\<rparr>"

definition conn_read :: "ws_conn \<Rightarrow> nat result \<times> ws_conn" where
  "conn_read c =
     (if closed c then (Inl ConnectionClosed, c)
      else (let (i, x) = pe_take (exch c) in (Inr i, c\<lparr>exch := x\<rparr>)))"

text \<open>The \<^verbatim>\<open>message\<close> listener up to its \<^verbatim>\<open>await\<close>, and what follows when the parse has completed. Both
  throws are rejections of the listener's own promise, which nothing handles.\<close>

definition on_message :: "jsval \<Rightarrow> ws_conn \<Rightarrow> unit result \<times> ws_conn" where
  "on_message data c =
     (case data of
        JBlob b \<Rightarrow> (Inr (), c\<lparr>parsing := parsing c @ [(next_parse c, b)], next_parse := next_parse c + 1\<rparr>)
      | _ \<Rightarrow> (Inl UnexpectedNonBinary, c))"

definition on_parsed :: "('z) unicode_scheme \<Rightarrow> nat \<Rightarrow> ws_conn \<Rightarrow> unit result \<times> ws_conn" where
  "on_parsed u i c =
     (case map_of (parsing c) i of
        None \<Rightarrow> (Inr (), c)
      | Some b \<Rightarrow>
          (let c' = c\<lparr>parsing := filter (\<lambda>p. fst p \<noteq> i) (parsing c)\<rparr>
           in case parseMessageFromBlob u b of
                Inl e \<Rightarrow> (Inl e, c')
              | Inr m \<Rightarrow> (Inr (), c'\<lparr>exch := pe_give m (exch c')\<rparr>)))"

definition reject_all :: "nat list \<Rightarrow> message promises \<Rightarrow> message promises" where
  "reject_all is ps = fold (\<lambda>i. reject i ConnectionClosed) is ps"

definition on_close :: "ready_state \<Rightarrow> ws_conn \<Rightarrow> ws_conn" where
  "on_close rs c =
     (if rs = CLOSED
      then c\<lparr>closed := True,
             exch := (exch c)\<lparr>fstate := reject_all (exch_taken (exch c)) (fstate (exch c))\<rparr>\<rparr>
      else c)"

text \<open>The writer: \<^verbatim>\<open>arrayBuffer()\<close> is asynchronous, then the bytes go to \<^verbatim>\<open>ws.send\<close>.\<close>

record ws_writer =
  buffering :: "(nat \<times> byte list) list"
  next_write :: nat
  ws_sent :: "byte list list"

definition createWebSocketWriter :: ws_writer where
  "createWebSocketWriter = \<lparr>buffering = [], next_write = 0, ws_sent = []\<rparr>"

definition write_message :: "message \<Rightarrow> ws_writer \<Rightarrow> ws_writer" where
  "write_message m w = w\<lparr>buffering := buffering w @ [(next_write w, blob_bytes (createBlobFromMessage m))],
     next_write := next_write w + 1\<rparr>"

definition on_buffered :: "nat \<Rightarrow> ws_writer \<Rightarrow> ws_writer" where
  "on_buffered i w =
     (case map_of (buffering w) i of
        None \<Rightarrow> w
      | Some bs \<Rightarrow> w\<lparr>buffering := filter (\<lambda>p. fst p \<noteq> i) (buffering w), ws_sent := ws_sent w @ [bs]\<rparr>)"

section \<open>Runs of a connection\<close>

datatype conn_event = Read | Incoming jsval | Parsed nat | Closing ready_state

fun conn_do :: "('z) unicode_scheme \<Rightarrow> conn_event \<Rightarrow> ws_conn \<Rightarrow> nat result list \<times> ws_conn" where
  "conn_do u Read c = (let (r, c') = conn_read c in ([r], c'))"
| "conn_do u (Incoming v) c = ([], snd (on_message v c))"
| "conn_do u (Parsed i) c = ([], snd (on_parsed u i c))"
| "conn_do u (Closing rs) c = ([], on_close rs c)"

text \<open>The results of the reads, in order, and the state after the events.\<close>

fun conn_run :: "('z) unicode_scheme \<Rightarrow> conn_event list \<Rightarrow> ws_conn \<Rightarrow> nat result list \<times> ws_conn" where
  "conn_run u [] c = ([], c)"
| "conn_run u (e # es) c =
     (let (rs, c') = conn_do u e c; (rs', c'') = conn_run u es c' in (rs @ rs', c''))"

text \<open>The Blobs that arrived, and the messages among the results of parsing them.\<close>

fun arrivals :: "conn_event list \<Rightarrow> blob list" where
  "arrivals [] = []"
| "arrivals (Incoming (JBlob b) # es) = b # arrivals es"
| "arrivals (_ # es) = arrivals es"

fun oks :: "('e + 'a) list \<Rightarrow> 'a list" where
  "oks [] = []"
| "oks (Inl e # rs) = oks rs"
| "oks (Inr x # rs) = x # oks rs"

fun parses_in_order :: "('z) unicode_scheme \<Rightarrow> conn_event list \<Rightarrow> ws_conn \<Rightarrow> bool" where
  "parses_in_order u [] c = True"
| "parses_in_order u (e # es) c =
     ((case e of Parsed i \<Rightarrow> parsing c \<noteq> [] \<and> fst (hd (parsing c)) = i | _ \<Rightarrow> True) \<and>
      parses_in_order u es (snd (conn_do u e c)))"

section \<open>Which socket a connection uses\<close>

lemma persistent_socket_given:
  "select_socket (persistent_val sets state f) = GivenSocket (persistent_val sets state f)"
proof -
  have names: "distinct (map js [''binaryType'', ''url'', ''addEventListener'', ''removeEventListener'', ''readyState'',
      ''send'', ''close''])" by code_simp
  obtain ps where ps: "persistent_val sets state f = JObject ps" "obj_keys ps = map js [''binaryType'', ''url'',
      ''addEventListener'', ''removeEventListener'', ''readyState'', ''send'', ''close'']"
    "(js ''send'', JFunction (OtherFn f)) \<in> set ps" "(js ''addEventListener'', JFunction (OtherFn f)) \<in> set ps"
    by (simp add: persistent_val_def)
  then have "obj_wf ps" using names by simp
  then have "js_get (JObject ps) k = v" if "(k, v) \<in> set ps" for k v
    using that by (simp add: js_get_JObject obj_get_Some_iff [THEN iffD2])
  with ps(3,4) have "js_get (JObject ps) (js ''send'') = JFunction (OtherFn f)"
    "js_get (JObject ps) (js ''addEventListener'') = JFunction (OtherFn f)" by blast+
  then show ?thesis
    by (simp add: select_socket_def isPartialWebSocket_def isObj_def ps(1))
qed

text \<open>
  A browser's socket and a persistent one are used as they are; a string or an options object makes
  a new persistent socket.
\<close>

lemma select_socket_cases:
  "select_socket (JSocket n) = GivenSocket (JSocket n)"
  "select_socket (persistent_val sets state f) = GivenSocket (persistent_val sets state f)"
  "select_socket (JString to) = PersistentTo (JString to)"
  "obj_wf ps \<Longrightarrow> js ''send'' \<notin> set (obj_keys ps) \<Longrightarrow> select_socket (JObject ps) = PersistentWith (JObject ps)"
proof -
  show "select_socket (JSocket n) = GivenSocket (JSocket n)"
    by (simp add: select_socket_def isPartialWebSocket_def isObj_def js_get_def socket_methods_def obj_get_Nil)
  show "select_socket (persistent_val sets state f) = GivenSocket (persistent_val sets state f)"
    by (rule persistent_socket_given)
  show "select_socket (JString to) = PersistentTo (JString to)"
    by (simp add: select_socket_def isPartialWebSocket_def isObj_def)
  show "select_socket (JObject ps) = PersistentWith (JObject ps)" if "obj_wf ps" "js ''send'' \<notin> set (obj_keys ps)"
    using that obj_get_None_iff [of ps "js ''send''"]
    by (simp add: select_socket_def isPartialWebSocket_def js_get_JObject)
qed

lemma oks_append [simp]: "oks (xs @ ys) = oks xs @ oks ys"
  by (induction xs rule: oks.induct) auto

definition parses_ok :: "ws_conn \<Rightarrow> bool" where
  "parses_ok c = (distinct (map fst (parsing c)) \<and> (\<forall>i \<in> set (map fst (parsing c)). i < next_parse c))"

lemma parses_ok_exch: "parses_ok (c\<lparr>exch := x\<rparr>) = parses_ok c"
  by (simp add: parses_ok_def)

lemma on_parsed_exch:
  "exch (snd (on_parsed u i c)) =
     (case map_of (parsing c) i of None \<Rightarrow> exch c
      | Some b \<Rightarrow> (case parseMessageFromBlob u b of Inl e \<Rightarrow> exch c | Inr m \<Rightarrow> pe_give m (exch c)))"
  by (auto simp: on_parsed_def Let_def split: option.splits sum.splits)

lemma on_parsed_frame:
  "closed (snd (on_parsed u i c)) = closed c" "next_parse (snd (on_parsed u i c)) = next_parse c"
  "parsing (snd (on_parsed u i c)) = filter (\<lambda>p. fst p \<noteq> i) (parsing c)"
proof -
  have "filter (\<lambda>p. fst p \<noteq> i) (parsing c) = parsing c" if "map_of (parsing c) i = None"
    using that by (auto simp: map_of_eq_None_iff intro!: filter_True)
  then show "closed (snd (on_parsed u i c)) = closed c" "next_parse (snd (on_parsed u i c)) = next_parse c"
    "parsing (snd (on_parsed u i c)) = filter (\<lambda>p. fst p \<noteq> i) (parsing c)"
    by (auto simp: on_parsed_def Let_def split: option.splits sum.splits)
qed

lemma on_message_frame:
  "closed (snd (on_message v c)) = closed c" "exch (snd (on_message v c)) = exch c"
  by (auto simp: on_message_def split: jsval.splits)

lemma on_message_parses_ok: "parses_ok c \<Longrightarrow> parses_ok (snd (on_message v c))"
  by (auto simp: on_message_def parses_ok_def split: jsval.splits)

lemma on_parsed_parses_ok: "parses_ok c \<Longrightarrow> parses_ok (snd (on_parsed u i c))"
  by (auto simp: parses_ok_def on_parsed_frame distinct_map_filter)

section \<open>Reads get the messages in order\<close>

lemma on_parsed_hd:
  assumes "parses_ok c" and "parsing c = (i, b) # ps"
  shows "parsing (snd (on_parsed u i c)) = ps"
    and "exch (snd (on_parsed u i c)) = (case parseMessageFromBlob u b of Inl e \<Rightarrow> exch c | Inr m \<Rightarrow> pe_give m (exch c))"
proof -
  have "i \<notin> set (map fst ps)" using assms by (simp add: parses_ok_def)
  then have "filter (\<lambda>p. fst p \<noteq> i) ps = ps" by (auto intro!: filter_True)
  with assms(2) show "parsing (snd (on_parsed u i c)) = ps" by (simp add: on_parsed_frame)
  from assms(2) show "exch (snd (on_parsed u i c)) =
      (case parseMessageFromBlob u b of Inl e \<Rightarrow> exch c | Inr m \<Rightarrow> pe_give m (exch c))"
    by (simp add: on_parsed_exch)
qed

text \<open>The messages delivered so far and those whose parse is pending, for an open connection.\<close>

definition open_inv :: "message list \<Rightarrow> nat \<Rightarrow> ws_conn \<Rightarrow> bool" where
  "open_inv ms t c = (pe_inv ms t (exch c) \<and> \<not> closed c \<and> parses_ok c)"

definition awaited :: "('z) unicode_scheme \<Rightarrow> ws_conn \<Rightarrow> message list" where
  "awaited u c = oks (map (parseMessageFromBlob u) (map snd (parsing c)))"

lemma conn_step_open:
  assumes "open_inv ms t c" and "parses_in_order u [e] c" and "e \<noteq> Closing CLOSED"
    and "conn_do u e c = (rs, c')"
  shows "\<exists>ds. open_inv (ms @ ds) (t + length rs) c' \<and> rs = map Inr [t..<t + length rs] \<and>
    ds @ awaited u c' = awaited u c @ oks (map (parseMessageFromBlob u) (arrivals [e]))"
proof (cases e)
  case Read
  with assms(1,4) pe_take_inv [of ms t "exch c"] have "rs = [Inr t]" "open_inv ms (Suc t) c'" "parsing c' = parsing c"
    by (auto simp: open_inv_def conn_read_def split_beta parses_ok_exch)
  with Read show ?thesis by (intro exI [of _ "[]"]) (simp add: awaited_def)
next
  case (Incoming v)
  with assms(4) have c': "c' = snd (on_message v c)" "rs = []" by auto
  with assms(1) have "open_inv ms t c'"
    by (simp add: open_inv_def on_message_frame on_message_parses_ok)
  moreover have "awaited u c' = awaited u c @ oks (map (parseMessageFromBlob u) (arrivals [e]))"
    using Incoming c' by (cases v) (auto simp: awaited_def on_message_def)
  ultimately show ?thesis using c' by (intro exI [of _ "[]"]) simp
next
  case (Parsed i)
  then obtain b ps where p: "parsing c = (i, b) # ps" using assms(2) by (cases "parsing c") auto
  have ok: "parses_ok c" using assms(1) by (simp add: open_inv_def)
  from assms(4) Parsed have c': "c' = snd (on_parsed u i c)" "rs = []" by auto
  note hd1 = on_parsed_hd [OF ok p, of u]
  show ?thesis
  proof (cases "parseMessageFromBlob u b")
    case (Inl x)
    with hd1 c' assms(1) p Parsed show ?thesis
      by (intro exI [of _ "[]"]) (simp add: open_inv_def on_parsed_frame on_parsed_parses_ok awaited_def)
  next
    case (Inr m)
    with hd1 c' assms(1) p Parsed pe_give_inv [of ms t "exch c" m] show ?thesis
      by (intro exI [of _ "[m]"]) (simp add: open_inv_def on_parsed_frame on_parsed_parses_ok awaited_def)
  qed
next
  case (Closing rs')
  with assms have "c' = c" "rs = []" by (auto simp: on_close_def)
  with assms(1) Closing show ?thesis by (intro exI [of _ "[]"]) simp
qed

lemma arrivals_Cons: "arrivals (e # es) = arrivals [e] @ arrivals es"
proof (cases e)
  case (Incoming v)
  then show ?thesis by (cases v) simp_all
qed simp_all

lemma map_Inr_upt:
  assumes "r1 = map Inr [t..<t + length r1]" and "r2 = map Inr [t + length r1..<t + length r1 + length r2]"
  shows "r1 @ r2 = map Inr [t..<t + length (r1 @ r2)]"
proof -
  have "[t..<t + length (r1 @ r2)] = [t..<t + length r1] @ [t + length r1..<t + length r1 + length r2]"
    using upt_add_eq_append [of t "t + length r1" "length r2"] by (simp add: add.assoc)
  then show ?thesis using assms by (metis map_append)
qed

lemma new_conn_open: "open_inv [] 0 createWebSocketConn"
  by (simp add: open_inv_def createWebSocketConn_def pe_inv_def createPromiseExchange_def exch_inv_new
      queue_cells_def parses_ok_def) (simp add: newExchange_def)

lemma conn_run_open:
  assumes "open_inv ms t c" and "parses_in_order u es c" and "Closing CLOSED \<notin> set es"
    and "conn_run u es c = (rs, c')"
  shows "\<exists>ds. open_inv (ms @ ds) (t + length rs) c' \<and> rs = map Inr [t..<t + length rs] \<and>
    ds @ awaited u c' = awaited u c @ oks (map (parseMessageFromBlob u) (arrivals es))"
  using assms
proof (induction es arbitrary: ms t c rs)
  case Nil
  then show ?case by (intro exI [of _ "[]"]) simp
next
  case (Cons e es)
  obtain r1 c1 where c1: "conn_do u e c = (r1, c1)" by (cases "conn_do u e c")
  obtain r2 where r2: "conn_run u es c1 = (r2, c')" "rs = r1 @ r2"
    using Cons.prems(4) c1 by (auto simp: split_beta prod_eq_iff)
  obtain ds where ds: "open_inv (ms @ ds) (t + length r1) c1" "r1 = map Inr [t..<t + length r1]"
    "ds @ awaited u c1 = awaited u c @ oks (map (parseMessageFromBlob u) (arrivals [e]))"
    using conn_step_open [OF Cons.prems(1) _ _ c1] Cons.prems(2,3) by auto
  obtain ds2 where ds2: "open_inv ((ms @ ds) @ ds2) (t + length r1 + length r2) c'"
    "r2 = map Inr [t + length r1..<t + length r1 + length r2]"
    "ds2 @ awaited u c' = awaited u c1 @ oks (map (parseMessageFromBlob u) (arrivals es))"
    using Cons.IH [OF ds(1) _ _ r2(1)] Cons.prems(2,3) c1 by auto
  have "rs = map Inr [t..<t + length rs]"
    using map_Inr_upt [OF ds(2) ds2(2)] r2(2) by simp
  moreover have "(ds @ ds2) @ awaited u c' = awaited u c @ oks (map (parseMessageFromBlob u) (arrivals (e # es)))"
    unfolding arrivals_Cons [of e es] map_append oks_append append_assoc ds2(3)
    using ds(3) by (simp only: append_assoc [symmetric])
  moreover have "open_inv (ms @ ds @ ds2) (t + length rs) c'" using ds2(1) r2(2) by (simp add: add.assoc)
  ultimately show ?case by blast
qed

text \<open>
  C8: while the connection is open and the parses complete in the order of arrival, the k-th
  \<^verbatim>\<open>read\<close> returns promise k, and the promises are fulfilled with the messages that arrived, in
  order: those delivered followed by those whose parse is pending are all the messages that parse.
\<close>

theorem conn_reads_in_order:
  assumes "parses_in_order u es createWebSocketConn" and "Closing CLOSED \<notin> set es"
    and "conn_run u es createWebSocketConn = (rs, c)"
  shows "rs = map Inr [0..<length rs] \<and>
    (\<exists>ds. ds @ awaited u c = oks (map (parseMessageFromBlob u) (arrivals es)) \<and>
       fstate (exch c) = map Fulfilled ds @ replicate (length rs - length ds) Pending)"
proof -
  from conn_run_open [OF new_conn_open assms] obtain ds where ds: "open_inv ds (length rs) c" "rs = map Inr [0..<length rs]"
    "ds @ awaited u c = awaited u createWebSocketConn @ oks (map (parseMessageFromBlob u) (arrivals es))"
    by auto
  moreover have "awaited u createWebSocketConn = []" by (simp add: awaited_def createWebSocketConn_def)
  ultimately show ?thesis by (auto simp: open_inv_def pe_inv_def queue_cells_def)
qed

text \<open>
  Nothing makes the parses complete in the order of arrival: when that of the second of two
  Blobs completes first, the first read gets the second message.
\<close>

lemma conn_may_reorder:
  assumes "parseMessageFromBlob u b1 = Inr m1" and "parseMessageFromBlob u b2 = Inr m2"
  shows "let (rs, c) = conn_run u [Incoming (JBlob b1), Incoming (JBlob b2), Parsed 1, Parsed 0, Read, Read]
      createWebSocketConn
    in rs = [Inr 0, Inr 1] \<and> fstate (exch c) = [Fulfilled m2, Fulfilled m1]"
  using assms
  by (simp add: createWebSocketConn_def on_message_def on_parsed_def conn_read_def pe_give_def pe_take_def
      createPromiseExchange_def newExchange_def exch_give_def exch_take_def exch_set_def newPromiseTriplet_def
      settle_def promise_at_def Let_def)

section \<open>A closed connection leaves no reader waiting\<close>

text \<open>Once settled, a promise of the exchange stays as it is.\<close>

lemma pe_give_settled:
  "promise_at (fstate x) j \<noteq> Pending \<Longrightarrow> promise_at (fstate (pe_give m x)) j \<noteq> Pending"
  by (auto simp: pe_give_def exch_give_def exch_set_def split_beta promise_at_settle promise_at_new)

lemma reject_all_at:
  "promise_at (reject_all is ps) j =
     (if j \<in> set is \<and> j < length ps \<and> promise_at ps j = Pending then Rejected ConnectionClosed else promise_at ps j)"
proof (induction "is" arbitrary: ps)
  case (Cons i "is")
  then show ?case by (auto simp: reject_all_def promise_at_settle)
qed (simp add: reject_all_def)

definition closed_inv :: "nat \<Rightarrow> ws_conn \<Rightarrow> bool" where
  "closed_inv t c = (closed c \<and> (\<forall>i < t. promise_at (fstate (exch c)) i \<noteq> Pending))"

lemma close_settles:
  assumes "open_inv ms t c"
  shows "closed_inv t (on_close CLOSED c)"
proof -
  have pe: "pe_inv ms t (exch c)" using assms by (simp add: open_inv_def)
  then have x: "exch_inv length (\<lambda>k. k) (exch c)" "exch_gives length (exch c) = length ms"
    "exch_takes length (exch c) = t" "fstate (exch c) = queue_cells ms t"
    by (simp_all add: pe_inv_def)
  have taken: "exch_taken (exch c) = [length ms..<t]"
    using triplets.views(2) [OF x(1)] x(2,3) by simp
  have "promise_at (queue_cells ms t) i = (if i < length ms then Fulfilled (ms ! i) else Pending)"
    "i < length (queue_cells ms t)" if "i < t" for i
    using that by (auto simp: queue_cells_def promise_at_def nth_append)
  then have "promise_at (reject_all [length ms..<t] (queue_cells ms t)) i \<noteq> Pending" if "i < t" for i
    using that by (auto simp: reject_all_at)
  then show ?thesis using taken x(4) by (simp add: closed_inv_def on_close_def)
qed

lemma closed_stays:
  assumes "closed_inv t c" and "conn_run u es c = (rs, c')"
  shows "closed_inv t c' \<and> set rs \<subseteq> {Inl ConnectionClosed}"
  using assms
proof (induction es arbitrary: c rs)
  case (Cons e es)
  obtain r1 c1 where c1: "conn_do u e c = (r1, c1)" by (cases "conn_do u e c")
  obtain r2 where r2: "conn_run u es c1 = (r2, c')" "rs = r1 @ r2"
    using Cons.prems(2) c1 by (auto simp: split_beta prod_eq_iff)
  have "closed_inv t c1 \<and> set r1 \<subseteq> {Inl ConnectionClosed}"
  proof (cases e)
    case (Parsed i)
    with c1 Cons.prems(1) show ?thesis
      by (auto simp: closed_inv_def on_parsed_frame on_parsed_exch pe_give_settled split: option.splits sum.splits)
  next
    case (Closing rs')
    with c1 Cons.prems(1) show ?thesis
      by (auto simp: closed_inv_def on_close_def reject_all_at split: if_splits)
  qed (use c1 Cons.prems(1) in \<open>auto simp: closed_inv_def conn_read_def on_message_frame\<close>)
  with Cons.IH r2 show ?case by auto
qed simp

lemma conn_step_any:
  assumes "open_inv ms t c" and "e \<noteq> Closing CLOSED" and "conn_do u e c = (rs, c')"
  shows "\<exists>ds. open_inv (ms @ ds) (t + length rs) c' \<and> rs = map Inr [t..<t + length rs]"
proof (cases e)
  case (Parsed i)
  with assms(3) have c': "c' = snd (on_parsed u i c)" "rs = []" by auto
  have "exch c' = exch c \<or> (\<exists>m. exch c' = pe_give m (exch c))"
    using c' by (auto simp: on_parsed_exch split: option.splits sum.splits)
  then show ?thesis
  proof
    assume "exch c' = exch c"
    with assms(1) c' show ?thesis
      by (intro exI [of _ "[]"]) (simp add: open_inv_def on_parsed_frame on_parsed_parses_ok)
  next
    assume "\<exists>m. exch c' = pe_give m (exch c)"
    then obtain m where "exch c' = pe_give m (exch c)" by blast
    with assms(1) c' pe_give_inv [of ms t "exch c" m] show ?thesis
      by (intro exI [of _ "[m]"]) (simp add: open_inv_def on_parsed_frame on_parsed_parses_ok)
  qed
next
  case Read
  with conn_step_open [OF assms(1) _ assms(2,3)] show ?thesis by auto
next
  case (Incoming v)
  with conn_step_open [OF assms(1) _ assms(2,3)] show ?thesis by auto
next
  case (Closing r)
  with conn_step_open [OF assms(1) _ assms(2,3)] show ?thesis by auto
qed

lemma conn_run_any:
  assumes "open_inv ms t c" and "Closing CLOSED \<notin> set es" and "conn_run u es c = (rs, c')"
  shows "\<exists>ds. open_inv (ms @ ds) (t + length rs) c' \<and> rs = map Inr [t..<t + length rs]"
  using assms
proof (induction es arbitrary: ms t c rs)
  case Nil
  then show ?case by (intro exI [of _ "[]"]) simp
next
  case (Cons e es)
  obtain r1 c1 where c1: "conn_do u e c = (r1, c1)" by (cases "conn_do u e c")
  obtain r2 where r2: "conn_run u es c1 = (r2, c')" "rs = r1 @ r2"
    using Cons.prems(3) c1 by (auto simp: split_beta prod_eq_iff)
  obtain ds where ds: "open_inv (ms @ ds) (t + length r1) c1" "r1 = map Inr [t..<t + length r1]"
    using conn_step_any [OF Cons.prems(1) _ c1] Cons.prems(2) by auto
  obtain ds2 where ds2: "open_inv ((ms @ ds) @ ds2) (t + length r1 + length r2) c'"
    "r2 = map Inr [t + length r1..<t + length r1 + length r2]"
    using Cons.IH [OF ds(1) _ r2(1)] Cons.prems(2) by auto
  have "rs = map Inr [t..<t + length rs]"
    using map_Inr_upt [OF ds(2) ds2(2)] r2(2) by simp
  moreover have "open_inv (ms @ ds @ ds2) (t + length rs) c'" using ds2(1) r2(2) by (simp add: add.assoc)
  ultimately show ?case by blast
qed

text \<open>
  C9: when the connection closes for good, no reader is left waiting: whatever happened before and
  whatever happens after, the promise of every earlier \<^verbatim>\<open>read\<close> is settled, and every later \<^verbatim>\<open>read\<close>
  is rejected with \<^verbatim>\<open>ConnectionClosed\<close>.
\<close>

theorem closed_conn_settles_reads:
  assumes "Closing CLOSED \<notin> set es" and "conn_run u es createWebSocketConn = (rs, c)"
    and "conn_run u (Closing CLOSED # es') c = (rs', c')"
  shows "(\<forall>i < length rs. rs ! i = Inr i \<and> promise_at (fstate (exch c')) i \<noteq> Pending) \<and>
    set rs' \<subseteq> {Inl ConnectionClosed}"
proof -
  obtain ms where inv: "open_inv ms (length rs) c" "rs = map Inr [0..<length rs]"
    using conn_run_any [OF new_conn_open assms(1,2)] by auto
  obtain rs2 where run: "conn_run u es' (on_close CLOSED c) = (rs2, c')" "rs' = rs2"
    using assms(3) by (auto simp: split_beta prod_eq_iff)
  from closed_stays [OF close_settles [OF inv(1)] run(1)] run(2)
  have closed: "closed_inv (length rs) c'" "set rs' \<subseteq> {Inl ConnectionClosed}" by simp_all
  have "rs ! i = Inr i" if "i < length rs" for i
    using that inv(2) by (metis length_map nth_map nth_upt add_0 length_upt minus_nat.diff_0)
  with closed show ?thesis by (simp add: closed_inv_def)
qed

section \<open>From one side to the other\<close>

lemma parse_depends_on_bytes:
  "blob_bytes b = blob_bytes b' \<Longrightarrow> parseMessageFromBlob u b = parseMessageFromBlob u b'"
  by (simp add: parseMessageFromBlob_def extract_prefix blob_slice_from_def blob_slice_def blob_size_def)

text \<open>
  What happens on the writing side: \<^verbatim>\<open>write\<close> is called, and the bytes of an earlier write become ready.
  They become ready in the order of the writes when it is always the oldest whose bytes do.
\<close>

datatype write_event = Write message | Buffered nat

fun writer_do :: "write_event \<Rightarrow> ws_writer \<Rightarrow> ws_writer" where
  "writer_do (Write m) w = write_message m w"
| "writer_do (Buffered i) w = on_buffered i w"

fun buffers_in_order :: "write_event list \<Rightarrow> ws_writer \<Rightarrow> bool" where
  "buffers_in_order [] w = True"
| "buffers_in_order (e # es) w =
     ((case e of Buffered i \<Rightarrow> buffering w \<noteq> [] \<and> fst (hd (buffering w)) = i | _ \<Rightarrow> True) \<and>
      buffers_in_order es (writer_do e w))"

fun written_by :: "write_event list \<Rightarrow> message list" where
  "written_by [] = []"
| "written_by (Write m # es) = m # written_by es"
| "written_by (Buffered i # es) = written_by es"

definition writes_ok :: "ws_writer \<Rightarrow> bool" where
  "writes_ok w = (distinct (map fst (buffering w)) \<and> (\<forall>i \<in> set (map fst (buffering w)). i < next_write w))"

lemma writer_do_ok: "writes_ok w \<Longrightarrow> writes_ok (writer_do e w)"
  by (cases e) (auto simp: writes_ok_def write_message_def on_buffered_def distinct_map_filter split: option.splits)

lemma on_buffered_hd:
  assumes "writes_ok w" and "buffering w = (i, bs) # ps"
  shows "buffering (on_buffered i w) = ps" "ws_sent (on_buffered i w) = ws_sent w @ [bs]"
proof -
  have "i \<notin> set (map fst ps)" using assms by (simp add: writes_ok_def)
  then have "filter (\<lambda>p. fst p \<noteq> i) ps = ps" by (auto intro!: filter_True)
  with assms(2) show "buffering (on_buffered i w) = ps" "ws_sent (on_buffered i w) = ws_sent w @ [bs]"
    by (simp_all add: on_buffered_def)
qed

lemma writer_run_sent:
  assumes "writes_ok w" and "buffers_in_order es w"
  shows "ws_sent (fold writer_do es w) @ map snd (buffering (fold writer_do es w)) =
    ws_sent w @ map snd (buffering w) @ map (\<lambda>m. blob_bytes (createBlobFromMessage m)) (written_by es)"
  using assms
proof (induction es arbitrary: w)
  case (Cons e es)
  have IH: "ws_sent (fold writer_do es (writer_do e w)) @ map snd (buffering (fold writer_do es (writer_do e w))) =
      ws_sent (writer_do e w) @ map snd (buffering (writer_do e w)) @ map (\<lambda>m. blob_bytes (createBlobFromMessage m)) (written_by es)"
    using Cons writer_do_ok by simp
  show ?case
  proof (cases e)
    case (Write m)
    with IH show ?thesis by (simp add: write_message_def)
  next
    case (Buffered i)
    then obtain bs ps where "buffering w = (i, bs) # ps" using Cons.prems(2) by (cases "buffering w") auto
    with IH Buffered on_buffered_hd [OF Cons.prems(1)] show ?thesis by simp
  qed
qed simp

text \<open>A message as its reader gets it: the headers in the order of an object's keys, the body as one Blob.\<close>

definition as_read :: "message \<Rightarrow> message" where
  "as_read m = \<lparr>headers = own_order (headers m), body = mk_blob (blob_bytes (body m))\<rparr>"

lemma parse_written:
  assumes "wire_message u m" and "header_of m Header_Length = Some (dec_string (blob_size (body m)))"
    and "blob_bytes b = blob_bytes (createBlobFromMessage m)"
  shows "parseMessageFromBlob u b = Inr (as_read m)"
  using parse_create_exact [OF assms(1,2)] parse_depends_on_bytes [OF assms(3), of u] by (simp add: as_read_def)

lemma parse_all_written:
  assumes "map blob_bytes bs = map (\<lambda>m. blob_bytes (createBlobFromMessage m)) ms"
    and "\<forall>m \<in> set ms. wire_message u m \<and> header_of m Header_Length = Some (dec_string (blob_size (body m)))"
  shows "oks (map (parseMessageFromBlob u) bs) = map as_read ms"
  using assms
proof (induction ms arbitrary: bs)
  case (Cons m ms)
  then obtain b bs' where "bs = b # bs'" by (cases bs) auto
  with Cons parse_written [of u m b] show ?case by simp
qed simp

text \<open>
  C10: what one side writes the other side reads, in order. One side writes any number of messages,
  their bytes become ready in the order of the writes, and those handed to the socket so far arrive
  at the other side, as many as have arrived, as Blobs in the same order; there reads, arrivals and
  completed parses interleave in any way that keeps the order of the parses, without a final close.
  Then the k-th \<^verbatim>\<open>read\<close> gets the k-th message written, with its headers and the bytes of its body, as
  soon as it is parsed, and the reads beyond wait. Every message must have canonical header names and trimmed
  values (\<open>wire_message\<close>) and a Content-Length that is the size of its body.
\<close>

theorem written_messages_are_read:
  assumes "\<forall>m \<in> set (written_by ws). wire_message u m \<and> header_of m Header_Length = Some (dec_string (blob_size (body m)))"
    and "buffers_in_order ws createWebSocketWriter"
    and "map blob_bytes (arrivals es) = take n (ws_sent (fold writer_do ws createWebSocketWriter))"
    and "parses_in_order u es createWebSocketConn" and "Closing CLOSED \<notin> set es"
    and "conn_run u es createWebSocketConn = (rs, c)"
  shows "rs = map Inr [0..<length rs] \<and>
    (\<exists>k \<le> length (arrivals es). (parsing c = [] \<longrightarrow> k = length (arrivals es)) \<and>
       fstate (exch c) =
         map (\<lambda>m. Fulfilled \<lparr>headers = own_order (headers m), body = mk_blob (blob_bytes (body m))\<rparr>) (take k (written_by ws)) @
         replicate (length rs - k) Pending)"
proof -
  let ?ms = "take (length (arrivals es)) (written_by ws)"
  have "ws_sent (fold writer_do ws createWebSocketWriter) @ map snd (buffering (fold writer_do ws createWebSocketWriter)) =
      map (\<lambda>m. blob_bytes (createBlobFromMessage m)) (written_by ws)"
    using writer_run_sent [OF _ assms(2)] by (simp add: writes_ok_def createWebSocketWriter_def)
  then have "map blob_bytes (arrivals es) =
      take (length (map blob_bytes (arrivals es))) (map (\<lambda>m. blob_bytes (createBlobFromMessage m)) (written_by ws))"
    unfolding assms(3) by (metis append_take_drop_id append_eq_conv_conj append.assoc)
  then have arrived: "map blob_bytes (arrivals es) = map (\<lambda>m. blob_bytes (createBlobFromMessage m)) ?ms"
    by (simp add: take_map)
  moreover have "\<forall>m \<in> set ?ms. wire_message u m \<and> header_of m Header_Length = Some (dec_string (blob_size (body m)))"
    using assms(1) in_set_takeD by fast
  ultimately have oks: "oks (map (parseMessageFromBlob u) (arrivals es)) = map as_read ?ms" by (rule parse_all_written)
  obtain ds where ds: "open_inv ds (length rs) c" "rs = map Inr [0..<length rs]" "ds @ awaited u c = map as_read ?ms"
    using conn_run_open [OF new_conn_open assms(4-6)] oks by (auto simp: awaited_def createWebSocketConn_def)
  have len: "length ?ms = length (arrivals es)" using arrived by (metis length_map)
  have le: "length ds \<le> length (arrivals es)" using ds(3) len by (metis length_append length_map le_add1)
  have "ds = take (length ds) (map as_read ?ms)" using ds(3) by (metis append_eq_conv_conj)
  then have read: "ds = map as_read (take (length ds) (written_by ws))" using le by (simp add: take_map min_def)
  have "map Fulfilled ds = map (\<lambda>m. Fulfilled (as_read m)) (take (length ds) (written_by ws))" by (subst read) simp
  moreover have "parsing c = [] \<longrightarrow> length ds = length (arrivals es)"
    using ds(3) len by (auto simp: awaited_def dest: arg_cong [of _ _ length])
  moreover have "fstate (exch c) = map Fulfilled ds @ replicate (length rs - length ds) Pending"
    using ds(1) by (simp add: open_inv_def pe_inv_def queue_cells_def)
  ultimately show ?thesis using ds(2) le
    by (intro conjI exI [of _ "length ds"]) (simp_all add: as_read_def)
qed

end
