(* ===== verification/Plain_Conn.thy ===== *)
theory Plain_Conn
  imports Web_Socket_Conn
begin

text \<open>
  A connection over a socket of the browser that was passed to \<^verbatim>\<open>createWebSocketConn\<close>, in whatever state
  it is then. It has no reconnection: its close event comes once, with \<^verbatim>\<open>readyState\<close> CLOSED, and its
  \<^verbatim>\<open>send\<close> throws before it is open. The facts: over a socket that was not closed yet, the connection is
  closed exactly when the socket is, and then no reader waits; over one that was closed already, the
  connection never learns of it and every read waits for ever; what is written too early is lost.
\<close>

section \<open>Definitions\<close>

record plain =
  plain_sock :: "jsval sock"
  plain_conn :: ws_conn
  plain_writer :: ws_writer
  write_results :: "(nat \<times> unit result) list"

text \<open>The socket's \<^verbatim>\<open>readyState\<close>; CLOSING is none of the values that a persistent socket has.\<close>

fun sock_ready :: "sock_state \<Rightarrow> ready_state option" where
  "sock_ready SConnecting = Some CONNECTING"
| "sock_ready SOpen = Some OPEN"
| "sock_ready SClosing = None"
| "sock_ready SClosed = Some CLOSED"

text \<open>The close listener reads \<^verbatim>\<open>ws.readyState\<close>. The browser has set it to CLOSED when it calls the listener.\<close>

definition plain_on_close :: "plain \<Rightarrow> plain" where
  "plain_on_close s =
     (case sock_ready (sstate (plain_sock s)) of
        Some rs \<Rightarrow> s\<lparr>plain_conn := on_close rs (plain_conn s)\<rparr>
      | None \<Rightarrow> s)"

definition plain_close :: "plain \<Rightarrow> plain" where
  "plain_close s = plain_on_close (s\<lparr>plain_sock := (plain_sock s)\<lparr>sstate := SClosed\<rparr>\<rparr>)"

definition plain_message :: "jsval \<Rightarrow> plain \<Rightarrow> plain" where
  "plain_message d s = s\<lparr>plain_conn := snd (on_message d (plain_conn s))\<rparr>"

text \<open>The bytes of write \<open>i\<close> are ready and go to \<^verbatim>\<open>ws.send\<close>; the outcome settles the promise of that write.\<close>

definition plain_ready :: "nat \<Rightarrow> plain \<Rightarrow> plain" where
  "plain_ready i s =
     (case map_of (buffering (plain_writer s)) i of
        None \<Rightarrow> s
      | Some bs \<Rightarrow>
          (let (r, k) = sock_send (JBuffer bs) (plain_sock s)
           in s\<lparr>plain_sock := k, plain_writer := on_buffered i (plain_writer s), write_results := write_results s @ [(i, r)]\<rparr>))"

inductive plain_step :: "('z) unicode_scheme \<Rightarrow> plain \<Rightarrow> plain \<Rightarrow> bool" for u :: "('z) unicode_scheme" where
  p_open [step_intros]: "sstate (plain_sock s) = SConnecting \<Longrightarrow>
     plain_step u s (s\<lparr>plain_sock := (plain_sock s)\<lparr>sstate := SOpen\<rparr>\<rparr>)"
| p_message [step_intros]: "sstate (plain_sock s) = SOpen \<Longrightarrow> plain_step u s (plain_message d s)"
| p_closing [step_intros]: "plain_step u s (s\<lparr>plain_sock := sock_close code reason (plain_sock s)\<rparr>)"
| p_close [step_intros]: "live (plain_sock s) \<Longrightarrow> plain_step u s (plain_close s)"
| p_read [step_intros]: "plain_step u s (s\<lparr>plain_conn := snd (conn_read (plain_conn s))\<rparr>)"
| p_parsed [step_intros]: "plain_step u s (s\<lparr>plain_conn := snd (on_parsed u i (plain_conn s))\<rparr>)"
| p_write [step_intros]: "plain_step u s (s\<lparr>plain_writer := write_message m (plain_writer s)\<rparr>)"
| p_ready [step_intros]: "plain_step u s (plain_ready i s)"

definition plain_start :: "plain \<Rightarrow> bool" where
  "plain_start s = (\<exists>k. s = \<lparr>plain_sock = k, plain_conn = createWebSocketConn, plain_writer = createWebSocketWriter,
     write_results = []\<rparr>)"

section \<open>Closed with the socket\<close>

definition all_settled :: "ws_conn \<Rightarrow> bool" where
  "all_settled c = (Pending \<notin> set (fstate (exch c)))"

lemma plain_close_parts:
  "plain_close s = s\<lparr>plain_sock := (plain_sock s)\<lparr>sstate := SClosed\<rparr>, plain_conn := on_close CLOSED (plain_conn s)\<rparr>"
  by (simp add: plain_close_def plain_on_close_def)

text \<open>Over a socket that was not closed at the start.\<close>

definition plain_inv :: "plain \<Rightarrow> bool" where
  "plain_inv s =
     (if live (plain_sock s) then \<exists>ms t. open_inv ms t (plain_conn s)
      else closed (plain_conn s) \<and> all_settled (plain_conn s))"

lemma all_settled_at: "all_settled c \<longleftrightarrow> (\<forall>i < length (fstate (exch c)). promise_at (fstate (exch c)) i \<noteq> Pending)"
  by (auto simp: all_settled_def promise_at_def in_set_conv_nth)

lemma length_reject_all: "length (reject_all is ps) = length ps"
  by (induction "is" arbitrary: ps) (simp_all add: reject_all_def)

lemma close_all_settled:
  assumes "open_inv ms t c"
  shows "all_settled (on_close CLOSED c)" "closed (on_close CLOSED c)"
proof -
  have len: "length (fstate (exch c)) = max (length ms) t" "fstate (exch c) = queue_cells ms t"
    using assms by (auto simp: open_inv_def pe_inv_def queue_cells_def)
  have frame: "length (fstate (exch (on_close CLOSED c))) = length (fstate (exch c))"
    by (simp add: on_close_def length_reject_all)
  have "promise_at (fstate (exch (on_close CLOSED c))) i \<noteq> Pending" if "i < max (length ms) t" for i
  proof (cases "i < t")
    case True
    then show ?thesis using close_settles [OF assms] by (simp add: closed_inv_def)
  next
    case False
    then have "promise_at (fstate (exch c)) i \<noteq> Pending"
      using that len(2) by (simp add: promise_at_def queue_cells_def nth_append)
    then show ?thesis by (auto simp: on_close_def reject_all_at)
  qed
  then show "all_settled (on_close CLOSED c)" using frame len(1) by (simp add: all_settled_at)
  show "closed (on_close CLOSED c)" by (simp add: on_close_def)
qed

lemma give_all_settled: "all_settled c \<Longrightarrow> all_settled (c\<lparr>exch := pe_give m (exch c)\<rparr>)"
  using set_update_subset_insert [of "fstate (exch c)" "hd (buffer (exch c))" "Fulfilled m"]
  by (auto simp: all_settled_def pe_give_def exch_give_def exch_set_def newPromiseTriplet_def settle_def promise_at_def
      split_beta split: if_splits)

lemma open_conn_do:
  assumes "\<exists>ms t. open_inv ms t c" and "e \<noteq> Closing CLOSED"
  shows "\<exists>ms t. open_inv ms t (snd (conn_do u e c))"
  using assms conn_step_any [OF _ assms(2) prod.collapse [symmetric], of _ _ c u] by blast

lemma plain_conn_step:
  assumes "plain_inv s" and "e = Read \<or> (\<exists>i. e = Parsed i)"
  shows "plain_inv (s\<lparr>plain_conn := snd (conn_do u e (plain_conn s))\<rparr>)"
proof (cases "live (plain_sock s)")
  case True
  then show ?thesis using assms open_conn_do [of "plain_conn s" e u] by (auto simp: plain_inv_def)
next
  case False
  then have c: "closed (plain_conn s)" "all_settled (plain_conn s)" using assms(1) by (simp_all add: plain_inv_def)
  have give: "all_settled c' \<Longrightarrow> exch c'' = pe_give m (exch c') \<Longrightarrow> all_settled c''" for c' c'' m
    using give_all_settled [of c' m] by (simp add: all_settled_def)
  from assms(2) show ?thesis
  proof (elim disjE exE)
    assume "e = Read"
    with False c show ?thesis by (simp add: plain_inv_def conn_read_def)
  next
    fix i
    assume e: "e = Parsed i"
    have "all_settled (snd (on_parsed u i (plain_conn s)))"
    proof (cases "exch (snd (on_parsed u i (plain_conn s))) = exch (plain_conn s)")
      case True
      with c(2) show ?thesis by (simp add: all_settled_def)
    next
      case False
      then obtain m where "exch (snd (on_parsed u i (plain_conn s))) = pe_give m (exch (plain_conn s))"
        by (auto simp: on_parsed_exch split: option.splits sum.splits)
      with c(2) give show ?thesis by blast
    qed
    with False c e show ?thesis by (simp add: plain_inv_def on_parsed_frame)
  qed
qed

lemma plain_inv_cong:
  "plain_inv s \<Longrightarrow> live (plain_sock t) = live (plain_sock s) \<Longrightarrow> plain_conn t = plain_conn s \<Longrightarrow> plain_inv t"
  by (simp add: plain_inv_def)

lemma plain_step_inv:
  assumes "plain_inv s" and "plain_step u s t"
  shows "plain_inv t"
  using assms(2)
proof cases
  case (p_message d)
  then show ?thesis
    using assms(1) open_conn_do [of "plain_conn s" "Incoming d" u]
    by (simp add: plain_inv_def plain_message_def live_def)
next
  case p_close
  then show ?thesis
    using assms(1) close_all_settled by (auto simp: plain_inv_def plain_close_parts live_def)
next
  case p_read
  then show ?thesis using plain_conn_step [OF assms(1), of Read u] by (simp add: split_beta)
next
  case (p_parsed i)
  then show ?thesis using plain_conn_step [OF assms(1), of "Parsed i" u] by simp
next
  case (p_ready i)
  have "live (snd (sock_send d k)) = live k" for d and k :: "jsval sock"
    by (simp add: sock_send_def live_def split: sock_state.splits)
  then show ?thesis unfolding p_ready
    by (intro plain_inv_cong [OF assms(1)]) (auto simp: plain_ready_def split_beta split: option.splits)
qed (auto intro!: plain_inv_cong [OF assms(1)] simp: live_def sock_close_def)

lemma plain_start_inv: "plain_start s \<Longrightarrow> live (plain_sock s) \<Longrightarrow> plain_inv s"
  by (auto simp: plain_start_def plain_inv_def intro!: exI new_conn_open)

text \<open>Over a socket that was closed at the start: no event comes, and whatever is read waits.\<close>

definition dead_inv :: "plain \<Rightarrow> bool" where
  "dead_inv s =
     (sstate (plain_sock s) = SClosed \<and> (\<exists>t. open_inv [] t (plain_conn s)) \<and> parsing (plain_conn s) = [])"

lemma plain_start_dead: "plain_start s \<Longrightarrow> \<not> live (plain_sock s) \<Longrightarrow> dead_inv s"
  using new_conn_open by (auto simp: plain_start_def dead_inv_def live_def createWebSocketConn_def)

lemma dead_read:
  assumes "open_inv [] t c"
  shows "open_inv [] (Suc t) (snd (conn_read c))" "parsing (snd (conn_read c)) = parsing c"
  using assms pe_take_inv [of "[]" t "exch c"] by (auto simp: open_inv_def conn_read_def split_beta parses_ok_exch)

lemma plain_step_dead:
  assumes "dead_inv s" and "plain_step u s t"
  shows "dead_inv t"
  using assms(2)
proof cases
  case p_read
  with assms(1) dead_read show ?thesis by (fastforce simp: dead_inv_def)
next
  case (p_parsed i)
  with assms(1) show ?thesis by (simp add: dead_inv_def on_parsed_def)
next
  case (p_ready i)
  with assms(1) show ?thesis
    by (auto simp: dead_inv_def plain_ready_def sock_send_def split_beta split: option.splits)
qed (use assms(1) in \<open>auto simp: dead_inv_def live_def sock_close_def\<close>)

interpretation plainly: invariant_system "\<lambda>s. plain_start s \<and> live (plain_sock s)" "plain_step u" plain_inv
  by unfold_locales (blast intro: plain_start_inv, erule (1) plain_step_inv)

interpretation deaf: invariant_system "\<lambda>s. plain_start s \<and> \<not> live (plain_sock s)" "plain_step u" dead_inv
  by unfold_locales (blast intro: plain_start_dead, erule (1) plain_step_dead)

lemma dead_reads_wait: "dead_inv s \<Longrightarrow> \<not> closed (plain_conn s) \<and> set (fstate (exch (plain_conn s))) \<subseteq> {Pending}"
  by (auto simp: dead_inv_def open_inv_def pe_inv_def queue_cells_def)

text \<open>
  C35: over a plain socket, in any state it has when the connection is made and along every run of
  messages, parses, reads, writes and calls of \<^verbatim>\<open>close\<close>: if the socket was not closed at the start, the
  connection is closed exactly when the socket is, and then every read ever made is settled; if
  it was closed already, the connection is never closed, no read is ever rejected, and every read
  made waits for ever.
\<close>

theorem plain_conn_closes_with_socket:
  assumes "plain_start s" and "(plain_step u)\<^sup>*\<^sup>* s t"
  shows "if sstate (plain_sock s) \<noteq> SClosed
    then (closed (plain_conn t) \<longleftrightarrow> sstate (plain_sock t) = SClosed) \<and>
      (sstate (plain_sock t) = SClosed \<longrightarrow> Pending \<notin> set (fstate (exch (plain_conn t))))
    else sstate (plain_sock t) = SClosed \<and> \<not> closed (plain_conn t) \<and>
      set (fstate (exch (plain_conn t))) \<subseteq> {Pending} \<and> fst (conn_read (plain_conn t)) \<noteq> Inl ConnectionClosed"
proof (cases "live (plain_sock s)")
  case True
  with assms(1) have "plain_inv t" by (intro plainly.inv_rtranclp [OF plain_start_inv assms(2)])
  with True show ?thesis
    by (auto simp: plain_inv_def all_settled_def live_def open_inv_def split: if_splits)
next
  case False
  with assms(1) have "dead_inv t" by (intro deaf.inv_rtranclp [OF plain_start_dead assms(2)])
  with False dead_reads_wait [of t] show ?thesis by (auto simp: live_def dead_inv_def conn_read_def split_beta)
qed

text \<open>What is written before the socket is open is lost: nothing is sent, and the write is rejected.\<close>

lemma early_write_lost:
  assumes "sstate (plain_sock s) = SConnecting" and "map_of (buffering (plain_writer s)) i = Some bs"
  shows "sent (plain_sock (plain_ready i s)) = sent (plain_sock s) \<and>
    write_results (plain_ready i s) = write_results s @ [(i, Inl TypeErr)] \<and>
    i \<notin> fst ` set (buffering (plain_writer (plain_ready i s)))"
  using assms by (auto simp: plain_ready_def sock_send_def on_buffered_def)

end
