(* ===== verification/Reconnection.thy ===== *)
theory Reconnection
  imports Persistent_Web_Socket
begin

text \<open>
  What the persistent socket guarantees in every reachable state, for any client: one connection
  at a time, bounded retries, no forgotten \<^verbatim>\<open>send\<close>; and what particular schedules lead to.
\<close>

section \<open>What a listener may change\<close>

definition has_live :: "('l, 'd) pws \<Rightarrow> bool" where
  "has_live s = (\<exists>w < length (socks s). live (socks s ! w))"

definition cur_promise :: "('l, 'd) pws \<Rightarrow> nat promise" where
  "cur_promise s = promise_at (promises s) (current s)"

text \<open>Every \<^verbatim>\<open>send\<close> whose promise is pending still has its continuation queued.\<close>

definition sends_queued :: "('l, 'd) pws \<Rightarrow> bool" where
  "sends_queued s = (\<forall>k < length (send_results s). send_results s ! k = Pending \<longrightarrow>
     (\<exists>i d. (i, SendReaction k d) \<in> set (reactions s)) \<or> (\<exists>p d. (SendReaction k d, p) \<in> set (microtasks s)))"

definition pws_frame :: "('l, 'd) pws \<Rightarrow> ('l, 'd) pws \<Rightarrow> bool" where
  "pws_frame s t =
     (socks t = socks s \<and> reconnects t = reconnects s \<and> promises t = promises s \<and>
      current t = current s \<and> attempts t = attempts s \<and>
      (readyState t = readyState s \<or> readyState t = CLOSED) \<and>
      (\<forall>i r. (i, r) \<in> set (reactions t) \<longrightarrow> (i, r) \<in> set (reactions s) \<or> i = current s \<and> cur_promise s = Pending) \<and>
      (\<forall>r p. (r, p) \<in> set (microtasks t) \<longrightarrow> (r, p) \<in> set (microtasks s) \<or> p = cur_promise s \<and> p \<noteq> Pending) \<and>
      (sends_queued s \<longrightarrow> sends_queued t))"

lemma pws_frame_refl: "pws_frame s s"
  by (auto simp: pws_frame_def)

lemma frame_same:
  assumes "pws_frame s t"
  shows "socks t = socks s" "reconnects t = reconnects s" "promises t = promises s"
    "current t = current s" "attempts t = attempts s" "cur_promise t = cur_promise s"
    "readyState t = readyState s \<or> readyState t = CLOSED" "sends_queued s \<Longrightarrow> sends_queued t"
    "(\<forall>i r. (i, r) \<in> set (reactions t) \<longrightarrow> (i, r) \<in> set (reactions s) \<or> i = current s \<and> cur_promise s = Pending)"
    "(\<forall>r p. (r, p) \<in> set (microtasks t) \<longrightarrow> (r, p) \<in> set (microtasks s) \<or> p = cur_promise s \<and> p \<noteq> Pending)"
  using assms by (simp_all add: pws_frame_def cur_promise_def)

lemma pws_frame_trans:
  assumes "pws_frame s t" and "pws_frame t u"
  shows "pws_frame s u"
  unfolding pws_frame_def
  using frame_same [OF assms(1)] frame_same [OF assms(2)]
  by (intro conjI) (metis | blast)+

lemma sends_queued_mono:
  "sends_queued s \<Longrightarrow> send_results t = send_results s \<Longrightarrow> set (reactions s) \<subseteq> set (reactions t) \<Longrightarrow>
   set (microtasks s) \<subseteq> set (microtasks t) \<Longrightarrow> sends_queued t"
  unfolding sends_queued_def by (metis subsetD)

lemma pws_frame_remove: "pws_frame s (removeEventListener type l opts s)"
  by (simp add: removeEventListener_def pws_frame_def sends_queued_def split: lookup.splits)

lemma pws_frame_add: "pws_frame s (snd (addEventListener type l opts s))"
  by (simp add: addEventListener_def pws_frame_def sends_queued_def split: lookup.splits)

lemma pws_frame_heard: "pws_frame s (s\<lparr>heard := x\<rparr>)"
  by (auto simp: pws_frame_def sends_queued_def)

lemma then_do_frame: "pws_frame s (then_do (current s) r s)"
  by (auto simp: pws_frame_def then_do_def cur_promise_def elim!: sends_queued_mono split: promise.splits)

lemma pws_frame_closed: "pws_frame s (s\<lparr>readyState := CLOSED\<rparr>)"
  by (auto simp: pws_frame_def elim: sends_queued_mono)

lemma pws_frame_close: "pws_frame s (pws_close code reason s)"
  using pws_frame_trans [OF then_do_frame pws_frame_closed] pws_frame_closed [of s]
  by (cases "readyState s = OPEN") (simp_all only: pws_close_def if_True if_False simp_thms)

lemma pws_frame_send: "pws_frame s (pws_send d s)"
proof (cases "readyState s = CLOSED")
  case True
  then show ?thesis
    by (auto simp: pws_frame_def sends_queued_def pws_send_def newPromiseTriplet_def settle_def promise_at_def
        nth_append nth_list_update less_Suc_eq)
next
  case False
  then show ?thesis
    by (auto simp: pws_frame_def sends_queued_def pws_send_def newPromiseTriplet_def then_do_def cur_promise_def
        nth_append less_Suc_eq split: promise.splits)
qed

lemma pws_frame_api: "pws_frame s (snd (run_api a s))"
  by (cases a) (simp_all add: pws_frame_refl pws_frame_close pws_frame_send pws_frame_add pws_frame_remove)

lemma pws_frame_apis: "pws_frame s (snd (run_apis as s))"
proof (induction as arbitrary: s)
  case Nil
  show ?case by (simp add: pws_frame_refl)
next
  case (Cons a as)
  obtain r t where a: "run_api a s = (r, t)" by (cases "run_api a s")
  then have "pws_frame s t" using pws_frame_api [of s a] by simp
  with Cons [of t] a show ?case by (cases r) (auto intro: pws_frame_trans)
qed

lemma pws_frame_call: "pws_frame s (snd (snd (call_listener react l e s)))"
  using pws_frame_trans [OF pws_frame_heard pws_frame_apis]
  by (simp add: call_listener_def split_beta)

interpretation client_listeners: listener_frame "call_listener react" pws_frame
  by unfold_locales (rule pws_frame_refl, erule (1) pws_frame_trans, rule pws_frame_remove, rule pws_frame_call)

lemma pws_dispatch_frame: "pws_frame s (snd (pws_dispatch react e s))"
  using client_listeners.keeps_dispatch [of s react e]
  by (auto simp: pws_dispatch_def split: prod.splits sum.splits)

section \<open>The invariant\<close>

definition one_connection :: "('l, 'd) pws \<Rightarrow> bool" where
  "one_connection s =
     ((\<forall>i < length (socks s). \<forall>j < length (socks s). live (socks s ! i) \<and> live (socks s ! j) \<longrightarrow> i = j) \<and>
      (has_live s \<longrightarrow> reconnects s = []) \<and> length (reconnects s) \<le> 1)"

definition opened_sock :: "('l, 'd) pws \<Rightarrow> nat \<Rightarrow> bool" where
  "opened_sock s w = (w < length (socks s) \<and> sstate (socks s ! w) \<noteq> SConnecting)"

definition promises_ok :: "('l, 'd) pws \<Rightarrow> bool" where
  "promises_ok s =
     (current s < length (promises s) \<and>
      (\<forall>i < length (promises s). i \<noteq> current s \<longrightarrow> promise_at (promises s) i \<noteq> Pending) \<and>
      (\<forall>i w. promise_at (promises s) i = Fulfilled w \<longrightarrow> opened_sock s w))"

definition phase_ok :: "('l, 'd) pws \<Rightarrow> bool" where
  "phase_ok s =
     ((reconnects s \<noteq> [] \<or> readyState s = CONNECTING \<longrightarrow> cur_promise s = Pending) \<and>
      (\<forall>w < length (socks s). sstate (socks s ! w) = SConnecting \<longrightarrow> cur_promise s = Pending) \<and>
      (readyState s = OPEN \<longrightarrow> reconnects s = [] \<and>
         (\<forall>w < length (socks s). live (socks s ! w) \<longrightarrow> cur_promise s = Fulfilled w)))"

definition timeouts_ok :: "('l, 'd) pws \<Rightarrow> bool" where
  "timeouts_ok s = (\<forall>w < length (socks s). timeout (socks s ! w) \<longrightarrow> sstate (socks s ! w) = SConnecting)"

definition retries_ok :: "settings \<Rightarrow> ('l, 'd) pws \<Rightarrow> bool" where
  "retries_ok opts s =
     (\<forall>m \<ge> 0. set_maxRetries opts = Some m \<longrightarrow> int (attempts s) \<le> m + 1 \<and>
        (has_live s \<or> reconnects s \<noteq> [] \<longrightarrow> int (attempts s) \<le> m))"

definition queues_ok :: "('l, 'd) pws \<Rightarrow> bool" where
  "queues_ok s =
     ((\<forall>i r. (i, r) \<in> set (reactions s) \<longrightarrow> i < length (promises s) \<and> promise_at (promises s) i = Pending) \<and>
      (\<forall>r p. (r, p) \<in> set (microtasks s) \<longrightarrow> p \<noteq> Pending \<and> (\<forall>w. p = Fulfilled w \<longrightarrow> opened_sock s w)) \<and>
      sends_queued s)"

definition pws_mid :: "settings \<Rightarrow> ('l, 'd) pws \<Rightarrow> bool" where
  "pws_mid opts s =
     (one_connection s \<and> promises_ok s \<and> phase_ok s \<and> timeouts_ok s \<and> retries_ok opts s \<and> queues_ok s)"

definition pws_inv :: "settings \<Rightarrow> ('l, 'd) pws \<Rightarrow> bool" where
  "pws_inv opts s = (pws_mid opts s \<and> microtasks s = [])"

lemmas mid_defs = pws_mid_def one_connection_def promises_ok_def phase_ok_def timeouts_ok_def retries_ok_def

lemma frame_mid:
  assumes "pws_mid opts s" and "pws_frame s t"
  shows "pws_mid opts t"
proof -
  note same = frame_same [OF assms(2)]
  have eqs: "has_live t = has_live s" "opened_sock t = opened_sock s"
    using same by (simp_all add: has_live_def opened_sock_def fun_eq_iff)
  have mid: "promises_ok s" "phase_ok s" "queues_ok s"
    using assms(1) by (simp_all add: pws_mid_def)
  have cur: "current s < length (promises s)" "\<And>w. cur_promise s = Fulfilled w \<Longrightarrow> opened_sock s w"
    using mid(1) by (simp_all add: promises_ok_def cur_promise_def)
  have "\<forall>i r. (i, r) \<in> set (reactions t) \<longrightarrow> i < length (promises t) \<and> promise_at (promises t) i = Pending"
    unfolding same(3) using mid(3) cur(1) same(9) by (metis queues_ok_def cur_promise_def)
  moreover have "\<forall>r p. (r, p) \<in> set (microtasks t) \<longrightarrow> p \<noteq> Pending \<and> (\<forall>w. p = Fulfilled w \<longrightarrow> opened_sock t w)"
    unfolding eqs using mid(3) cur(2) same(10) by (metis queues_ok_def)
  ultimately have "queues_ok t" using mid(3) same(8) by (simp add: queues_ok_def)
  moreover have "phase_ok t" using mid(2) same(1-7) by (auto simp: phase_ok_def)
  ultimately show ?thesis
    using assms(1) same(1-6) eqs by (simp add: mid_defs)
qed

section \<open>Microtasks keep the invariant\<close>

text \<open>A change of sockets that no part of the invariant can see.\<close>

definition same_life :: "'d sock \<Rightarrow> 'd sock \<Rightarrow> bool" where
  "same_life k k' = (live k' = live k \<and> (sstate k' = SConnecting \<longleftrightarrow> sstate k = SConnecting) \<and> timeout k' = timeout k)"

lemma mid_socks:
  assumes "pws_mid opts s" and "length ks = length (socks s)"
    and "\<And>w. w < length (socks s) \<Longrightarrow> same_life (socks s ! w) (ks ! w)"
  shows "pws_mid opts (s\<lparr>socks := ks\<rparr>)"
proof -
  let ?t = "s\<lparr>socks := ks\<rparr>"
  have eqs: "has_live ?t = has_live s" "opened_sock ?t = opened_sock s" "cur_promise ?t = cur_promise s"
    "sends_queued ?t = sends_queued s"
    using assms(2,3) by (auto simp: has_live_def opened_sock_def fun_eq_iff cur_promise_def sends_queued_def same_life_def)
  have "one_connection ?t" "promises_ok ?t" "phase_ok ?t" "timeouts_ok ?t" "retries_ok opts ?t" "queues_ok ?t"
    using assms(1) eqs assms(2,3)
    by (auto simp: mid_defs queues_ok_def same_life_def)
  then show ?thesis by (simp add: pws_mid_def)
qed

lemma same_life_refl: "same_life k k"
  by (simp add: same_life_def)

lemma same_life_close: "sstate k \<noteq> SConnecting \<Longrightarrow> same_life k (sock_close code reason k)"
  by (auto simp: same_life_def sock_close_def live_def)

lemma same_life_send: "sock_send d k = (r, k') \<Longrightarrow> same_life k k'"
  by (auto simp: same_life_def sock_send_def live_def split: sock_state.splits)

lemma mid_update_sock:
  "pws_mid opts s \<Longrightarrow> same_life (socks s ! w) (f (socks s ! w)) \<Longrightarrow> pws_mid opts (update_sock w f s)"
  unfolding update_sock_def
  by (rule mid_socks, assumption, simp) (metis nth_list_update_eq nth_list_update_neq same_life_refl)

lemma mid_queues:
  "pws_mid opts (s\<lparr>microtasks := m, send_results := r\<rparr>) \<longleftrightarrow>
   one_connection s \<and> promises_ok s \<and> phase_ok s \<and> timeouts_ok s \<and> retries_ok opts s \<and>
   queues_ok (s\<lparr>microtasks := m, send_results := r\<rparr>)"
  by (simp add: mid_defs has_live_def cur_promise_def opened_sock_def)

lemma mid_drop_close:
  "pws_mid opts (s\<lparr>microtasks := (CloseReaction code reason, p) # ms\<rparr>) \<Longrightarrow> pws_mid opts (s\<lparr>microtasks := ms\<rparr>)"
  using mid_queues [where opts = opts and s = s and m = "(CloseReaction code reason, p) # ms" and r = "send_results s"]
    mid_queues [where opts = opts and s = s and m = ms and r = "send_results s"]
  by (auto simp: queues_ok_def sends_queued_def opened_sock_def)

lemma mid_settle_send:
  assumes "pws_mid opts (s\<lparr>microtasks := (SendReaction k d, p) # ms\<rparr>)" and "r \<noteq> Pending"
  shows "pws_mid opts (s\<lparr>microtasks := ms, send_results := settle r k (send_results s)\<rparr>)"
proof -
  let ?s = "s\<lparr>microtasks := (SendReaction k d, p) # ms\<rparr>"
  let ?t = "s\<lparr>microtasks := ms, send_results := settle r k (send_results s)\<rparr>"
  have "queues_ok ?s" using assms(1) by (simp add: pws_mid_def)
  moreover have "sends_queued ?t"
    unfolding sends_queued_def
  proof (intro allI impI)
    fix j
    assume j: "j < length (send_results ?t)" "send_results ?t ! j = Pending"
    have "promise_at (settle r k (send_results s)) j = Pending" using j by (simp add: promise_at_def)
    with assms(2) have "j \<noteq> k" "send_results s ! j = Pending"
      using j(1) promise_at_settle [of r k "send_results s" j]
      by (auto simp: promise_at_def split: if_splits)
    with \<open>queues_ok ?s\<close> j(1)
    show "(\<exists>i d. (i, SendReaction j d) \<in> set (reactions ?t)) \<or> (\<exists>p d. (SendReaction j d, p) \<in> set (microtasks ?t))"
      by (auto simp: queues_ok_def sends_queued_def)
  qed
  ultimately have "queues_ok ?t"
    by (auto simp: queues_ok_def opened_sock_def)
  with assms(1) show ?thesis
    unfolding mid_queues by (simp add: mid_defs has_live_def cur_promise_def opened_sock_def)
qed

lemma swap_socks: "s\<lparr>microtasks := ms, socks := ks\<rparr> = s\<lparr>socks := ks, microtasks := ms\<rparr>"
  by simp

lemma swap_results: "s\<lparr>microtasks := ms, send_results := rs\<rparr> = s\<lparr>send_results := rs, microtasks := ms\<rparr>"
  "s\<lparr>send_results := rs, socks := ks\<rparr> = s\<lparr>socks := ks, send_results := rs\<rparr>"
  by simp_all

lemma run_reaction_mid:
  assumes "pws_mid opts (s\<lparr>microtasks := m # ms\<rparr>)"
  shows "pws_mid opts ((run_reaction m s)\<lparr>microtasks := ms\<rparr>)"
proof -
  have ok: "snd m \<noteq> Pending" "\<And>w. snd m = Fulfilled w \<Longrightarrow> opened_sock s w"
    using assms by (cases m; auto simp: pws_mid_def queues_ok_def opened_sock_def)+
  consider code reason w where "m = (CloseReaction code reason, Fulfilled w)"
    | code reason e where "m = (CloseReaction code reason, Rejected e)"
    | k d w where "m = (SendReaction k d, Fulfilled w)"
    | k d e where "m = (SendReaction k d, Rejected e)"
    using ok(1) by (cases m; cases "fst m"; cases "snd m") auto
  then show ?thesis
  proof cases
    case 1
    then have "pws_mid opts (s\<lparr>microtasks := ms\<rparr>)" using assms mid_drop_close by blast
    from mid_update_sock [OF this, of w "sock_close code reason"] ok(2) 1 show ?thesis
      by (simp add: update_sock_def same_life_close opened_sock_def swap_socks)
  next
    case 2
    then show ?thesis using assms mid_drop_close by auto
  next
    case 3
    obtain r k' where r: "sock_send d (socks s ! w) = (r, k')" by (cases "sock_send d (socks s ! w)")
    have "r = Inr ()" using ok(2) 3 r by (auto simp: opened_sock_def sock_send_def split: sock_state.splits)
    from mid_settle_send [where opts = opts and s = s and k = k and d = d and p = "Fulfilled w" and r = "Fulfilled ()"] assms 3
    have "pws_mid opts (s\<lparr>microtasks := ms, send_results := resolve k () (send_results s)\<rparr>)" by simp
    from mid_update_sock [OF this, of w "\<lambda>_. k'"] same_life_send [OF r] \<open>r = Inr ()\<close> r 3 show ?thesis
      by (simp add: update_sock_def swap_socks swap_results)
  next
    case 4
    then show ?thesis using mid_settle_send [where opts = opts and s = s and k = k and d = d and p = "Rejected e" and r = "Rejected e"] assms
      by (simp add: swap_results)
  qed
qed

lemma run_reaction_microtasks: "microtasks (run_reaction m s) = microtasks s"
  by (induction m s rule: run_reaction.induct) (auto simp: update_sock_def split: prod.splits sum.splits)

lemma run_microtasks_inv:
  assumes "pws_mid opts s"
  shows "pws_inv opts (run_microtasks s)"
proof -
  have "microtasks t = [] \<Longrightarrow> pws_mid opts (t\<lparr>microtasks := ms\<rparr>) \<Longrightarrow> pws_inv opts (fold run_reaction ms t)"
    for ms :: "('b reaction \<times> nat promise) list" and t :: "('a, 'b) pws"
  proof (induction ms arbitrary: t)
    case Nil
    then show ?case by (simp add: pws_inv_def) (metis pws.surjective pws.update_convs(8))
  next
    case (Cons m ms)
    then show ?case using run_reaction_mid run_reaction_microtasks by (metis fold_simps(2))
  qed
  from this [of "s\<lparr>microtasks := []\<rparr>" "microtasks s"] assms show ?thesis
    by (simp add: run_microtasks_def)
qed

section \<open>The handlers keep the invariant\<close>

lemma cur_promise_settle:
  "current s < length (promises s) \<Longrightarrow>
   cur_promise (settle_current p s) = (if cur_promise s = Pending then p else cur_promise s)"
  by (simp add: cur_promise_def settle_current_def promise_at_settle)

lemma settle_current_same [simp]:
  "socks (settle_current p s) = socks s" "reconnects (settle_current p s) = reconnects s"
  "readyState (settle_current p s) = readyState s" "attempts (settle_current p s) = attempts s"
  "current (settle_current p s) = current s" "length (promises (settle_current p s)) = length (promises s)"
  "send_results (settle_current p s) = send_results s"
  "has_live (settle_current p s) = has_live s" "opened_sock (settle_current p s) = opened_sock s"
  by (simp_all add: settle_current_def has_live_def opened_sock_def fun_eq_iff)

lemma settle_queues:
  assumes "queues_ok s" and "promises_ok s" and "p \<noteq> Pending" and "\<And>w. p = Fulfilled w \<Longrightarrow> opened_sock s w"
  shows "queues_ok (settle_current p s)"
proof (cases "promise_at (promises s) (current s) = Pending")
  case True
  let ?t = "settle_current p s"
  have "sends_queued ?t"
    unfolding sends_queued_def
  proof (intro allI impI)
    fix k
    assume "k < length (send_results ?t)" "send_results ?t ! k = Pending"
    then have "(\<exists>i d. (i, SendReaction k d) \<in> set (reactions s)) \<or> (\<exists>q d. (SendReaction k d, q) \<in> set (microtasks s))"
      using assms(1) by (simp add: queues_ok_def sends_queued_def)
    then show "(\<exists>i d. (i, SendReaction k d) \<in> set (reactions ?t)) \<or> (\<exists>q d. (SendReaction k d, q) \<in> set (microtasks ?t))"
    proof
      assume "\<exists>i d. (i, SendReaction k d) \<in> set (reactions s)"
      then obtain i d where r: "(i, SendReaction k d) \<in> set (reactions s)" by blast
      show ?thesis
      proof (cases "i = current s")
        case i: True
        from r i have "(SendReaction k d, p) \<in> set (microtasks ?t)"
          using True by (force simp: settle_current_def)
        then show ?thesis by blast
      next
        case False
        with r True have "(i, SendReaction k d) \<in> set (reactions ?t)"
          by (simp add: settle_current_def)
        then show ?thesis by blast
      qed
    next
      assume "\<exists>q d. (SendReaction k d, q) \<in> set (microtasks s)"
      with True show ?thesis by (auto simp: settle_current_def)
    qed
  qed
  with assms True show ?thesis
    by (auto simp: queues_ok_def settle_current_def promise_at_settle opened_sock_def)
qed (use assms in \<open>simp add: settle_current_def\<close>)

lemma settle_promises:
  assumes "promises_ok s" and "\<And>w. p = Fulfilled w \<Longrightarrow> opened_sock s w" and "p \<noteq> Pending"
  shows "promises_ok (settle_current p s)"
  using assms
  by (auto simp: promises_ok_def settle_current_def promise_at_settle opened_sock_def split: if_splits)

lemma settle_mid:
  assumes "one_connection s" "promises_ok s" "timeouts_ok s" "retries_ok opts s" "queues_ok s"
    and "phase_ok (settle_current p s)" and "p \<noteq> Pending" and "\<And>w. p = Fulfilled w \<Longrightarrow> opened_sock s w"
  shows "pws_mid opts (settle_current p s)"
  using assms settle_queues [OF assms(5,2,7,8)] settle_promises [OF assms(2) assms(8,7)]
  by (auto simp: pws_mid_def one_connection_def timeouts_ok_def retries_ok_def)

lemma reject_mid:
  assumes "pws_mid opts s" and "\<not> has_live s" and "reconnects s = []" and "readyState s = CLOSED"
  shows "pws_mid opts (settle_current (Rejected e) s)"
proof -
  have "phase_ok (settle_current (Rejected e) s)"
    using assms by (auto simp: phase_ok_def has_live_def live_def)
  with assms(1) show ?thesis by (intro settle_mid) (auto simp: pws_mid_def)
qed

text \<open>The state in which \<^verbatim>\<open>onopen\<close> dispatches its event.\<close>

lemma open_mid:
  assumes "pws_mid opts s" and "w < length (socks s)" and "sstate (socks s ! w) = SConnecting"
  shows "pws_mid opts (settle_current (Fulfilled w)
    ((update_sock w (\<lambda>k. k\<lparr>sstate := SOpen, timeout := False, onerror := True\<rparr>) s)\<lparr>attempts := 0, readyState := OPEN\<rparr>))"
    (is "pws_mid opts (settle_current _ ?t)")
proof -
  have only: "\<And>i. i < length (socks s) \<Longrightarrow> live (socks s ! i) \<Longrightarrow> i = w"
    and rec: "reconnects s = []" and pend: "cur_promise s = Pending" and cur: "current s < length (promises s)"
    using assms by (auto simp: mid_defs has_live_def live_def)
  have opened: "opened_sock s i \<Longrightarrow> opened_sock ?t i" for i
    using assms(2) by (auto simp: opened_sock_def update_sock_def nth_list_update)
  have "one_connection ?t"
    using only rec assms(2) by (auto simp: one_connection_def update_sock_def nth_list_update)
  moreover have "timeouts_ok ?t"
    using assms(1,2) by (auto simp: pws_mid_def timeouts_ok_def update_sock_def nth_list_update)
  moreover have "retries_ok opts ?t" by (auto simp: retries_ok_def)
  moreover have "promises_ok ?t"
    using assms(1) opened by (auto simp: pws_mid_def promises_ok_def update_sock_def)
  moreover have "queues_ok ?t"
    using assms(1) opened by (auto simp: pws_mid_def queues_ok_def update_sock_def sends_queued_def)
  ultimately have t: "one_connection ?t" "promises_ok ?t" "timeouts_ok ?t" "retries_ok opts ?t" "queues_ok ?t"
    by blast+
  have "cur_promise (settle_current (Fulfilled w) ?t) = Fulfilled w"
    using pend cur by (subst cur_promise_settle) (simp_all add: update_sock_def cur_promise_def)
  moreover have "i = w \<and> sstate (socks ?t ! i) = SOpen" if "i < length (socks s)" "live (socks ?t ! i)" for i
    using only that assms(2) by (cases "i = w") (auto simp: update_sock_def)
  moreover have "live (socks ?t ! i)" if "sstate (socks ?t ! i) = SConnecting" for i
    using that by (simp add: live_def)
  moreover have "reconnects ?t = []" "readyState ?t = OPEN" "length (socks ?t) = length (socks s)"
    using rec by (simp_all add: update_sock_def)
  ultimately have "phase_ok (settle_current (Fulfilled w) ?t)"
    unfolding phase_ok_def settle_current_same by (metis ready_state.distinct(1) sock_state.distinct(1))
  then show ?thesis
    using assms(2) by (intro settle_mid [OF t]) (auto simp: opened_sock_def update_sock_def)
qed

text \<open>The state after the browser closed the socket, before \<^verbatim>\<open>onclose\<close> decides what to do.\<close>

lemma closed_mid:
  assumes "pws_mid opts s" and "w < length (socks s)" and "live (socks s ! w)"
  defines "t \<equiv> update_sock w (\<lambda>k. k\<lparr>sstate := SClosed, timeout := False\<rparr>) s"
  shows "pws_mid opts t" and "\<not> has_live t" and "reconnects t = []"
    and "\<And>m. 0 \<le> m \<Longrightarrow> set_maxRetries opts = Some m \<Longrightarrow> int (attempts t) \<le> m"
    and "readyState t = OPEN \<Longrightarrow> cur_promise t \<noteq> Pending"
proof -
  have only: "\<And>i. i < length (socks s) \<Longrightarrow> live (socks s ! i) \<Longrightarrow> i = w"
    and rec: "reconnects s = []" and live: "has_live s"
    and phase: "phase_ok s" and retries: "retries_ok opts s"
    using assms(1-3) by (auto simp: pws_mid_def one_connection_def has_live_def)
  have opened: "opened_sock s i \<Longrightarrow> opened_sock t i" for i
    using assms(2) by (auto simp: t_def opened_sock_def update_sock_def nth_list_update)
  show dead: "\<not> has_live t"
    using only assms(2) by (auto simp: t_def has_live_def update_sock_def nth_list_update live_def)
  show "reconnects t = []" using rec by (simp add: t_def update_sock_def)
  show "readyState t = OPEN \<Longrightarrow> cur_promise t \<noteq> Pending"
    using phase assms(2,3) by (auto simp: t_def phase_ok_def update_sock_def cur_promise_def)
  show "int (attempts t) \<le> m" if "0 \<le> m" "set_maxRetries opts = Some m" for m
    using retries live that by (auto simp: t_def retries_ok_def update_sock_def)
  have "one_connection t" using dead rec by (auto simp: one_connection_def has_live_def t_def update_sock_def)
  moreover have "timeouts_ok t"
    using assms(1,2) by (auto simp: t_def pws_mid_def timeouts_ok_def update_sock_def nth_list_update)
  moreover have "retries_ok opts t"
    using dead rec retries by (auto simp: retries_ok_def t_def update_sock_def)
  moreover have "promises_ok t"
    using assms(1) opened by (auto simp: t_def pws_mid_def promises_ok_def update_sock_def)
  moreover have "queues_ok t"
    using assms(1) opened by (auto simp: t_def pws_mid_def queues_ok_def update_sock_def sends_queued_def)
  moreover have "phase_ok t"
    using phase dead rec assms(2)
    by (auto simp: t_def phase_ok_def update_sock_def cur_promise_def nth_list_update has_live_def)
  ultimately show "pws_mid opts t" by (simp add: pws_mid_def)
qed

lemma triplet_mid:
  assumes "pws_mid opts s" and "\<not> has_live s" and "reconnects s = []" and "readyState s = OPEN"
    and "cur_promise s \<noteq> Pending"
  defines "t \<equiv> s\<lparr>current := fst (newPromiseTriplet (promises s)), promises := snd (newPromiseTriplet (promises s))\<rparr>"
  shows "pws_mid opts t" and "\<not> has_live t" and "reconnects t = []" and "cur_promise t = Pending"
proof -
  show cur: "cur_promise t = Pending"
    by (simp add: t_def newPromiseTriplet_def cur_promise_def promise_at_def)
  show dead: "\<not> has_live t" and rec: "reconnects t = []"
    using assms(2,3) by (simp_all add: t_def has_live_def)
  have at: "promise_at (promises t) i = promise_at (promises s) i" for i
    by (simp add: t_def promise_at_new)
  have len: "length (promises t) = Suc (length (promises s))" "current t = length (promises s)"
    by (simp_all add: t_def newPromiseTriplet_def)
  have opened: "opened_sock t = opened_sock s" by (simp add: t_def opened_sock_def fun_eq_iff)
  have "promises_ok t"
    using assms(1,5) unfolding pws_mid_def promises_ok_def at len opened cur_promise_def
    by (auto simp: less_Suc_eq)
  moreover have "queues_ok t"
    using assms(1) unfolding pws_mid_def queues_ok_def at len opened
    by (auto simp: t_def sends_queued_def less_Suc_eq)
  moreover have "phase_ok t" using cur dead rec by (auto simp: phase_ok_def has_live_def)
  moreover have "one_connection t" "timeouts_ok t" "retries_ok opts t"
    using assms(1) by (auto simp: t_def mid_defs has_live_def)
  ultimately show "pws_mid opts t" by (simp add: pws_mid_def)
qed

lemma reconnect_mid:
  assumes "pws_mid opts s" and "\<not> has_live s" and "reconnects s = []" and "cur_promise s = Pending"
    and "\<And>m. 0 \<le> m \<Longrightarrow> set_maxRetries opts = Some m \<Longrightarrow> int n \<le> m"
  shows "pws_mid opts (s\<lparr>attempts := n, reconnects := reconnects s @ [delay], readyState := CONNECTING\<rparr>)"
    (is "pws_mid opts ?t")
proof -
  have "queues_ok ?t"
    using assms(1) by (auto simp: pws_mid_def queues_ok_def opened_sock_def sends_queued_def)
  moreover have "phase_ok ?t" using assms(4) by (simp add: phase_ok_def cur_promise_def)
  moreover have "one_connection ?t" "promises_ok ?t" "timeouts_ok ?t"
    using assms(1-3) by (auto simp: mid_defs has_live_def opened_sock_def)
  moreover have "retries_ok opts ?t" using assms(5) by (force simp: retries_ok_def)
  ultimately show ?thesis by (simp add: pws_mid_def)
qed

lemma give_up_mid:
  assumes "pws_mid opts s" and "\<not> has_live s" and "reconnects s = []" and "set_maxRetries opts = Some (int n)"
  shows "pws_mid opts (s\<lparr>attempts := n + 1, readyState := CLOSED\<rparr>)" (is "pws_mid opts ?t")
proof -
  have "queues_ok ?t"
    using assms(1) by (auto simp: pws_mid_def queues_ok_def opened_sock_def sends_queued_def)
  moreover have "one_connection ?t" "promises_ok ?t" "timeouts_ok ?t" "phase_ok ?t"
    using assms(1-3) by (auto simp: mid_defs has_live_def opened_sock_def cur_promise_def)
  moreover have "retries_ok opts ?t" using assms(2-4) by (auto simp: retries_ok_def has_live_def)
  ultimately show ?thesis by (simp add: pws_mid_def)
qed

lemma onclose_mid:
  assumes "pws_mid opts s" and "w < length (socks s)" and "live (socks s ! w)"
  shows "pws_mid opts (onclose react opts w d (update_sock w (\<lambda>k. k\<lparr>sstate := SClosed\<rparr>) s))"
proof -
  define t where "t = update_sock w (\<lambda>k. k\<lparr>sstate := SClosed, timeout := False\<rparr>) s"
  note closed = closed_mid [OF assms, folded t_def]
  have t: "update_sock w (\<lambda>k. k\<lparr>timeout := False\<rparr>) (update_sock w (\<lambda>k. k\<lparr>sstate := SClosed\<rparr>) s) = t"
    using assms(2) by (simp add: t_def update_sock_def)
  consider "readyState t = OPEN" | "readyState t = CLOSED" | "readyState t = CONNECTING"
    by (cases "readyState t") auto
  then show ?thesis
  proof cases
    case 1
    define u where "u = t\<lparr>current := fst (newPromiseTriplet (promises t)), promises := snd (newPromiseTriplet (promises t))\<rparr>"
    note new = triplet_mid [OF closed(1-3) 1 closed(5) [OF 1], folded u_def]
    obtain r v where v: "pws_dispatch react (new_event ''close'' d) u = (r, v)"
      by (cases "pws_dispatch react (new_event ''close'' d) u")
    have frame: "pws_frame u v" using pws_dispatch_frame [of u react "new_event ''close'' d"] v by simp
    note same = frame_same [OF frame] and mid = frame_mid [OF new(1) frame]
    have "\<not> has_live v" "reconnects v = []" "cur_promise v = Pending" "attempts v = attempts t"
      using same new by (simp_all add: has_live_def u_def)
    from reconnect_mid [OF mid this(1-3), of "attempts t" 0] this(4) closed(4) mid 1 t v u_def show ?thesis
      by (cases r) (simp_all add: onclose_def Let_def split_beta)
  next
    case 2
    obtain r v where v: "pws_dispatch react (new_event ''close'' d) t = (r, v)"
      by (cases "pws_dispatch react (new_event ''close'' d) t")
    have frame: "pws_frame t v" using pws_dispatch_frame [of t react "new_event ''close'' d"] v by simp
    note same = frame_same [OF frame] and mid = frame_mid [OF closed(1) frame]
    have "\<not> has_live v" "reconnects v = []" "readyState v = CLOSED"
      using same closed 2 by (auto simp: has_live_def)
    from reject_mid [OF mid this] mid 2 t v show ?thesis
      by (cases r) (simp_all add: onclose_def Let_def)
  next
    case 3
    have "cur_promise t = Pending" using closed(1) 3 by (simp add: pws_mid_def phase_ok_def)
    show ?thesis
    proof (cases "set_maxRetries opts = Some (int (attempts t))")
      case True
      let ?g = "t\<lparr>attempts := attempts t + 1, readyState := CLOSED\<rparr>"
      have "pws_mid opts (settle_current (Rejected MaxRetriesExceeded) ?g)"
        using give_up_mid [OF closed(1-3) True] closed(2,3)
        by (intro reject_mid) (auto simp: has_live_def)
      with True 3 t show ?thesis by (simp add: onclose_def Let_def pws_close_def)
    next
      case False
      have "int (attempts t + 1) \<le> m" if "0 \<le> m" "set_maxRetries opts = Some m" for m
        using closed(4) [OF that] False that(2) by auto
      from reconnect_mid [OF closed(1-3) \<open>cur_promise t = Pending\<close> this, where delay = "timer_delay (set_retryInterval opts)"]
        False 3 t
      show ?thesis by (simp add: onclose_def Let_def)
    qed
  qed
qed

section \<open>Every reachable state\<close>

lemma timeout_close_ok: "close_args_ok (Some 1000) (Some (js ''Connection timeout''))"
  by code_simp

lemma timeout_mid:
  assumes "pws_mid opts s" and "w < length (socks s)" and "timeout (socks s ! w)"
  shows "pws_mid opts (run_task react opts (ConnectTimeout w) s)"
proof -
  let ?k = "(socks s ! w)\<lparr>timeout := False, sstate := SClosing\<rparr>"
  let ?t = "update_sock w (\<lambda>_. ?k) s"
  have w: "sstate (socks s ! w) = SConnecting" "cur_promise s = Pending"
    using assms by (auto simp: mid_defs)
  have eq: "run_task react opts (ConnectTimeout w) s = ?t"
    using w timeout_close_ok by (simp add: update_sock_def sock_close_def live_def)
  have life: "live (socks ?t ! i) = live (socks s ! i)" if "i < length (socks s)" for i
    using w that by (cases "i = w") (auto simp: update_sock_def live_def)
  have conn: "sstate (socks ?t ! i) = SConnecting \<Longrightarrow> sstate (socks s ! i) = SConnecting"
    "timeout (socks ?t ! i) \<Longrightarrow> timeout (socks s ! i) \<and> sstate (socks ?t ! i) = sstate (socks s ! i)"
    if "i < length (socks s)" for i
    using that by (cases "i = w"; simp add: update_sock_def)+
  have same: "reconnects ?t = reconnects s" "promises ?t = promises s" "current ?t = current s"
    "attempts ?t = attempts s" "readyState ?t = readyState s" "reactions ?t = reactions s"
    "microtasks ?t = microtasks s" "cur_promise ?t = cur_promise s" "sends_queued ?t = sends_queued s"
    "length (socks ?t) = length (socks s)"
    by (simp_all add: update_sock_def cur_promise_def sends_queued_def)
  have live: "has_live ?t = has_live s" using life same(10) by (auto simp: has_live_def)
  have opened: "opened_sock s i \<Longrightarrow> opened_sock ?t i" for i
    using conn(1) same(10) by (auto simp: opened_sock_def)
  have "promises_ok ?t" using assms(1) opened unfolding pws_mid_def promises_ok_def same by blast
  moreover have "queues_ok ?t" using assms(1) opened unfolding pws_mid_def queues_ok_def same by blast
  moreover have "one_connection ?t" "phase_ok ?t" "retries_ok opts ?t" "timeouts_ok ?t"
    using assms(1) life live conn same by (simp_all add: mid_defs)
  ultimately show ?thesis unfolding eq by (simp add: pws_mid_def)
qed

lemma timer_mid:
  assumes "pws_mid opts s" and "i < length (reconnects s)"
  shows "pws_mid opts (run_task react opts (ReconnectTimer i) s)"
proof -
  let ?t = "run_task react opts (ReconnectTimer i) s"
  have one: "length (reconnects s) \<le> 1" "\<not> has_live s" and pend: "cur_promise s = Pending"
    and open1: "readyState s \<noteq> OPEN"
    using assms by (auto simp: mid_defs)
  then have rec: "reconnects ?t = []"
    using assms(2) by (cases "reconnects s") (auto simp: pws_connect_def)
  have dead: "\<not> live (socks s ! j)" if "j < length (socks s)" for j
    using one(2) that by (auto simp: has_live_def)
  have opened: "opened_sock s j \<Longrightarrow> opened_sock ?t j" for j
    by (auto simp: opened_sock_def pws_connect_def nth_append)
  have cur: "cur_promise ?t = Pending" using pend by (simp add: cur_promise_def pws_connect_def)
  have "promises_ok ?t" using assms(1) opened by (auto simp: pws_mid_def promises_ok_def pws_connect_def)
  moreover have "queues_ok ?t"
    using assms(1) opened by (auto simp: pws_mid_def queues_ok_def sends_queued_def pws_connect_def)
  moreover have "one_connection ?t"
    unfolding one_connection_def rec using dead by (auto simp: pws_connect_def nth_append less_Suc_eq)
  moreover have "phase_ok ?t" using cur open1 by (simp add: phase_ok_def pws_connect_def)
  moreover have "timeouts_ok ?t"
    using assms(1) by (auto simp: pws_mid_def timeouts_ok_def pws_connect_def nth_append less_Suc_eq)
  moreover have "retries_ok opts ?t" using assms by (auto simp: pws_mid_def retries_ok_def pws_connect_def)
  ultimately show ?thesis by (simp add: pws_mid_def)
qed

lemma run_task_mid:
  assumes "pws_mid opts s" and "enabled k s"
  shows "pws_mid opts (run_task react opts k s)"
proof (cases k)
  case (SockOpen w d)
  let ?t = "settle_current (Fulfilled w) ((update_sock w (\<lambda>k. k\<lparr>sstate := SOpen, timeout := False, onerror := True\<rparr>) s)
    \<lparr>attempts := 0, readyState := OPEN\<rparr>)"
  have "update_sock w (\<lambda>k. k\<lparr>timeout := False, onerror := True\<rparr>) (update_sock w (\<lambda>k. k\<lparr>sstate := SOpen\<rparr>) s) =
      update_sock w (\<lambda>k. k\<lparr>sstate := SOpen, timeout := False, onerror := True\<rparr>) s"
    using assms(2) SockOpen by (simp add: update_sock_def)
  then have "run_task react opts k s = snd (pws_dispatch react (new_event ''open'' d) ?t)"
    by (simp only: SockOpen run_task.simps onopen_def)
  moreover have "pws_mid opts ?t" using assms SockOpen by (intro open_mid) simp_all
  ultimately show ?thesis using frame_mid [OF _ pws_dispatch_frame, of opts ?t] by simp
next
  case (SockMessage w d)
  then show ?thesis using frame_mid [OF assms(1) pws_dispatch_frame] by simp
next
  case (SockError w d)
  then show ?thesis using frame_mid [OF assms(1) pws_dispatch_frame] assms(1) by simp
next
  case (SockClose w d)
  then show ?thesis using assms by (simp add: onclose_mid)
next
  case (ConnectTimeout w)
  then show ?thesis using assms by (simp add: timeout_mid del: run_task.simps)
next
  case (ReconnectTimer i)
  then show ?thesis using assms by (simp add: timer_mid del: run_task.simps)
next
  case (Client as)
  then show ?thesis using frame_mid [OF assms(1) pws_frame_apis] by simp
qed

lemma do_task_inv: "pws_inv opts s \<Longrightarrow> enabled k s \<Longrightarrow> pws_inv opts (do_task react opts k s)"
  by (simp add: do_task_def run_microtasks_inv run_task_mid pws_inv_def [of opts s])

lemma start_inv: "pws_start valid_url options s \<Longrightarrow> pws_inv (with_defaults options) s"
  by (auto simp: pws_start_def createPersistentWebSocket_def pws_inv_def mid_defs queues_ok_def pws_connect_def
      has_live_def cur_promise_def sends_queued_def promise_at_def split: if_splits)

inductive_cases pws_stepE: "pws_step react opts s t"

interpretation reconnecting: invariant_system
    "pws_start valid_url options" "pws_step react (with_defaults options)" "pws_inv (with_defaults options)"
  by unfold_locales (erule start_inv, erule pws_stepE, simp add: do_task_inv)

section \<open>Properties of every run\<close>

text \<open>
  C5: in every reachable state, whatever the client and its listeners do, there is at most one
  connection: the sockets that are not closed and the scheduled reconnections together number at
  most one.
\<close>

theorem single_connection:
  assumes "reach (pws_start valid_url options) (pws_step react (with_defaults options)) s"
  shows "card {w. w < length (socks s) \<and> live (socks s ! w)} + length (reconnects s) \<le> 1"
proof -
  let ?L = "{w. w < length (socks s) \<and> live (socks s ! w)}"
  have one: "one_connection s"
    using reconnecting.inv_reach [OF assms] by (simp add: pws_inv_def pws_mid_def)
  show ?thesis
  proof (cases "has_live s")
    case True
    then obtain w where w: "w \<in> ?L" by (auto simp: has_live_def)
    then have "?L = {w}" using one by (auto simp: one_connection_def)
    then have "card ?L = 1" by simp
    with one True show ?thesis by (simp add: one_connection_def)
  next
    case False
    then have "?L = {}" by (auto simp: has_live_def)
    then have "card ?L = 0" by (simp only: card.empty)
    moreover have "length (reconnects s) \<le> 1" using one by (simp add: one_connection_def)
    ultimately show ?thesis by linarith
  qed
qed

text \<open>
  C20: with \<^verbatim>\<open>maxRetries\<close> m, never more than m + 1 consecutive connections have failed, and while one
  is under way or scheduled at most m have.
\<close>

theorem retries_bounded:
  assumes "reach (pws_start valid_url options) (pws_step react (with_defaults options)) s"
    and "maxRetries options = Some m" and "0 \<le> m"
  shows "int (attempts s) \<le> m + 1 \<and> (has_live s \<or> reconnects s \<noteq> [] \<longrightarrow> int (attempts s) \<le> m)"
  using reconnecting.inv_reach [OF assms(1)] assms(2,3)
  by (simp add: pws_inv_def pws_mid_def retries_ok_def with_defaults_def)

text \<open>
  C17: no \<^verbatim>\<open>send\<close> is forgotten: in every reachable state a \<^verbatim>\<open>send\<close> whose promise is pending waits on the
  current, pending, promise for a connection.
\<close>

theorem pending_sends_wait:
  assumes "reach (pws_start valid_url options) (pws_step react (with_defaults options)) s"
    and "k < length (send_results s)" and "send_results s ! k = Pending"
  shows "cur_promise s = Pending \<and> (\<exists>d. (current s, SendReaction k d) \<in> set (reactions s))"
proof -
  have ok: "promises_ok s" "queues_ok s" "microtasks s = []"
    using reconnecting.inv_reach [OF assms(1)] by (simp_all add: pws_inv_def pws_mid_def)
  then obtain i d where r: "(i, SendReaction k d) \<in> set (reactions s)"
    using assms(2,3) by (auto simp: queues_ok_def sends_queued_def)
  then have i: "i < length (promises s)" "promise_at (promises s) i = Pending"
    using ok(2) by (auto simp: queues_ok_def)
  then have "i = current s" using ok(1) by (auto simp: promises_ok_def)
  with r i show ?thesis by (auto simp: cur_promise_def)
qed

text \<open>What a task can change once no socket is alive and none is scheduled.\<close>

lemma has_live_update:
  assumes "live (f (socks s ! w)) = live (socks s ! w)"
  shows "has_live (update_sock w f s) = has_live s"
proof -
  have "live (socks (update_sock w f s) ! i) = live (socks s ! i)" if "i < length (socks s)" for i
    using assms that by (cases "i = w") (simp_all add: update_sock_def)
  moreover have "length (socks (update_sock w f s)) = length (socks s)" by (simp add: update_sock_def)
  ultimately show ?thesis by (auto simp: has_live_def)
qed

lemma has_live_results: "has_live (s\<lparr>send_results := x\<rparr>) = has_live s"
  by (simp add: has_live_def)

lemma run_reaction_frame:
  "length (socks (run_reaction m s)) = length (socks s) \<and> reconnects (run_reaction m s) = reconnects s \<and>
   readyState (run_reaction m s) = readyState s \<and> attempts (run_reaction m s) = attempts s \<and>
   current (run_reaction m s) = current s \<and> promises (run_reaction m s) = promises s \<and>
   heard (run_reaction m s) = heard s \<and> has_live (run_reaction m s) = has_live s"
proof -
  obtain r p where m: "m = (r, p)" by (cases m)
  show ?thesis
  proof (cases p)
    case (Fulfilled w)
    show ?thesis
    proof (cases r)
      case (CloseReaction code reason)
      have "live (sock_close code reason (socks s ! w)) = live (socks s ! w)"
        by (simp add: sock_close_def live_def)
      with has_live_update [of "sock_close code reason" s w] m Fulfilled CloseReaction show ?thesis by (simp add: update_sock_def)
    next
      case (SendReaction k d)
      obtain q sk where q: "sock_send d (socks s ! w) = (q, sk)" by (cases "sock_send d (socks s ! w)")
      have "live sk = live (socks s ! w)" using same_life_send [OF q] by (simp add: same_life_def)
      with has_live_update [of "\<lambda>_. sk" s w] q m Fulfilled SendReaction show ?thesis
        by (cases q) (simp_all add: has_live_results update_sock_def)
    qed
  qed (cases r; simp add: m has_live_results)+
qed

lemma run_microtasks_frame:
  fixes s :: "('l, 'd) pws"
  shows "length (socks (run_microtasks s)) = length (socks s) \<and> reconnects (run_microtasks s) = reconnects s \<and>
   readyState (run_microtasks s) = readyState s \<and> attempts (run_microtasks s) = attempts s \<and>
   current (run_microtasks s) = current s \<and> promises (run_microtasks s) = promises s \<and>
   heard (run_microtasks s) = heard s \<and> has_live (run_microtasks s) = has_live s"
proof -
  have "length (socks (fold run_reaction ms t)) = length (socks t) \<and>
      reconnects (fold run_reaction ms t) = reconnects t \<and>
      readyState (fold run_reaction ms t) = readyState t \<and> attempts (fold run_reaction ms t) = attempts t \<and>
      current (fold run_reaction ms t) = current t \<and> promises (fold run_reaction ms t) = promises t \<and>
      heard (fold run_reaction ms t) = heard t \<and> has_live (fold run_reaction ms t) = has_live t"
    for ms and t :: "('l, 'd) pws"
    by (induction ms arbitrary: t) (simp_all add: run_reaction_frame)
  moreover have "has_live (s\<lparr>microtasks := []\<rparr>) = has_live s" by (simp add: has_live_def)
  ultimately show ?thesis by (simp add: run_microtasks_def)
qed

lemmas microtask_frames = run_microtasks_frame [THEN conjunct1]
  run_microtasks_frame [THEN conjunct2, THEN conjunct1]
  run_microtasks_frame [THEN conjunct2, THEN conjunct2, THEN conjunct1]
  run_microtasks_frame [THEN conjunct2, THEN conjunct2, THEN conjunct2, THEN conjunct1]
  run_microtasks_frame [THEN conjunct2, THEN conjunct2, THEN conjunct2, THEN conjunct2, THEN conjunct1]
  run_microtasks_frame [THEN conjunct2, THEN conjunct2, THEN conjunct2, THEN conjunct2, THEN conjunct2, THEN conjunct1]
  run_microtasks_frame [THEN conjunct2, THEN conjunct2, THEN conjunct2, THEN conjunct2, THEN conjunct2, THEN conjunct2, THEN conjunct1]
  run_microtasks_frame [THEN conjunct2, THEN conjunct2, THEN conjunct2, THEN conjunct2, THEN conjunct2, THEN conjunct2, THEN conjunct2]

text \<open>
  A persistent socket that is down stays down: once no socket is alive and no reconnection is
  scheduled, only calls of the client are left, and none opens a socket or schedules one.
\<close>

definition down :: "('l, 'd) pws \<Rightarrow> bool" where
  "down s = (\<not> has_live s \<and> reconnects s = [])"

lemma down_only_client:
  "pws_inv opts s \<Longrightarrow> down s \<Longrightarrow> enabled k s \<Longrightarrow> \<exists>as. k = Client as"
  by (cases k) (auto simp: down_def has_live_def live_def pws_inv_def pws_mid_def timeouts_ok_def)

lemma down_client:
  assumes "down s"
  shows "down (do_task react opts (Client as) s)"
    and "length (socks (do_task react opts (Client as) s)) = length (socks s)"
    and "readyState s = CLOSED \<Longrightarrow> readyState (do_task react opts (Client as) s) = CLOSED"
proof -
  note same = frame_same(1,2,7) [OF pws_frame_apis [of s as]]
  then have "has_live (snd (run_apis as s)) = has_live s" by (simp add: has_live_def)
  with assms same show "down (do_task react opts (Client as) s)"
    "length (socks (do_task react opts (Client as) s)) = length (socks s)"
    "readyState s = CLOSED \<Longrightarrow> readyState (do_task react opts (Client as) s) = CLOSED"
    by (auto simp: down_def do_task_def microtask_frames)
qed

lemma down_stays_down:
  assumes "pws_inv opts s" and "down s" and "pws_step react opts s t"
  shows "down t \<and> length (socks t) = length (socks s)"
proof -
  obtain k where k: "enabled k s" "t = do_task react opts k s" using assms(3) by (auto elim: pws_stepE)
  then show ?thesis using down_only_client [OF assms(1,2)] down_client [OF assms(2)] by blast
qed

section \<open>Closing and giving up\<close>

lemma closed_task:
  assumes "pws_inv opts s"
    and "readyState s = CLOSED" and "enabled (SockClose w d) s"
  shows "readyState (do_task react opts (SockClose w d) s) = CLOSED" and "down (do_task react opts (SockClose w d) s)"
    and "socks (run_task react opts (SockClose w d) s) = socks (update_sock w (\<lambda>k. k\<lparr>sstate := SClosed, timeout := False\<rparr>) s)"
proof -
  define u where "u = update_sock w (\<lambda>k. k\<lparr>sstate := SClosed, timeout := False\<rparr>) s"
  have mid: "pws_mid opts s" using assms(1) by (simp add: pws_inv_def)
  have w: "w < length (socks s)" "live (socks s ! w)" using assms(3) by simp_all
  note dead = closed_mid(2,3) [OF mid w, folded u_def]
  have u: "update_sock w (\<lambda>k. k\<lparr>timeout := False\<rparr>) (update_sock w (\<lambda>k. k\<lparr>sstate := SClosed\<rparr>) s) = u"
    "readyState u = CLOSED"
    using w assms(2) by (simp_all add: u_def update_sock_def)
  obtain r v where v: "pws_dispatch react (new_event ''close'' d) u = (r, v)"
    by (cases "pws_dispatch react (new_event ''close'' d) u")
  have same: "socks v = socks u" "reconnects v = reconnects u" "readyState v = CLOSED"
    using frame_same(1,2,7) [OF pws_dispatch_frame [of u react "new_event ''close'' d"]] v u(2) by auto
  have "run_task react opts (SockClose w d) s = (case r of Inl e \<Rightarrow> v | Inr _ \<Rightarrow> settle_current (Rejected ConnectionClosed) v)"
    using u v by (simp add: onclose_def Let_def split: sum.splits)
  moreover have "has_live v = has_live u" using same by (simp add: has_live_def)
  ultimately show "readyState (do_task react opts (SockClose w d) s) = CLOSED" "down (do_task react opts (SockClose w d) s)"
    "socks (run_task react opts (SockClose w d) s) = socks (update_sock w (\<lambda>k. k\<lparr>sstate := SClosed, timeout := False\<rparr>) s)"
    using same dead by (cases r; simp add: do_task_def microtask_frames down_def u_def)+
qed

text \<open>
  After \<^verbatim>\<open>close()\<close> on an open connection the state is CLOSED and the promise for a socket is settled (or
  no socket is left), so nothing is connecting and no reconnection is scheduled; and the browser's
  socket was told to close.
\<close>

definition all_closing :: "('l, 'd) pws \<Rightarrow> bool" where
  "all_closing s = (\<forall>k \<in> set (socks s). live k \<longrightarrow> sstate k = SClosing)"

definition shutting :: "bool \<Rightarrow> ('l, 'd) pws \<Rightarrow> bool" where
  "shutting told s =
     (readyState s = CLOSED \<and> (cur_promise s \<noteq> Pending \<or> down s) \<and> (told \<longrightarrow> all_closing s))"

lemma shutting_idle:
  assumes "pws_inv opts s" and "shutting told s"
  shows "reconnects s = []" "w < length (socks s) \<Longrightarrow> sstate (socks s ! w) \<noteq> SConnecting"
    "w < length (socks s) \<Longrightarrow> \<not> timeout (socks s ! w)"
proof -
  have ok: "phase_ok s" "timeouts_ok s" using assms(1) by (simp_all add: pws_inv_def pws_mid_def)
  have "cur_promise s \<noteq> Pending \<or> down s" using assms(2) by (simp add: shutting_def)
  then have both: "reconnects s = []" "\<forall>w < length (socks s). sstate (socks s ! w) \<noteq> SConnecting"
    using ok(1) unfolding phase_ok_def down_def has_live_def live_def by (metis sock_state.distinct(5))+
  then show "reconnects s = []" "w < length (socks s) \<Longrightarrow> sstate (socks s ! w) \<noteq> SConnecting" by blast+
  from both(2) ok(2) show "w < length (socks s) \<Longrightarrow> \<not> timeout (socks s ! w)" by (auto simp: timeouts_ok_def)
qed

lemma update_closing:
  assumes "all_closing s"
    and "\<And>k. live (f k) \<Longrightarrow> live k \<and> (sstate k = SClosing \<longrightarrow> sstate (f k) = SClosing)"
  shows "all_closing (update_sock w f s)"
proof (cases "w < length (socks s)")
  case True
  then have "set (socks (update_sock w f s)) \<subseteq> insert (f (socks s ! w)) (set (socks s))" "socks s ! w \<in> set (socks s)"
    by (simp_all add: update_sock_def set_update_subset_insert)
  with assms show ?thesis unfolding all_closing_def by blast
qed (use assms(1) in \<open>simp add: update_sock_def all_closing_def list_update_beyond\<close>)

lemma reaction_closing:
  assumes "all_closing s"
  shows "all_closing (run_reaction m s)"
proof -
  obtain r p where m: "m = (r, p)" by (cases m)
  have results: "all_closing (t\<lparr>send_results := x\<rparr>) = all_closing t" for t :: "('a, 'b) pws" and x
    by (simp add: all_closing_def)
  show ?thesis
  proof (cases p)
    case (Fulfilled w)
    have "all_closing (update_sock w (sock_close code reason) s)" for code reason
      by (rule update_closing [OF assms]) (auto simp: sock_close_def live_def split: if_splits)
    moreover have "all_closing (update_sock w (\<lambda>k. snd (sock_send d k)) s)" for d
      by (rule update_closing [OF assms]) (auto simp: sock_send_def live_def split: sock_state.splits)
    then have "all_closing (update_sock w (\<lambda>_. sk) s)" if "sock_send d (socks s ! w) = (q, sk)" for d q sk
      using that by (metis update_sock_def snd_conv)
    ultimately show ?thesis
      using m Fulfilled assms by (cases r) (auto simp: results split: prod.splits sum.splits)
  qed (use m assms in \<open>cases r; simp add: results\<close>)+
qed

lemma microtasks_closing: "all_closing s \<Longrightarrow> all_closing (run_microtasks s)"
proof -
  have "all_closing t \<Longrightarrow> all_closing (fold run_reaction ms t)" for ms and t :: "('a, 'b) pws"
    by (induction ms arbitrary: t) (simp_all add: reaction_closing)
  from this [of "s\<lparr>microtasks := []\<rparr>" "microtasks s"]
  show "all_closing s \<Longrightarrow> all_closing (run_microtasks s)" by (simp add: run_microtasks_def) (simp add: all_closing_def)
qed

lemma shutting_microtasks: "shutting told s \<Longrightarrow> shutting told (run_microtasks s)"
  using microtasks_closing [of s] by (auto simp: shutting_def microtask_frames cur_promise_def down_def)

lemma shutting_frame: "shutting told s \<Longrightarrow> pws_frame s t \<Longrightarrow> shutting told t"
  using frame_same [of s t] by (auto simp: shutting_def down_def has_live_def all_closing_def)

lemma shutting_task:
  assumes "pws_inv opts s" and "shutting told s" and "enabled k s"
  shows "shutting told (do_task react opts k s) \<and> length (socks (do_task react opts k s)) = length (socks s)"
proof -
  note idle = shutting_idle [OF assms(1,2)]
  have frame: "shutting told (run_microtasks t) \<and> length (socks (run_microtasks t)) = length (socks s)" if "pws_frame s t" for t
    using shutting_microtasks shutting_frame [OF assms(2) that] frame_same(1) [OF that] by (auto simp: microtask_frames)
  show ?thesis
  proof (cases k)
    case (SockClose w d)
    have rs: "readyState s = CLOSED" using assms(2) by (simp add: shutting_def)
    note closed = closed_task [OF assms(1) rs, of w d react]
    have "told \<longrightarrow> all_closing (update_sock w (\<lambda>k. k\<lparr>sstate := SClosed, timeout := False\<rparr>) s)"
      using assms(2) by (auto simp: shutting_def live_def intro: update_closing)
    then have "told \<longrightarrow> all_closing (run_task react opts k s)"
      using closed(3) assms(3) SockClose by (simp add: all_closing_def)
    then have "told \<longrightarrow> all_closing (do_task react opts k s)" by (simp add: do_task_def microtasks_closing)
    moreover have "length (socks (do_task react opts k s)) = length (socks s)"
      using closed(3) assms(3) SockClose by (simp add: do_task_def microtask_frames update_sock_def)
    ultimately show ?thesis using closed(1,2) assms(3) SockClose by (simp add: shutting_def)
  next
    case (ConnectTimeout w)
    with assms(3) idle(3) [of w] show ?thesis by simp
  qed (use assms(3) idle frame [OF pws_dispatch_frame] frame [OF pws_frame_refl] frame [OF pws_frame_apis]
      in \<open>auto simp: do_task_def\<close>)
qed

lemma open_shutting:
  assumes "pws_inv opts s" and "readyState s = OPEN"
  shows "shutting (close_args_ok code reason) (do_task react opts (Client [ApiClose code reason]) s)"
    "length (socks (do_task react opts (Client [ApiClose code reason]) s)) = length (socks s)"
proof -
  let ?t = "pws_close code reason s"
  have ok: "one_connection s" "phase_ok s" "microtasks s = []" using assms(1) by (simp_all add: pws_inv_def pws_mid_def)
  have run: "do_task react opts (Client [ApiClose code reason]) s = run_microtasks ?t" by (simp add: do_task_def)
  note same = frame_same(1,2,6) [OF pws_frame_close [of s code reason]]
  show "length (socks (do_task react opts (Client [ApiClose code reason]) s)) = length (socks s)"
    using same by (simp add: run microtask_frames)
  show "shutting (close_args_ok code reason) (do_task react opts (Client [ApiClose code reason]) s)"
  proof (cases "has_live s")
    case True
    then obtain w where w: "w < length (socks s)" "live (socks s ! w)" by (auto simp: has_live_def)
    then have cur: "cur_promise s = Fulfilled w" using ok(2) assms(2) by (simp add: phase_ok_def)
    then have t: "run_microtasks ?t = update_sock w (sock_close code reason) (s\<lparr>readyState := CLOSED\<rparr>)"
      using assms(2) ok(3) by (simp add: pws_close_def then_do_def cur_promise_def run_microtasks_def update_sock_def)
    have "sstate k = SClosing" if args: "close_args_ok code reason" and k: "live k" "k \<in> set (socks (run_microtasks ?t))" for k
    proof -
      obtain i where i: "i < length (socks s)" "k = (socks s)[w := sock_close code reason (socks s ! w)] ! i"
        using k(2) by (auto simp: t update_sock_def in_set_conv_nth)
      with args k(1) w ok(1) show ?thesis by (cases "i = w") (auto simp: one_connection_def sock_close_def)
    qed
    with cur same(3) show ?thesis unfolding run by (simp add: shutting_def microtask_frames cur_promise_def pws_close_def all_closing_def)
  next
    case False
    with ok(2) assms(2) same have "down ?t" by (simp add: down_def has_live_def phase_ok_def)
    moreover have "\<not> live k" if "k \<in> set (socks s)" for k using that False by (auto simp: has_live_def in_set_conv_nth)
    ultimately have "shutting (close_args_ok code reason) ?t" using same(1) by (simp add: shutting_def all_closing_def) (simp add: pws_close_def)
    then show ?thesis unfolding run by (rule shutting_microtasks)
  qed
qed

text \<open>
  C23: \<^verbatim>\<open>close()\<close> on an open connection ends it for good. When the client calls \<^verbatim>\<open>close\<close> while \<^verbatim>\<open>readyState\<close>
  is OPEN (not from a listener during a disconnection), then along every continuation, whatever the
  listeners and the client do, \<^verbatim>\<open>readyState\<close> stays CLOSED, no socket is ever opened again and no
  reconnection is scheduled; and if \<^verbatim>\<open>WebSocket.close\<close> accepts the arguments, every socket that is not yet
  closed is closing.
\<close>

theorem closed_never_reconnects:
  assumes "reach (pws_start valid_url options) (pws_step react (with_defaults options)) s" and "readyState s = OPEN"
    and "(pws_step react (with_defaults options))\<^sup>*\<^sup>*
      (do_task react (with_defaults options) (Client [ApiClose code reason]) s) t"
  shows "readyState t = CLOSED \<and> length (socks t) = length (socks s) \<and> reconnects t = [] \<and>
    (close_args_ok code reason \<longrightarrow> (\<forall>k \<in> set (socks t). live k \<longrightarrow> sstate k = SClosing))"
proof -
  let ?o = "with_defaults options"
  let ?c = "do_task react ?o (Client [ApiClose code reason]) s"
  have inv: "pws_inv ?o s" by (rule reconnecting.inv_reach [OF assms(1)])
  have "pws_inv ?o t \<and> shutting (close_args_ok code reason) t \<and> length (socks t) = length (socks s)"
    using assms(3)
  proof (induction rule: rtranclp_induct)
    case base
    then show ?case using open_shutting [OF inv assms(2)] do_task_inv [OF inv] by simp
  next
    case (step x y)
    then show ?case using shutting_task do_task_inv by (metis pws_stepE)
  qed
  then show ?thesis using shutting_idle(1) by (auto simp: shutting_def all_closing_def)
qed

text \<open>
  Giving up is silent: when the last allowed attempt fails, the state becomes CLOSED and the
  promise that \<^verbatim>\<open>send\<close> waits on is rejected with \<^verbatim>\<open>MaxRetriesExceeded\<close>, but no listener is called: a
  \<^verbatim>\<open>close\<close> listener does not learn that the connection is gone.
\<close>

lemma gives_up_silently:
  assumes "reach (pws_start valid_url options) (pws_step react (with_defaults options)) s"
    and "readyState s = CONNECTING" and "maxRetries options = Some (int (attempts s))"
    and "enabled (SockClose w d) s"
  shows "let t = do_task react (with_defaults options) (SockClose w d) s
    in readyState t = CLOSED \<and> cur_promise t = Rejected MaxRetriesExceeded \<and> heard t = heard s"
proof -
  let ?o = "with_defaults options"
  define u where "u = update_sock w (\<lambda>k. k\<lparr>sstate := SClosed, timeout := False\<rparr>) s"
  have mid: "pws_mid ?o s" using reconnecting.inv_reach [OF assms(1)] by (simp add: pws_inv_def)
  have u: "update_sock w (\<lambda>k. k\<lparr>timeout := False\<rparr>) (update_sock w (\<lambda>k. k\<lparr>sstate := SClosed\<rparr>) s) = u"
    "readyState u = CONNECTING" "attempts u = attempts s" "heard u = heard s"
    using assms(2,4) by (simp_all add: u_def update_sock_def)
  have pend: "promise_at (promises u) (current u) = Pending" "current u < length (promises u)"
    using mid assms(2) by (auto simp: mid_defs u_def update_sock_def cur_promise_def)
  have "set_maxRetries ?o = Some (int (attempts u))" using assms(3) u(3) by (simp add: with_defaults_def)
  then have "run_task react ?o (SockClose w d) s =
      settle_current (Rejected MaxRetriesExceeded) (u\<lparr>attempts := attempts u + 1, readyState := CLOSED\<rparr>)"
    using u by (simp add: onclose_def Let_def pws_close_def)
  with pend u(4) show ?thesis
    by (simp add: do_task_def microtask_frames cur_promise_def settle_current_def promise_at_settle)
qed

text \<open>A server that refuses every connection: each attempt closes, then the retry timer fires.\<close>

definition failing :: "'d \<Rightarrow> nat \<Rightarrow> ('l, 'd) task list" where
  "failing d n = concat (map (\<lambda>i. [SockClose i d, ReconnectTimer 0]) [0..<n])"

text \<open>The state in which the attempt number \<open>n\<close> is under way.\<close>

definition attempting :: "nat \<Rightarrow> ('l, 'd) pws \<Rightarrow> bool" where
  "attempting n s =
     (readyState s = CONNECTING \<and> attempts s = n \<and> reconnects s = [] \<and> length (socks s) = Suc n \<and>
      live (socks s ! n) \<and> cur_promise s = Pending \<and> current s < length (promises s) \<and> microtasks s = [])"

lemma start_attempting: "pws_start valid_url options s \<Longrightarrow> attempting 0 s"
  by (auto simp: pws_start_def createPersistentWebSocket_def attempting_def pws_connect_def cur_promise_def
      promise_at_def live_def split: if_splits)

lemma fail_once:
  assumes "attempting n s" and "set_maxRetries opts \<noteq> Some (int n)"
  shows "attempting (Suc n) (do_tasks react opts [SockClose n d, ReconnectTimer 0] s)"
  using assms
  by (simp add: attempting_def do_tasks_def do_task_def onclose_def Let_def update_sock_def run_microtasks_def
      pws_connect_def cur_promise_def live_def nth_append)

lemma failing_attempts:
  assumes "attempting 0 s" and "\<And>i. i < n \<Longrightarrow> set_maxRetries opts \<noteq> Some (int i)"
  shows "attempting n (do_tasks react opts (failing d n) s)"
  using assms(2)
proof (induction n)
  case 0
  then show ?case using assms(1) by (simp add: failing_def do_tasks_def)
next
  case (Suc n)
  have "do_tasks react opts (failing d (Suc n)) s =
      do_tasks react opts [SockClose n d, ReconnectTimer 0] (do_tasks react opts (failing d n) s)"
    by (simp add: failing_def do_tasks_def)
  with Suc show ?case by (simp add: fail_once)
qed

text \<open>
  C18: with \<^verbatim>\<open>maxRetries\<close> n and a server that refuses every connection, exactly n + 1 sockets are
  opened; then the state is CLOSED, the pending promise is rejected with \<^verbatim>\<open>MaxRetriesExceeded\<close> and
  nothing more is scheduled.
\<close>

theorem gives_up_after_max_retries:
  assumes "pws_start valid_url options s" and "maxRetries options = Some (int n)"
  shows "let t = do_tasks react (with_defaults options) (failing d n @ [SockClose n d]) s
    in length (socks t) = n + 1 \<and> readyState t = CLOSED \<and> cur_promise t = Rejected MaxRetriesExceeded \<and>
       reconnects t = []"
proof -
  let ?o = "with_defaults options"
  define u where "u = do_tasks react ?o (failing d n) s"
  have max: "set_maxRetries ?o = Some (int n)" using assms(2) by (simp add: with_defaults_def)
  have u: "attempting n u" unfolding u_def
    by (rule failing_attempts [OF start_attempting [OF assms(1)]]) (simp add: max)
  have "do_tasks react ?o (failing d n @ [SockClose n d]) s = do_task react ?o (SockClose n d) u"
    by (simp add: do_tasks_def u_def)
  also have "\<dots> = run_microtasks (settle_current (Rejected MaxRetriesExceeded)
      ((update_sock n (\<lambda>k. k\<lparr>sstate := SClosed, timeout := False\<rparr>) u)\<lparr>attempts := n + 1, readyState := CLOSED\<rparr>))"
    using u max by (simp add: attempting_def do_task_def onclose_def Let_def update_sock_def pws_close_def)
  finally show ?thesis
    using u
    by (simp add: Let_def attempting_def microtask_frames cur_promise_def settle_current_def promise_at_settle update_sock_def)
qed

text \<open>
  C19: with \<^verbatim>\<open>maxRetries\<close> negative or absent the socket never gives up: after any number of refused
  connections it is CONNECTING, the promise still pending and another attempt under way.
\<close>

theorem never_gives_up:
  assumes "pws_start valid_url options s" and "\<And>m. maxRetries options = Some m \<Longrightarrow> m < 0"
  shows "let t = do_tasks react (with_defaults options) (failing d n) s
    in readyState t = CONNECTING \<and> length (socks t) = n + 1 \<and> live (socks t ! n) \<and> cur_promise t = Pending"
proof -
  have "set_maxRetries (with_defaults options) \<noteq> Some (int i)" for i
    using assms(2) [of "int i"] by (auto simp: with_defaults_def)
  then have "attempting n (do_tasks react (with_defaults options) (failing d n) s)"
    using failing_attempts [OF start_attempting [OF assms(1)]] by blast
  then show ?thesis by (simp add: attempting_def)
qed

text \<open>Nothing but sends waits for the connection.\<close>

definition only_sends :: "('l, 'd) pws \<Rightarrow> bool" where
  "only_sends s = (\<forall>(i, r) \<in> set (reactions s). \<exists>k d. r = SendReaction k d)"

lemma sends_keep_open:
  assumes "\<forall>(r, p) \<in> set ms. \<exists>k d. r = SendReaction k d"
    and "w < length (socks s)" and "sstate (socks s ! w) = SOpen"
  shows "sstate (socks (fold run_reaction ms s) ! w) = SOpen"
  using assms
proof (induction ms arbitrary: s)
  case (Cons m ms)
  obtain k d p where m: "m = (SendReaction k d, p)" using Cons.prems(1) by (cases m) auto
  have "sstate (socks (run_reaction m s) ! w) = SOpen"
  proof (cases p)
    case (Fulfilled v)
    obtain q sk where q: "sock_send d (socks s ! v) = (q, sk)" by (cases "sock_send d (socks s ! v)")
    then have "sstate sk = sstate (socks s ! v)" by (auto simp: sock_send_def split: sock_state.splits)
    with Cons.prems(2,3) q m Fulfilled show ?thesis
      by (cases "v = w"; cases q) (auto simp: update_sock_def nth_list_update)
  qed (use m Cons.prems(3) in simp_all)
  moreover have "w < length (socks (run_reaction m s))" using Cons.prems(2) by (simp add: run_reaction_frame)
  ultimately show ?case using Cons.IH Cons.prems(1) by simp
qed simp

lemma no_listeners: "stack_of s type = [] \<Longrightarrow> type \<notin> set object_prototype \<Longrightarrow> event_type e = type \<Longrightarrow> snd (pws_dispatch react e s) = s"
  by (auto simp: stack_of_def pws_dispatch_def dispatchEvent_def listeners_at_def obj_lookup_def
      split: lookup.splits option.splits if_splits)

lemma run_reaction_reactions: "reactions (run_reaction m s) = reactions s"
  by (induction m s rule: run_reaction.induct) (auto simp: update_sock_def split: prod.splits sum.splits)

lemma fold_reaction_frame:
  "reactions (fold run_reaction ms s) = reactions s" "microtasks (fold run_reaction ms s) = microtasks s"
  by (induction ms arbitrary: s) (simp_all add: run_reaction_microtasks run_reaction_reactions)

text \<open>
  C39: \<^verbatim>\<open>close()\<close> while the socket is connecting, for the first time or again, does not close it: when
  it then opens, the state is OPEN again, the socket is alive and nothing is going to close it.
\<close>

theorem close_while_connecting_undone:
  assumes "reach (pws_start valid_url options) (pws_step react (with_defaults options)) s"
    and "readyState s = CONNECTING" and "enabled (SockOpen w d) s" and "stack_of s (js ''open'') = []" and "only_sends s"
  shows "let t = do_tasks react (with_defaults options) [Client [ApiClose code reason], SockOpen w d] s
    in readyState t = OPEN \<and> sstate (socks t ! w) = SOpen \<and> reactions t = [] \<and> microtasks t = []"
proof -
  let ?o = "with_defaults options"
  define u where "u = s\<lparr>readyState := CLOSED\<rparr>"
  define v where "v = settle_current (Fulfilled w)
    ((update_sock w (\<lambda>k. k\<lparr>timeout := False, onerror := True\<rparr>) (update_sock w (\<lambda>k. k\<lparr>sstate := SOpen\<rparr>) u))\<lparr>attempts := 0, readyState := OPEN\<rparr>)"
  have inv: "pws_mid ?o s" "microtasks s = []" using reconnecting.inv_reach [OF assms(1)] by (simp_all add: pws_inv_def)
  have cur: "cur_promise s = Pending" using inv(1) assms(2) by (simp add: pws_mid_def phase_ok_def)
  have "promises_ok s" "queues_ok s" using inv(1) by (simp_all add: pws_mid_def)
  then have current: "i = current s" if "(i, r) \<in> set (reactions s)" for i r
    using that by (auto simp: queues_ok_def promises_ok_def)
  then have filters: "filter (\<lambda>(i, r). i = current s) (reactions s) = reactions s" "filter (\<lambda>(i, r). i \<noteq> current s) (reactions s) = []"
    by (auto intro!: filter_True simp: filter_empty_conv)
  have close: "do_task react ?o (Client [ApiClose code reason]) s = u"
    using assms(2) inv(2) by (simp add: do_task_def pws_close_def run_microtasks_def u_def)
  have v: "microtasks v = map (\<lambda>(i, r). (r, Fulfilled w)) (reactions s)" "reactions v = []" "readyState v = OPEN"
    "w < length (socks v)" "sstate (socks v ! w) = SOpen" "stack_of v (js ''open'') = []"
    using cur filters inv(2) assms(3,4)
    by (simp_all add: v_def u_def settle_current_def update_sock_def cur_promise_def stack_of_def listeners_at_def)
  have "run_task react ?o (SockOpen w d) u = v"
    using no_listeners [OF v(6), of "new_event ''open'' d" react]
    by (simp add: onopen_def v_def new_event_def object_prototype_def js_def)
  then have t: "do_tasks react ?o [Client [ApiClose code reason], SockOpen w d] s = run_microtasks v"
    using close by (simp add: do_tasks_def do_task_def)
  have "\<forall>(r, p) \<in> set (microtasks v). \<exists>k d. r = SendReaction k d"
    using assms(5) v(1) by (auto simp: only_sends_def)
  then have "sstate (socks (run_microtasks v) ! w) = SOpen"
    using sends_keep_open [of "microtasks v" w "v\<lparr>microtasks := []\<rparr>"] v(4,5) by (simp add: run_microtasks_def)
  then show ?thesis
    unfolding t Let_def using v by (simp add: microtask_frames) (simp add: run_microtasks_def fold_reaction_frame)
qed

section \<open>Sending before the connection is open\<close>

lemma queue_sends:
  assumes "readyState s = CONNECTING" "cur_promise s = Pending" "microtasks s = []"
  shows "do_tasks react opts (map (\<lambda>d. Client [ApiSend d]) ds) s =
    s\<lparr>send_results := send_results s @ replicate (length ds) Pending,
      reactions := reactions s @ map (\<lambda>(k, d). (current s, SendReaction k d))
        (zip [length (send_results s)..<length (send_results s) + length ds] ds)\<rparr>"
  using assms
proof (induction ds arbitrary: s)
  case Nil
  then show ?case by (simp add: do_tasks_def)
next
  case (Cons d ds)
  let ?t = "s\<lparr>send_results := send_results s @ [Pending],
    reactions := reactions s @ [(current s, SendReaction (length (send_results s)) d)]\<rparr>"
  have "do_task react opts (Client [ApiSend d]) s = ?t"
    using Cons.prems
    by (simp add: do_task_def pws_send_def newPromiseTriplet_def then_do_def cur_promise_def run_microtasks_def)
  moreover have "cur_promise ?t = Pending" using Cons.prems(2) by (simp add: cur_promise_def)
  ultimately show ?case
    using Cons.IH [of ?t] Cons.prems
    by (simp add: do_tasks_def upt_conv_Cons replicate_append_same [symmetric] del: upt_Suc)
qed

text \<open>The promises of the first \<open>j\<close> of \<open>n\<close> sends are fulfilled.\<close>

definition sent_results :: "nat \<Rightarrow> nat \<Rightarrow> unit promises" where
  "sent_results j n = replicate j (Fulfilled ()) @ replicate (n - j) Pending"

lemma deliver_sends:
  assumes "w < length (socks s)" and "sstate (socks s ! w) = SOpen" and "send_results s = sent_results j (j + length ds)"
  shows "let t = fold run_reaction (map (\<lambda>(k, d). (SendReaction k d, Fulfilled w)) (zip [j..<j + length ds] ds)) s
    in sent (socks t ! w) = sent (socks s ! w) @ ds \<and> send_results t = sent_results (j + length ds) (j + length ds)"
  using assms
proof (induction ds arbitrary: j s)
  case Nil
  then show ?case by simp
next
  case (Cons d ds)
  let ?t = "run_reaction (SendReaction j d, Fulfilled w) s"
  have res: "resolve j () (send_results s) = sent_results (Suc j) (Suc j + length ds)"
    using Cons.prems(3)
    by (simp add: sent_results_def settle_def promise_at_def nth_append list_update_append Suc_diff_le
        replicate_app_Cons_same)
  have sock: "sock_send d (socks s ! w) = (Inr (), (socks s ! w)\<lparr>sent := sent (socks s ! w) @ [d]\<rparr>)"
    using Cons.prems(2) by (simp add: sock_send_def)
  have t: "w < length (socks ?t)" "sstate (socks ?t ! w) = SOpen" "sent (socks ?t ! w) = sent (socks s ! w) @ [d]"
    "send_results ?t = sent_results (Suc j) (Suc j + length ds)"
    using Cons.prems(1,2) sock res by (simp_all add: update_sock_def)
  have "[j..<j + length (d # ds)] = j # [Suc j..<Suc j + length ds]" by (simp add: upt_conv_Cons del: upt_Suc)
  with Cons.IH [OF t(1,2,4)] t(3) show ?case by (simp del: upt_Suc run_reaction.simps add: Let_def)
qed

text \<open>
  C21: what is sent before the first connection is open is delivered when it opens: all of it, in
  the order of the calls, on the socket that opened, and every \<^verbatim>\<open>send\<close> promise is fulfilled.
\<close>

theorem sends_delivered_in_order:
  assumes "pws_start valid_url options s"
  shows "let t = do_tasks react (with_defaults options) (map (\<lambda>d. Client [ApiSend d]) ds @ [SockOpen 0 e]) s
    in sent (socks t ! 0) = ds \<and> send_results t = replicate (length ds) (Fulfilled ())"
proof -
  let ?o = "with_defaults options"
  let ?rs = "map (\<lambda>(k, d). (0::nat, SendReaction k d)) (zip [0..<length ds] ds)"
  define u where "u = s\<lparr>send_results := replicate (length ds) Pending, reactions := ?rs\<rparr>"
  have s: "readyState s = CONNECTING" "cur_promise s = Pending" "microtasks s = []" "current s = 0"
    "send_results s = []" "reactions s = []" "listeners s = []" "promises s = [Pending]" "length (socks s) = 1"
    "sent (socks s ! 0) = []"
    using assms
    by (auto simp: pws_start_def createPersistentWebSocket_def pws_connect_def cur_promise_def promise_at_def
        split: if_splits)
  have u: "do_tasks react ?o (map (\<lambda>d. Client [ApiSend d]) ds) s = u"
    using queue_sends [OF s(1-3), of react ?o ds] s(4-6) by (simp add: u_def)
  let ?v = "run_task react ?o (SockOpen 0 e) u"
  have filt: "filter (\<lambda>(i, r). i = 0) ?rs = ?rs" by (auto intro: filter_True)
  have v: "microtasks ?v = map (\<lambda>(k, d). (SendReaction k d, Fulfilled 0)) (zip [0..<length ds] ds)"
    "send_results ?v = sent_results 0 (0 + length ds)" "length (socks ?v) = 1" "sstate (socks ?v ! 0) = SOpen"
    "sent (socks ?v ! 0) = []"
    using s filt
    by (simp_all add: u_def onopen_def update_sock_def settle_current_def promise_at_def settle_def sent_results_def
        pws_dispatch_def dispatchEvent_def listeners_at_def obj_lookup_def obj_get_Nil object_prototype_def new_event_def js_def
        comp_def split_beta)
  have "do_tasks react ?o (map (\<lambda>d. Client [ApiSend d]) ds @ [SockOpen 0 e]) s = run_microtasks ?v"
    using u by (simp add: do_tasks_def do_task_def)
  also have "\<dots> = fold run_reaction (map (\<lambda>(k, d). (SendReaction k d, Fulfilled 0)) (zip [0..<0 + length ds] ds))
      (?v\<lparr>microtasks := []\<rparr>)"
    by (simp only: run_microtasks_def v add_0)
  finally show ?thesis
    using deliver_sends [of 0 "?v\<lparr>microtasks := []\<rparr>" 0 ds] v by (simp add: Let_def sent_results_def del: run_task.simps)
qed

section \<open>Unexpected disconnections\<close>

text \<open>Client code that does not throw.\<close>

fun calm_api :: "('l, 'd) api \<Rightarrow> bool" where
  "calm_api (ApiThrow e) = False"
| "calm_api (ApiAdd type l opts) = (type \<notin> set object_prototype)"
| "calm_api _ = True"

definition calm :: "('l, 'd) client \<Rightarrow> bool" where
  "calm react = (\<forall>l e r hs. list_all calm_api (react l e r hs))"

lemma calm_run_api: "calm_api a \<Longrightarrow> fst (run_api a s) = Inr ()"
  by (cases a) (auto simp: addEventListener_def listeners_at_def obj_lookup_def split: lookup.splits option.splits if_splits)

lemma calm_run_apis: "list_all calm_api as \<Longrightarrow> fst (run_apis as s) = Inr ()"
proof (induction as arbitrary: s)
  case (Cons a as)
  then show ?case using calm_run_api [of a s] by (cases "run_api a s") auto
qed simp

lemma calm_each:
  "calm react \<Longrightarrow> fst (dispatch_each (call_listener react) stack e s) = Inr ()"
proof (induction stack arbitrary: e s)
  case (Cons r stack)
  obtain l o1 where r: "r = (l, o1)" by (cases r)
  let ?t = "if truthy (once o1) then removeEventListener (event_type e) l (ObjectOptions o1) s else s"
  have "fst (call_listener react l e ?t) = Inr ()"
    using Cons.prems by (simp add: call_listener_def split_beta calm_def calm_run_apis)
  then obtain e' t' where "call_listener react l e ?t = (Inr (), e', t')"
    by (cases "call_listener react l e ?t") auto
  with Cons.IH [OF Cons.prems] r show ?case by simp
qed simp

lemma calm_dispatch:
  assumes "calm react" and "event_type e \<notin> set object_prototype"
  shows "fst (pws_dispatch react e s) = Inr ()"
proof (cases "listeners_at s (event_type e)")
  case (Own stack)
  then show ?thesis
    using calm_each [OF assms(1), of stack e s]
    by (auto simp: pws_dispatch_def dispatchEvent_def split: prod.splits sum.splits)
qed (use assms(2) in \<open>auto simp: pws_dispatch_def dispatchEvent_def listeners_at_def obj_lookup_def split: option.splits if_splits\<close>)

lemma close_type: "event_type (new_event ''close'' d) \<notin> set object_prototype"
  by (simp add: new_event_def object_prototype_def js_def)

lemma drop_task:
  assumes "pws_inv opts s"
    and "readyState s = OPEN" and "enabled (SockClose w d) s" and "calm react"
  shows "readyState (do_task react opts (SockClose w d) s) = CONNECTING \<and>
    reconnects (do_task react opts (SockClose w d) s) = [0] \<and> attempts (do_task react opts (SockClose w d) s) = attempts s"
proof -
  define u where "u = update_sock w (\<lambda>k. k\<lparr>sstate := SClosed, timeout := False\<rparr>) s"
  define n where "n = u\<lparr>current := fst (newPromiseTriplet (promises u)), promises := snd (newPromiseTriplet (promises u))\<rparr>"
  have mid: "pws_mid opts s" using assms(1) by (simp add: pws_inv_def)
  have w: "w < length (socks s)" "live (socks s ! w)" using assms(3) by simp_all
  note dead = closed_mid(3) [OF mid w, folded u_def]
  have u: "update_sock w (\<lambda>k. k\<lparr>timeout := False\<rparr>) (update_sock w (\<lambda>k. k\<lparr>sstate := SClosed\<rparr>) s) = u"
    "readyState u = OPEN" "attempts u = attempts s"
    using w assms(2) by (simp_all add: u_def update_sock_def)
  obtain v where v: "pws_dispatch react (new_event ''close'' d) n = (Inr (), v)"
    using calm_dispatch [OF assms(4) close_type, of d n] by (cases "pws_dispatch react (new_event ''close'' d) n") simp
  have same: "reconnects v = []" "attempts v = attempts s"
    using frame_same(2,5) [OF pws_dispatch_frame [of n react "new_event ''close'' d"]] v dead u(3) by (simp_all add: n_def)
  have "run_task react opts (SockClose w d) s =
      v\<lparr>attempts := attempts v, reconnects := reconnects v @ [0], readyState := CONNECTING\<rparr>"
    using u v by (simp add: onclose_def Let_def split_beta n_def)
  with same show ?thesis by (simp add: do_task_def microtask_frames)
qed

text \<open>
  C22: after an unexpected disconnection the socket always reconnects, at once and without using up
  a retry, as long as no \<^verbatim>\<open>close\<close> listener throws; even a listener that calls \<^verbatim>\<open>close()\<close> does not
  prevent it.
\<close>

theorem reconnects_after_drop:
  assumes "reach (pws_start valid_url options) (pws_step react (with_defaults options)) s"
    and "readyState s = OPEN" and "enabled (SockClose w d) s" and "calm react"
  shows "let t = do_task react (with_defaults options) (SockClose w d) s
    in readyState t = CONNECTING \<and> reconnects t = [0] \<and> attempts t = attempts s"
  using drop_task [OF reconnecting.inv_reach [OF assms(1)] assms(2-4)] by (simp add: Let_def)

end
