(* ===== verification/Persistent_Conn.thy ===== *)
theory Persistent_Conn
  imports Reconnection Web_Socket_Conn
begin

text \<open>
  A connection over a persistent socket, the way \<^verbatim>\<open>createWebSocketConn\<close> puts the parts together: its
  two listeners are registered on the socket, what they hear drives the connection, and the
  writer's bytes go to the socket's \<^verbatim>\<open>send\<close>. The listeners call nothing on the socket themselves.
  When the socket was made inside \<^verbatim>\<open>createWebSocketConn\<close> nobody can close it; when it was passed in,
  its owner can. At the end: what a read has delivered stays as it is in every later state.
\<close>

section \<open>Definitions\<close>

abbreviation quiet :: "(nat, jsval) client" where
  "quiet \<equiv> (\<lambda>l e r hs. [])"

record pconn =
  ws :: "(nat, jsval) pws"
  conn :: ws_conn
  writer :: ws_writer

text \<open>Listener 0 is the one for \<^verbatim>\<open>message\<close>, listener 1 the one for \<^verbatim>\<open>close\<close>.\<close>

definition connect_listeners :: "(nat, jsval) pws \<Rightarrow> (nat, jsval) pws" where
  "connect_listeners p =
     snd (addEventListener (js ''close'') 1 NoOptions (snd (addEventListener (js ''message'') 0 NoOptions p)))"

definition persistent_conn :: "(jsstring \<Rightarrow> bool) \<Rightarrow> options \<Rightarrow> pconn result" where
  "persistent_conn valid_url options =
     andThen (createPersistentWebSocket valid_url options)
       (\<lambda>p. Inr \<lparr>ws = connect_listeners p, conn = createWebSocketConn, writer = createWebSocketWriter\<rparr>)"

definition hear :: "nat \<times> jsval ws_event \<times> ready_state \<Rightarrow> conn_event list" where
  "hear = (\<lambda>(l, e, rs).
     if l = 0 \<and> event_type e = js ''message'' then [Incoming (event_data e)]
     else if l = 1 \<and> event_type e = js ''close'' then [Closing rs]
     else [])"

definition heard_events :: "(nat, jsval) pws \<Rightarrow> (nat, jsval) pws \<Rightarrow> conn_event list" where
  "heard_events p p' = concat (map hear (drop (length (heard p)) (heard p')))"

definition ws_task :: "('z) unicode_scheme \<Rightarrow> settings \<Rightarrow> (nat, jsval) task \<Rightarrow> pconn \<Rightarrow> pconn" where
  "ws_task u opts k s =
     (let p = do_task quiet opts k (ws s)
      in s\<lparr>ws := p, conn := snd (conn_run u (heard_events (ws s) p) (conn s))\<rparr>)"

definition conn_write :: "message \<Rightarrow> pconn \<Rightarrow> pconn" where
  "conn_write m s = s\<lparr>writer := write_message m (writer s)\<rparr>"

definition write_ready :: "('z) unicode_scheme \<Rightarrow> settings \<Rightarrow> nat \<Rightarrow> pconn \<Rightarrow> pconn" where
  "write_ready u opts i s =
     (case map_of (buffering (writer s)) i of
        None \<Rightarrow> s
      | Some bs \<Rightarrow> ws_task u opts (Client [ApiSend (JBuffer bs)]) (s\<lparr>writer := on_buffered i (writer s)\<rparr>))"

fun browser_task :: "('l, 'd) task \<Rightarrow> bool" where
  "browser_task (Client as) = False"
| "browser_task k = True"

inductive pconn_step :: "('z) unicode_scheme \<Rightarrow> settings \<Rightarrow> bool \<Rightarrow> pconn \<Rightarrow> pconn \<Rightarrow> bool"
  for u :: "('z) unicode_scheme" and opts :: settings and closable :: bool where
  browser [step_intros]: "browser_task k \<Longrightarrow> enabled k (ws s) \<Longrightarrow> pconn_step u opts closable s (ws_task u opts k s)"
| reading [step_intros]: "pconn_step u opts closable s (s\<lparr>conn := snd (conn_read (conn s))\<rparr>)"
| parsed [step_intros]: "pconn_step u opts closable s (s\<lparr>conn := snd (on_parsed u i (conn s))\<rparr>)"
| writing [step_intros]: "pconn_step u opts closable s (conn_write m s)"
| buffered [step_intros]: "pconn_step u opts closable s (write_ready u opts i s)"
| owner_close [step_intros]: "closable \<Longrightarrow> pconn_step u opts closable s (ws_task u opts (Client [ApiClose code reason]) s)"

definition pconn_start :: "(jsstring \<Rightarrow> bool) \<Rightarrow> options \<Rightarrow> pconn \<Rightarrow> bool" where
  "pconn_start valid_url options s = (persistent_conn valid_url options = Inr s)"

section \<open>What the listeners hear\<close>

lemma heard_remove [simp]:
  "heard (removeEventListener type l opts s) = heard s" "readyState (removeEventListener type l opts s) = readyState s"
  by (simp_all add: removeEventListener_def split: lookup.splits)

lemma quiet_each:
  "heard (snd (snd (dispatch_each (call_listener quiet) stack e s))) =
     heard s @ map (\<lambda>r. (fst r, e, readyState s)) stack \<and>
   readyState (snd (snd (dispatch_each (call_listener quiet) stack e s))) = readyState s"
proof (induction stack arbitrary: s)
  case (Cons r stack)
  obtain l o1 where r: "r = (l, o1)" by (cases r)
  let ?t = "if truthy (once o1) then removeEventListener (event_type e) l (ObjectOptions o1) s else s"
  have "call_listener quiet l e ?t = (Inr (), e, ?t\<lparr>heard := heard s @ [(l, e, readyState s)]\<rparr>)"
    by (simp add: call_listener_def)
  with Cons.IH [of "?t\<lparr>heard := heard s @ [(l, e, readyState s)]\<rparr>"] r show ?case by simp
qed simp

lemma quiet_dispatch:
  "\<exists>ls. heard (snd (pws_dispatch quiet e s)) = heard s @ map (\<lambda>l. (l, e, readyState s)) ls"
  "readyState (snd (pws_dispatch quiet e s)) = readyState s"
proof -
  let ?d = "dispatch_each (call_listener quiet)"
  have eq: "snd (pws_dispatch quiet e s) =
      (case listeners_at s (event_type e) of Own stack \<Rightarrow> snd (snd (?d stack e s)) | _ \<Rightarrow> s)"
    by (auto simp: pws_dispatch_def dispatchEvent_def split: lookup.splits prod.splits sum.splits)
  show "readyState (snd (pws_dispatch quiet e s)) = readyState s"
    unfolding eq using quiet_each by (auto split: lookup.splits)
  show "\<exists>ls. heard (snd (pws_dispatch quiet e s)) = heard s @ map (\<lambda>l. (l, e, readyState s)) ls"
  proof (cases "listeners_at s (event_type e)")
    case (Own stack)
    then show ?thesis unfolding eq using quiet_each by (intro exI [of _ "map fst stack"]) (simp add: comp_def)
  qed (auto simp: eq)
qed

lemma quiet_calm: "calm quiet"
  by (simp add: calm_def)

text \<open>A task that is not a close event is heard, if at all, as messages.\<close>

lemma event_names: "js ''message'' \<noteq> js ''close''" "js ''open'' \<noteq> js ''close''" "js ''error'' \<noteq> js ''close''"
  by code_simp+

lemma api_heard: "heard (snd (run_api (ApiClose code reason) s)) = heard s" "heard (snd (run_api (ApiSend d) s)) = heard s"
  by (simp_all add: pws_close_def pws_send_def then_do_def newPromiseTriplet_def split: promise.splits)

lemma heard_same: "heard p' = heard p \<Longrightarrow> heard_events p p' = []"
  by (simp add: heard_events_def)

lemma heard_dispatch:
  "heard p' = heard p @ map (\<lambda>l. (l, e, rs)) ls \<Longrightarrow> event_type e \<noteq> js ''close'' \<Longrightarrow>
   Closing CLOSED \<notin> set (heard_events p p')"
  by (auto simp: heard_events_def hear_def split: if_splits)

lemma heard_close:
  "heard p' = heard p @ map (\<lambda>l. (l, e, rs)) ls \<Longrightarrow> rs \<noteq> CLOSED \<Longrightarrow> Closing CLOSED \<notin> set (heard_events p p')"
  by (auto simp: heard_events_def hear_def split: if_splits)

lemma handlers_heard [simp]:
  "heard (settle_current p s) = heard s" "heard (update_sock w f s) = heard s" "heard (pws_close code reason s) = heard s"
  "readyState (update_sock w f s) = readyState s"
  by (simp_all add: settle_current_def update_sock_def pws_close_def then_do_def split: promise.splits)

lemma onclose_heard:
  "\<exists>ls. heard (onclose quiet opts w d s) = heard s @ map (\<lambda>l. (l, new_event ''close'' d, readyState s)) ls"
proof -
  let ?s = "update_sock w (\<lambda>k. k\<lparr>timeout := False\<rparr>) s"
  let ?n = "?s\<lparr>current := fst (newPromiseTriplet (promises ?s)), promises := snd (newPromiseTriplet (promises ?s))\<rparr>"
  let ?u = "if readyState s = OPEN then ?n else ?s"
  let ?v = "if readyState s = CONNECTING then (Inr (), ?u) else pws_dispatch quiet (new_event ''close'' d) ?u"
  have u: "heard ?u = heard s" "readyState ?u = readyState s" by simp_all
  have "heard (onclose quiet opts w d s) = heard (snd ?v)"
    by (cases "readyState s") (simp_all add: onclose_def Let_def split_beta split: sum.splits)
  moreover have "\<exists>ls. heard (snd ?v) = heard s @ map (\<lambda>l. (l, new_event ''close'' d, readyState s)) ls"
    using quiet_dispatch(1) [of "new_event ''close'' d" ?u] u
    by (cases "readyState s = CONNECTING") auto
  ultimately show ?thesis by simp
qed

lemma onopen_heard:
  "\<exists>ls. heard (onopen quiet w d s) = heard s @ map (\<lambda>l. (l, new_event ''open'' d, OPEN)) ls"
  "readyState (onopen quiet w d s) = OPEN"
  using quiet_dispatch [of "new_event ''open'' d" "settle_current (Fulfilled w)
      ((update_sock w (\<lambda>k. k\<lparr>timeout := False, onerror := True\<rparr>) s)\<lparr>attempts := 0, readyState := OPEN\<rparr>)"]
  by (simp_all add: onopen_def)

lemma new_event_type [simp]: "event_type (new_event type d) = js type"
  by (simp add: new_event_def)

lemma task_heard: "heard_events s (do_task quiet opts k s) = heard_events s (run_task quiet opts k s)"
  by (simp add: heard_events_def do_task_def microtask_frames)

lemma browser_hears_no_end:
  assumes "browser_task k" and "readyState s \<noteq> CLOSED \<or> (\<forall>w d. k \<noteq> SockClose w d)"
  shows "Closing CLOSED \<notin> set (heard_events s (do_task quiet opts k s))"
proof (cases k)
  case (SockOpen w d)
  obtain ls where "heard (run_task quiet opts k s) = heard s @ map (\<lambda>l. (l, new_event ''open'' d, OPEN)) ls"
    using onopen_heard(1) [of w d "update_sock w (\<lambda>k. k\<lparr>sstate := SOpen\<rparr>) s"] SockOpen by auto
  then show ?thesis unfolding task_heard by (rule heard_dispatch) (simp add: event_names)
next
  case (SockMessage w d)
  obtain ls where "heard (run_task quiet opts k s) = heard s @ map (\<lambda>l. (l, new_event ''message'' d, readyState s)) ls"
    using quiet_dispatch(1) [of "new_event ''message'' d" s] SockMessage by auto
  then show ?thesis unfolding task_heard by (rule heard_dispatch) (simp add: event_names)
next
  case (SockError w d)
  have "\<exists>ls. heard (run_task quiet opts k s) = heard s @ map (\<lambda>l. (l, new_event ''error'' d, readyState s)) ls"
    using quiet_dispatch(1) [of "new_event ''error'' d" s] SockError by (cases "onerror (socks s ! w)") auto
  then obtain ls where "heard (run_task quiet opts k s) = heard s @ map (\<lambda>l. (l, new_event ''error'' d, readyState s)) ls" ..
  then show ?thesis unfolding task_heard by (rule heard_dispatch) (simp add: event_names)
next
  case (SockClose w d)
  obtain ls where "heard (run_task quiet opts k s) = heard s @ map (\<lambda>l. (l, new_event ''close'' d, readyState s)) ls"
    using onclose_heard [of opts w d "update_sock w (\<lambda>k. k\<lparr>sstate := SClosed\<rparr>) s"] SockClose by auto
  moreover have "readyState s \<noteq> CLOSED" using assms(2) SockClose by auto
  ultimately show ?thesis unfolding task_heard by (rule heard_close)
next
  case (ConnectTimeout w)
  then show ?thesis unfolding task_heard by (simp add: heard_same)
next
  case (ReconnectTimer i)
  then show ?thesis unfolding task_heard by (simp add: heard_same pws_connect_def)
next
  case (Client as)
  with assms(1) show ?thesis by simp
qed

section \<open>When the socket gives up\<close>

lemma connecting_close:
  assumes "pws_inv opts s" and "readyState s = CONNECTING" and "enabled (SockClose w d) s"
    and "readyState (do_task react opts (SockClose w d) s) = CLOSED"
  shows "down (do_task react opts (SockClose w d) s)"
proof -
  define u where "u = update_sock w (\<lambda>k. k\<lparr>sstate := SClosed, timeout := False\<rparr>) s"
  have mid: "pws_mid opts s" using assms(1) by (simp add: pws_inv_def)
  have w: "w < length (socks s)" "live (socks s ! w)" using assms(3) by simp_all
  note dead = closed_mid(2,3) [OF mid w, folded u_def]
  have u: "update_sock w (\<lambda>k. k\<lparr>timeout := False\<rparr>) (update_sock w (\<lambda>k. k\<lparr>sstate := SClosed\<rparr>) s) = u"
    "readyState u = CONNECTING"
    using w assms(2) by (simp_all add: u_def update_sock_def)
  have run: "run_task react opts (SockClose w d) s =
      (if set_maxRetries opts = Some (int (attempts u))
       then settle_current (Rejected MaxRetriesExceeded) (u\<lparr>attempts := attempts u + 1, readyState := CLOSED\<rparr>)
       else u\<lparr>attempts := attempts u + 1, reconnects := reconnects u @ [timer_delay (set_retryInterval opts)], readyState := CONNECTING\<rparr>)"
    using u by (simp add: onclose_def Let_def pws_close_def)
  have "set_maxRetries opts = Some (int (attempts u))"
    using assms(4) run by (auto simp: do_task_def microtask_frames split: if_splits)
  moreover have "has_live (u\<lparr>attempts := attempts u + 1, readyState := CLOSED\<rparr>) = has_live u"
    by (simp add: has_live_def)
  ultimately show ?thesis using dead run by (simp add: down_def do_task_def microtask_frames)
qed

lemma browser_closes_down:
  assumes "pws_inv opts s" and "browser_task k" and "enabled k s" and "readyState s \<noteq> CLOSED"
    and "readyState (do_task quiet opts k s) = CLOSED"
  shows "down (do_task quiet opts k s)"
proof (cases k)
  case (SockClose w d)
  show ?thesis
  proof (cases "readyState s")
    case CONNECTING
    then show ?thesis using connecting_close [OF assms(1)] assms(3,5) SockClose by blast
  next
    case OPEN
    then show ?thesis using drop_task [OF assms(1) OPEN _ quiet_calm] assms(3,5) SockClose by auto
  next
    case CLOSED
    with assms(4) show ?thesis by simp
  qed
qed (use assms in \<open>auto simp: do_task_def microtask_frames onopen_heard quiet_dispatch(2) pws_connect_def split: if_splits\<close>)

section \<open>Every reachable state\<close>

definition pconn_inv :: "settings \<Rightarrow> bool \<Rightarrow> pconn \<Rightarrow> bool" where
  "pconn_inv opts closable s =
     (pws_inv opts (ws s) \<and> (closed (conn s) \<longrightarrow> down (ws s) \<and> readyState (ws s) = CLOSED) \<and>
      (\<not> closable \<longrightarrow> \<not> closed (conn s) \<and> (readyState (ws s) = CLOSED \<longrightarrow> down (ws s))))"

lemma conn_do_closed: "e \<noteq> Closing CLOSED \<Longrightarrow> closed (snd (conn_do u e c)) = closed c"
  by (cases e) (auto simp: conn_read_def on_message_frame on_parsed_frame on_close_def split_beta)

lemma conn_run_closed: "Closing CLOSED \<notin> set es \<Longrightarrow> closed (snd (conn_run u es c)) = closed c"
proof (induction es arbitrary: c)
  case (Cons e es)
  then have "closed (snd (conn_do u e c)) = closed c" by (intro conn_do_closed) auto
  with Cons show ?case by (simp add: split_beta)
qed simp

lemma send_state:
  "heard (do_task quiet opts (Client [ApiSend d]) s) = heard s"
  "readyState (do_task quiet opts (Client [ApiSend d]) s) = readyState s"
  "heard (do_task quiet opts (Client [ApiClose code reason]) s) = heard s"
  by (simp_all add: do_task_def microtask_frames pws_send_def then_do_def newPromiseTriplet_def split: promise.splits)

lemma ws_task_inv:
  assumes "pconn_inv opts closable s" and "browser_task k" and "enabled k (ws s)"
  shows "pconn_inv opts closable (ws_task u opts k s)"
proof -
  let ?p = "do_task quiet opts k (ws s)" and ?c = "snd (conn_run u (heard_events (ws s) (do_task quiet opts k (ws s))) (conn s))"
  have inv: "pws_inv opts (ws s)" "pws_inv opts ?p"
    using assms(1,3) by (simp_all add: pconn_inv_def do_task_inv)
  have up: "\<not> down (ws s)"
    using down_only_client [OF inv(1) _ assms(3)] assms(2) by (cases k) auto
  then have opened: "\<not> closed (conn s)" using assms(1) by (auto simp: pconn_inv_def)
  have eq: "ws (ws_task u opts k s) = ?p" "conn (ws_task u opts k s) = ?c" by (simp_all add: ws_task_def Let_def)
  show ?thesis
  proof (cases "readyState (ws s) = CLOSED \<and> (\<exists>w d. k = SockClose w d)")
    case True
    then obtain w d where k: "k = SockClose w d" by blast
    have "closable" using True up assms(1) by (auto simp: pconn_inv_def)
    moreover have "readyState ?p = CLOSED" "down ?p"
      using closed_task [OF inv(1), of w d quiet] True assms(3) k by auto
    ultimately show ?thesis using inv(2) by (simp add: pconn_inv_def eq)
  next
    case False
    then have "closed ?c = closed (conn s)"
      by (intro conn_run_closed browser_hears_no_end [OF assms(2)]) auto
    moreover have "down ?p" if "\<not> closable" "readyState ?p = CLOSED"
      using browser_closes_down [OF inv(1) assms(2,3) _ that(2)] that(1) up assms(1) by (auto simp: pconn_inv_def)
    ultimately show ?thesis using inv(2) opened by (auto simp: pconn_inv_def eq)
  qed
qed

lemma client_task_inv:
  assumes "pconn_inv opts closable s"
  shows "pconn_inv opts closable (ws_task u opts (Client [ApiSend d]) s)"
    and "closable \<Longrightarrow> pconn_inv opts closable (ws_task u opts (Client [ApiClose code reason]) s)"
  using assms down_client [of "ws s" quiet opts] do_task_inv [of opts "ws s" "Client _" quiet]
  by (auto simp: pconn_inv_def ws_task_def Let_def heard_same send_state)

lemma pws_frame_connect: "pws_frame p (connect_listeners p)"
  unfolding connect_listeners_def by (rule pws_frame_trans [OF pws_frame_add pws_frame_add])

lemma connect_microtasks: "microtasks (connect_listeners p) = microtasks p" "readyState (connect_listeners p) = readyState p"
  by (simp_all add: connect_listeners_def addEventListener_def split: lookup.splits)

lemma start_pconn_inv:
  assumes "pconn_start valid_url options s"
  shows "pconn_inv (with_defaults options) closable s"
proof -
  obtain p where p: "pws_start valid_url options p"
    "s = \<lparr>ws = connect_listeners p, conn = createWebSocketConn, writer = createWebSocketWriter\<rparr>"
    using assms by (auto simp: pconn_start_def persistent_conn_def pws_start_def result_simps)
  have "readyState p = CONNECTING"
    using p(1) by (auto simp: pws_start_def createPersistentWebSocket_def pws_connect_def split: if_splits)
  moreover have "pws_inv (with_defaults options) (connect_listeners p)"
    using start_inv [OF p(1)] frame_mid [OF _ pws_frame_connect] by (simp add: pws_inv_def connect_microtasks)
  ultimately show ?thesis
    using p(2) by (simp add: pconn_inv_def connect_microtasks createWebSocketConn_def)
qed

inductive_cases pconn_stepE: "pconn_step u opts closable s t"

lemma conn_frame_inv:
  "pconn_inv opts closable s \<Longrightarrow> ws t = ws s \<Longrightarrow> closed (conn t) = closed (conn s) \<Longrightarrow> pconn_inv opts closable t"
  by (simp add: pconn_inv_def)

lemma conn_read_closed: "closed (snd (conn_read c)) = closed c"
  by (simp add: conn_read_def split_beta)

lemma write_ready_inv:
  assumes "pconn_inv opts closable s"
  shows "pconn_inv opts closable (write_ready u opts i s)"
proof -
  have "pconn_inv opts closable (s\<lparr>writer := on_buffered i (writer s)\<rparr>)"
    by (rule conn_frame_inv [OF assms]) simp_all
  with assms show ?thesis by (auto simp: write_ready_def intro: client_task_inv(1) split: option.splits)
qed

lemma pconn_step_inv:
  assumes "pconn_inv opts closable s" and "pconn_step u opts closable s t"
  shows "pconn_inv opts closable t"
  using assms(2)
proof cases
  case (browser k)
  with ws_task_inv [OF assms(1)] show ?thesis by blast
next
  case (buffered i)
  with write_ready_inv [OF assms(1)] show ?thesis by blast
next
  case (owner_close code reason)
  with client_task_inv(2) [OF assms(1)] show ?thesis by blast
qed (use assms(1) in \<open>auto simp: conn_write_def conn_read_closed on_parsed_frame intro: conn_frame_inv [OF assms(1)]\<close>)

interpretation connected: invariant_system
    "pconn_start valid_url options" "pconn_step u (with_defaults options) closable"
    "pconn_inv (with_defaults options) closable"
  by unfold_locales (erule start_pconn_inv, erule (1) pconn_step_inv)


section \<open>Reads on a connection that was given up\<close>

text \<open>The reads get no answer: what was settled stays, what is new is pending.\<close>

definition reads_frame :: "ws_conn \<Rightarrow> ws_conn \<Rightarrow> bool" where
  "reads_frame c c' = (closed c' = closed c \<and> parsing c' = parsing c \<and>
     (\<exists>n. fstate (exch c') = fstate (exch c) @ replicate n Pending))"

lemma reads_frame_refl: "reads_frame c c"
  by (auto simp: reads_frame_def intro: exI [of _ 0])

lemma reads_frame_trans: "reads_frame a b \<Longrightarrow> reads_frame b c \<Longrightarrow> reads_frame a c"
  by (auto simp: reads_frame_def simp flip: replicate_add)

lemma reads_frame_read: "reads_frame c (snd (conn_read c))"
  using reads_frame_refl [of c]
  by (auto simp: conn_read_def reads_frame_def pe_take_def exch_take_def exch_set_def newPromiseTriplet_def split_beta
      intro: exI [of _ 0] exI [of _ 1])

lemma client_hears_nothing:
  "conn (ws_task u opts (Client [ApiSend d]) s) = conn s"
  "conn (ws_task u opts (Client [ApiClose code reason]) s) = conn s"
  by (simp_all add: ws_task_def Let_def heard_same send_state)

lemma down_step:
  assumes "pws_inv opts (ws s)" and "down (ws s)" and "parsing (conn s) = []" and "pconn_step u opts closable s t"
  shows "down (ws t) \<and> reads_frame (conn s) (conn t)"
  using assms(4)
proof cases
  case (browser k)
  with down_only_client [OF assms(1,2)] show ?thesis by (metis browser_task.simps(1))
next
  case (parsed i)
  with assms(2,3) show ?thesis by (simp add: on_parsed_def reads_frame_refl)
next
  case (buffered i)
  with assms(2) show ?thesis
    by (auto simp: write_ready_def ws_task_def Let_def heard_same send_state reads_frame_refl down_client split: option.splits)
next
  case (owner_close code reason)
  with assms(2) show ?thesis by (auto simp: ws_task_def Let_def heard_same send_state reads_frame_refl down_client)
qed (use assms(2) in \<open>auto simp: conn_write_def reads_frame_refl reads_frame_read\<close>)

text \<open>
  When the socket has given up and the connection was not told, it is never told: along every
  continuation the promises of the reads keep their values, and the new ones stay pending for
  ever.
\<close>

lemma given_up_reads_hang:
  assumes "reach (pconn_start valid_url options) (pconn_step u (with_defaults options) closable) s"
    and "down (ws s)" and "parsing (conn s) = []" and "\<not> closed (conn s)"
    and "(pconn_step u (with_defaults options) closable)\<^sup>*\<^sup>* s t"
  shows "\<not> closed (conn t) \<and> (\<exists>n. fstate (exch (conn t)) = fstate (exch (conn s)) @ replicate n Pending)"
proof -
  have inv: "pconn_inv (with_defaults options) closable s" by (rule connected.inv_reach [OF assms(1)])
  from assms(5) have "down (ws t) \<and> reads_frame (conn s) (conn t)"
  proof (induction rule: rtranclp_induct)
    case base
    show ?case using assms(2) by (simp add: reads_frame_refl)
  next
    case (step x y)
    have "pws_inv (with_defaults options) (ws x)"
      using connected.inv_rtranclp [OF inv step(1)] by (simp add: pconn_inv_def)
    moreover have "parsing (conn x) = []" using step(3) assms(3) by (simp add: reads_frame_def)
    ultimately show ?case using down_step [OF _ _ _ step(2)] step(3) reads_frame_trans by blast
  qed
  with assms(4) show ?thesis by (auto simp: reads_frame_def)
qed

section \<open>Every event of a socket reaches the connection\<close>

abbreviation no_options :: listener_options where
  "no_options \<equiv> \<lparr>capture = None, once = None\<rparr>"

text \<open>The two listeners stay registered, and no others are.\<close>

definition wired :: "(nat, jsval) pws \<Rightarrow> bool" where
  "wired p = (listeners p = [(js ''message'', [(0, no_options)]), (js ''close'', [(1, no_options)])])"

lemma wired_at:
  assumes "wired p"
  shows "listeners_at p (js ''message'') = Own [(0, no_options)]" "listeners_at p (js ''close'') = Own [(1, no_options)]"
    "listeners_at p (js ''open'') = Missing" "listeners_at p (js ''error'') = Missing"
  using assms by (simp_all add: wired_def listeners_at_def obj_lookup_def obj_get_def object_prototype_def js_def)

lemma wired_dispatch:
  assumes "wired p"
  shows "snd (pws_dispatch quiet (new_event ''message'' d) p) = p\<lparr>heard := heard p @ [(0, new_event ''message'' d, readyState p)]\<rparr>"
    "snd (pws_dispatch quiet (new_event ''close'' d) p) = p\<lparr>heard := heard p @ [(1, new_event ''close'' d, readyState p)]\<rparr>"
    "snd (pws_dispatch quiet (new_event ''open'' d) p) = p"
    "snd (pws_dispatch quiet (new_event ''error'' d) p) = p"
  using wired_at [OF assms] by (simp_all add: pws_dispatch_def dispatchEvent_def call_listener_def)

lemma wired_updates [simp]:
  "wired (p\<lparr>heard := h\<rparr>) = wired p" "wired (p\<lparr>socks := ks\<rparr>) = wired p" "wired (p\<lparr>attempts := n\<rparr>) = wired p"
  "wired (p\<lparr>readyState := rs\<rparr>) = wired p" "wired (p\<lparr>promises := ps\<rparr>) = wired p" "wired (p\<lparr>current := c\<rparr>) = wired p"
  "wired (p\<lparr>microtasks := ms\<rparr>) = wired p" "wired (p\<lparr>reactions := rr\<rparr>) = wired p" "wired (p\<lparr>reconnects := tt\<rparr>) = wired p"
  "wired (p\<lparr>send_results := sr\<rparr>) = wired p"
  by (simp_all add: wired_def)

lemma wired_ops [simp]:
  "wired (then_do i r p) = wired p" "wired (settle_current q p) = wired p" "wired (update_sock w f p) = wired p"
  "wired (pws_connect opts p) = wired p" "wired (pws_close code reason p) = wired p" "wired (pws_send d p) = wired p"
  by (simp_all add: then_do_def settle_current_def update_sock_def pws_connect_def pws_close_def pws_send_def
      newPromiseTriplet_def split: promise.splits)

lemma wired_reaction [simp]: "wired (run_reaction m p) = wired p"
  by (induction m p rule: run_reaction.induct) (auto split: prod.splits sum.splits)

lemma wired_microtasks [simp]: "wired (run_microtasks p) = wired p"
proof -
  have "wired (fold run_reaction ms q) = wired q" for ms q by (induction ms arbitrary: q) simp_all
  then show ?thesis by (simp add: run_microtasks_def)
qed


lemma wired_kept [simp]:
  "wired p \<Longrightarrow> wired (snd (pws_dispatch quiet (new_event ''message'' d) p))"
  "wired p \<Longrightarrow> wired (snd (pws_dispatch quiet (new_event ''close'' d) p))"
  "wired p \<Longrightarrow> wired (snd (pws_dispatch quiet (new_event ''open'' d) p))"
  "wired p \<Longrightarrow> wired (snd (pws_dispatch quiet (new_event ''error'' d) p))"
  by (simp_all add: wired_dispatch)

lemma wired_onclose: "wired p \<Longrightarrow> wired (onclose quiet opts w d p)"
  by (cases "readyState p") (simp_all add: onclose_def Let_def split_beta split: sum.splits)

lemma wired_browser: "wired p \<Longrightarrow> browser_task k \<Longrightarrow> wired (do_task quiet opts k p)"
  by (cases k) (simp_all add: do_task_def onopen_def wired_onclose)

lemma wired_client:
  "wired p \<Longrightarrow> wired (do_task quiet opts (Client [ApiSend d]) p)"
  "wired p \<Longrightarrow> wired (do_task quiet opts (Client [ApiClose code reason]) p)"
  by (simp_all add: do_task_def)

lemma start_wired: "pconn_start valid_url options s \<Longrightarrow> wired (ws s)"
  by (auto simp: pconn_start_def persistent_conn_def createPersistentWebSocket_def pws_connect_def connect_listeners_def
      addEventListener_def wired_def listeners_at_def obj_lookup_def obj_get_def object_prototype_def js_def
      split: if_splits)

lemma step_wired: "wired (ws s) \<Longrightarrow> pconn_step u opts closable s t \<Longrightarrow> wired (ws t)"
  by (erule pconn_step.cases)
    (auto simp: ws_task_def Let_def conn_write_def write_ready_def wired_browser wired_client split: option.splits)

interpretation wiring: invariant_system
    "pconn_start valid_url options" "pconn_step u (with_defaults options) closable" "\<lambda>s. wired (ws s)"
  by unfold_locales (erule start_wired, erule (1) step_wired)

lemma wired_close_heard:
  assumes "wired p"
  shows "heard (onclose quiet opts w d p) =
    (if readyState p = CONNECTING then heard p else heard p @ [(1, new_event ''close'' d, readyState p)])"
  using assms
  by (cases "readyState p") (simp_all add: onclose_def Let_def split_beta wired_dispatch split: sum.splits)

lemma wired_conn:
  assumes "wired (ws s)"
  shows "conn (ws_task u opts (SockMessage w d) s) = snd (on_message d (conn s))"
    and "conn (ws_task u opts (SockClose w d) s) =
      (if readyState (ws s) = CONNECTING then conn s else on_close (readyState (ws s)) (conn s))"
proof -
  have "heard_events (ws s) (do_task quiet opts (SockMessage w d) (ws s)) = [Incoming d]"
    "heard_events (ws s) (do_task quiet opts (SockClose w d) (ws s)) =
       (if readyState (ws s) = CONNECTING then [] else [Closing (readyState (ws s))])"
    unfolding task_heard using assms
    by (auto simp: heard_events_def hear_def wired_dispatch wired_close_heard event_names)
      (simp_all add: new_event_def)
  then show "conn (ws_task u opts (SockMessage w d) s) = snd (on_message d (conn s))"
    "conn (ws_task u opts (SockClose w d) s) =
      (if readyState (ws s) = CONNECTING then conn s else on_close (readyState (ws s)) (conn s))"
    by (simp_all add: ws_task_def Let_def)
qed

text \<open>
  C13: in every reachable state, after any number of reconnections, a message event of a socket
  reaches the connection exactly once, and so does a close event except while connecting, with the
  \<^verbatim>\<open>readyState\<close> at that moment.
\<close>

theorem socket_events_reach_conn:
  assumes "reach (pconn_start valid_url options) (pconn_step u (with_defaults options) closable) s"
  shows "conn (ws_task u opts (SockMessage w d) s) = snd (on_message d (conn s)) \<and>
    conn (ws_task u opts (SockClose w d) s) =
      (if readyState (ws s) = CONNECTING then conn s else on_close (readyState (ws s)) (conn s))"
  using wired_conn [OF wiring.inv_reach [OF assms]] by blast

section \<open>What a read has delivered\<close>

text \<open>\<^verbatim>\<open>read\<close> over the persistent socket, and the promise of a read; once settled it stays as it is.\<close>

definition pconn_read :: "pconn \<Rightarrow> nat result \<times> pconn" where
  "pconn_read l = (let (r, c) = conn_read (conn l) in (r, l\<lparr>conn := c\<rparr>))"

definition pconn_value :: "pconn \<Rightarrow> nat \<Rightarrow> message promise" where
  "pconn_value l i = promise_at (fstate (exch (conn l))) i"

lemma pe_give_keeps: "promise_at (fstate x) i \<noteq> Pending \<Longrightarrow> promise_at (fstate (pe_give m x)) i = promise_at (fstate x) i"
  by (auto simp: pe_give_def exch_give_def exch_set_def split_beta promise_at_settle promise_at_new)

lemma pe_take_keeps: "promise_at (fstate (snd (pe_take x))) i = promise_at (fstate x) i"
  by (auto simp: pe_take_def exch_take_def exch_set_def split_beta promise_at_new)

lemma conn_do_keeps:
  "promise_at (fstate (exch c)) i \<noteq> Pending \<Longrightarrow>
   promise_at (fstate (exch (snd (conn_do u e c)))) i = promise_at (fstate (exch c)) i"
  by (cases e)
    (auto simp: conn_read_def split_beta pe_take_keeps on_message_frame on_parsed_exch pe_give_keeps on_close_def
      reject_all_at split: option.splits sum.splits)

lemma conn_run_keeps:
  "promise_at (fstate (exch c)) i \<noteq> Pending \<Longrightarrow>
   promise_at (fstate (exch (snd (conn_run u es c)))) i = promise_at (fstate (exch c)) i"
  by (induction es arbitrary: c) (simp_all add: split_beta conn_do_keeps)

lemma ws_task_keeps: "pconn_value l i \<noteq> Pending \<Longrightarrow> pconn_value (ws_task u sets k l) i = pconn_value l i"
  by (simp add: pconn_value_def ws_task_def Let_def conn_run_keeps)

lemma pconn_step_keeps:
  assumes "pconn_step u sets closable l l'" and "pconn_value l i \<noteq> Pending"
  shows "pconn_value l' i = pconn_value l i"
  using assms(1)
proof cases
  case (buffered j)
  then show ?thesis
    using ws_task_keeps [of "l\<lparr>writer := on_buffered j (writer l)\<rparr>" i] assms(2)
    by (auto simp: write_ready_def pconn_value_def split: option.splits)
next
  case (parsed j)
  then show ?thesis using conn_do_keeps [of "conn l" i u "Parsed j"] assms(2) by (simp add: pconn_value_def)
next
  case reading
  then show ?thesis by (simp add: pconn_value_def conn_read_def split_beta pe_take_keeps)
next
  case (writing m)
  then show ?thesis by (simp add: conn_write_def pconn_value_def)
qed (use assms(2) in \<open>simp_all add: ws_task_keeps\<close>)

end
