(* ===== verification/Dispatcher.thy ===== *)
theory Dispatcher
  imports Content Registry
begin

text \<open>
  The Dispatcher directory: routes from messages to handlers (createDecodingDispatcher.ts), the
  matching of event classes by name or pattern (createDecodingEventDispatcher.ts), subscribers
  named after the events (createNamedSubscribers.ts) and the constructors over them. Matchers,
  patterns, guards and decoders of the client are functions of the host; a client's handler is
  run by \<open>run_handler\<close> on the decoded event, the headers and the whole state, so it may subscribe
  and unsubscribe. A route is an object and has an identity, the number it got when it was made.
\<close>

section \<open>Routes\<close>

datatype matcher = ClassIs jsstring | ClassMatches nat | UserMatcher nat

datatype handler = UserHandler nat | GuardedHandler jsstring nat nat

datatype decoder = NullDecoder | TypesDecoder "content_type list" | UserDecoder nat

record route =
  route_id :: nat
  matcher :: matcher
  handler :: handler

record dispatcher =
  decoder :: decoder
  routes :: "route list"
  next_route :: nat

type_synonym 'z handler_code =
  "nat \<Rightarrow> jsval \<Rightarrow> headers \<Rightarrow> 'z dispatcher_scheme \<Rightarrow> unit result \<times> 'z dispatcher_scheme"

definition run_matcher :: "('y) host_scheme \<Rightarrow> matcher \<Rightarrow> message \<Rightarrow> bool result" where
  "run_matcher h mt m =
     (case mt of
        ClassIs name \<Rightarrow> Inr (messageClass h m = Some name)
      | ClassMatches pat \<Rightarrow>
          Inr (regex_test h pat (case messageClass h m of Some c \<Rightarrow> c | None \<Rightarrow> js ''undefined''))
      | UserMatcher n \<Rightarrow> user_match h n (message_val m))"

definition run_decoder :: "('y) host_scheme \<Rightarrow> decoder \<Rightarrow> message \<Rightarrow> jsval result" where
  "run_decoder h dec m =
     (case dec of
        NullDecoder \<Rightarrow> andThen (nullDecoder m) (\<lambda>m'. Inr (message_val m'))
      | TypesDecoder cts \<Rightarrow> createDecoder h cts m
      | UserDecoder n \<Rightarrow> user_decode h n (message_val m))"

text \<open>A subscriber's handler checks the event with its guard before it calls the client's handler.\<close>

definition call_handler ::
  "('y) host_scheme \<Rightarrow> 'z handler_code \<Rightarrow> handler \<Rightarrow> jsval \<Rightarrow> headers \<Rightarrow> 'z dispatcher_scheme \<Rightarrow>
   unit result \<times> 'z dispatcher_scheme" where
  "call_handler h run_handler hd1 obj hs d =
     (case hd1 of
        UserHandler n \<Rightarrow> run_handler n obj hs d
      | GuardedHandler eventName guard n \<Rightarrow>
          if \<not> user_guard h guard obj then (Inl (TypeCheckFailed eventName), d)
          else run_handler n obj hs d)"

fun first_route :: "('y) host_scheme \<Rightarrow> route list \<Rightarrow> message \<Rightarrow> route option result" where
  "first_route h [] m = Inr None"
| "first_route h (r # rs) m =
     andThen (run_matcher h (matcher r) m) (\<lambda>b. if b then Inr (Some r) else first_route h rs m)"

definition createDecodingDispatcher :: "decoder \<Rightarrow> dispatcher" where
  "createDecodingDispatcher dec = \<lparr>decoder = dec, routes = [], next_route = 0\<rparr>"

text \<open>
  \<^verbatim>\<open>dispatch\<close>: the route is chosen at once; the handler runs when the decoder has delivered, and
  runs on the state of that moment.
\<close>

definition dispatch ::
  "('y) host_scheme \<Rightarrow> 'z handler_code \<Rightarrow> message \<Rightarrow> 'z dispatcher_scheme \<Rightarrow> unit result \<times> 'z dispatcher_scheme" where
  "dispatch h run_handler m d =
     (case first_route h (routes d) m of
        Inl e \<Rightarrow> (Inl e, d)
      | Inr None \<Rightarrow> (Inr (), d)
      | Inr (Some r) \<Rightarrow>
          (case run_decoder h (decoder d) m of
             Inl e \<Rightarrow> (Inl e, d)
           | Inr obj \<Rightarrow> call_handler h run_handler (handler r) obj (headers m) d))"

definition handle :: "matcher \<Rightarrow> handler \<Rightarrow> 'z dispatcher_scheme \<Rightarrow> nat \<times> 'z dispatcher_scheme" where
  "handle mt hd1 d =
     (let r = \<lparr>route_id = next_route d, matcher = mt, handler = hd1\<rparr>
      in (next_route d, d\<lparr>routes := routes d @ [r], next_route := next_route d + 1\<rparr>))"

text \<open>\<^verbatim>\<open>indexOf\<close> of a route by identity, -1 where it is absent; \<^verbatim>\<open>splice(i, 1)\<close> counts a negative index
  from the end.\<close>

fun index_of_route :: "nat \<Rightarrow> route list \<Rightarrow> int" where
  "index_of_route i [] = -1"
| "index_of_route i (r # rs) =
     (if route_id r = i then 0
      else (let j = index_of_route i rs in if j = -1 then -1 else j + 1))"

definition splice1 :: "int \<Rightarrow> 'a list \<Rightarrow> 'a list" where
  "splice1 start xs =
     (let len = int (length xs);
          k = nat (if start < 0 then max (len + start) 0 else min start len)
      in take k xs @ drop (k + 1) xs)"

definition unsubscribe :: "nat \<Rightarrow> 'z dispatcher_scheme \<Rightarrow> 'z dispatcher_scheme" where
  "unsubscribe i d = d\<lparr>routes := splice1 (index_of_route i (routes d)) (routes d)\<rparr>"

section \<open>Event dispatchers and named subscribers\<close>

datatype matcher_arg = StringMatcher jsstring | RegExpMatcher nat | FunctionMatcher matcher

definition createDecodingEventDispatcher :: "decoder \<Rightarrow> dispatcher" where
  "createDecodingEventDispatcher dec = createDecodingDispatcher dec"

definition handle_event :: "matcher_arg \<Rightarrow> handler \<Rightarrow> 'z dispatcher_scheme \<Rightarrow> nat \<times> 'z dispatcher_scheme" where
  "handle_event arg hd1 =
     (case arg of
        StringMatcher s \<Rightarrow> handle (ClassIs s) hd1
      | RegExpMatcher p \<Rightarrow> handle (ClassMatches p) hd1
      | FunctionMatcher mt \<Rightarrow> handle mt hd1)"

definition createDispatcher :: "decoder option \<Rightarrow> dispatcher" where
  "createDispatcher dec = createDecodingDispatcher (case dec of Some d \<Rightarrow> d | None \<Rightarrow> NullDecoder)"

definition createEventDispatcher :: "decoder option \<Rightarrow> dispatcher" where
  "createEventDispatcher dec = createDecodingEventDispatcher (case dec of Some d \<Rightarrow> d | None \<Rightarrow> NullDecoder)"

text \<open>The source of named subscribers: a guard per name, or a pair of an event name and a guard.\<close>

type_synonym subscriber_source = "(jsstring \<times> nat optional_prefix) list"

text \<open>A subscriber is the event name it listens to and its guard.\<close>

type_synonym subscribers = "(jsstring \<times> (jsstring \<times> nat)) list"

definition createNamedSubscribers :: "subscriber_source \<Rightarrow> subscribers result" where
  "createNamedSubscribers source =
     mapToObj (obj_keys (own_order source))
       (\<lambda>name. case obj_get source name of
          Some g \<Rightarrow> (let (eventName, guard) = splitPrefix name g in Inr (name, (eventName, guard)))
        | None \<Rightarrow> Inl TypeErr)"

text \<open>Calling a named subscriber with a handler.\<close>

definition subscribe :: "jsstring \<times> nat \<Rightarrow> nat \<Rightarrow> 'z dispatcher_scheme \<Rightarrow> nat \<times> 'z dispatcher_scheme" where
  "subscribe sub n =
     handle_event (FunctionMatcher (ClassIs (fst sub))) (GuardedHandler (fst sub) (snd sub) n)"

datatype dispatcher_arg = DecoderArg nat | ContentTypeArg content_type | SourceArg subscriber_source

fun guard_val :: "nat optional_prefix \<Rightarrow> jsval" where
  "guard_val (Plain g) = JFunction (OtherFn g)"
| "guard_val (Prefixed p g) = JArray [JString p, JFunction (OtherFn g)]"

fun arg_val :: "dispatcher_arg \<Rightarrow> jsval" where
  "arg_val (DecoderArg n) = JFunction (OtherFn n)"
| "arg_val (ContentTypeArg ct) = content_type_val ct"
| "arg_val (SourceArg source) = JObject (map (\<lambda>(k, g). (k, guard_val g)) source)"

definition rpc_dispatcher :: "dispatcher_arg \<Rightarrow> subscriber_source option \<Rightarrow> (dispatcher \<times> subscribers option) result" where
  "rpc_dispatcher arg source =
     (let x = (case arg of ContentTypeArg ct \<Rightarrow> TypesDecoder [ct] | DecoderArg n \<Rightarrow> UserDecoder n
               | SourceArg src \<Rightarrow> NullDecoder);
          d = createEventDispatcher (Some x)
      in case source of
           Some src \<Rightarrow> andThen (createNamedSubscribers src) (\<lambda>subs. Inr (d, Some subs))
         | None \<Rightarrow> Inr (d, None))"

definition createRpcEventDispatcher ::
  "dispatcher_arg \<Rightarrow> subscriber_source option \<Rightarrow> (dispatcher \<times> subscribers option) result" where
  "createRpcEventDispatcher arg source =
     (if typeof (arg_val arg) \<noteq> ''function'' \<and> \<not> isContentType (arg_val arg)
      then rpc_dispatcher (ContentTypeArg ContentTypes_json) (case arg of SourceArg src \<Rightarrow> Some src | _ \<Rightarrow> None)
      else rpc_dispatcher arg source)"

section \<open>Removing routes\<close>

definition dispatcher_wf :: "'z dispatcher_scheme \<Rightarrow> bool" where
  "dispatcher_wf d = (distinct (map route_id (routes d)) \<and> (\<forall>r \<in> set (routes d). route_id r < next_route d))"

lemma index_of_route_absent: "index_of_route i rs = -1 \<longleftrightarrow> i \<notin> set (map route_id rs)"
proof (induction i rs rule: index_of_route.induct)
  case (2 i r rs)
  have "index_of_route i rs \<ge> -1" by (induction rs) (auto simp: Let_def)
  with 2 show ?case by (auto simp: Let_def)
qed simp

lemma index_of_route_nat:
  "i \<in> set (map route_id rs) \<Longrightarrow>
   \<exists>k. index_of_route i rs = int k \<and> k < length rs \<and> route_id (rs ! k) = i"
proof (induction i rs rule: index_of_route.induct)
  case (2 i r rs)
  show ?case
  proof (cases "route_id r = i")
    case True
    then show ?thesis by (intro exI [of _ 0]) simp
  next
    case False
    with 2 obtain k where k: "index_of_route i rs = int k" "k < length rs" "route_id (rs ! k) = i" by auto
    with False show ?thesis by (intro exI [of _ "Suc k"]) (simp add: Let_def)
  qed
qed simp

lemma splice_route:
  assumes "distinct (map route_id rs)" and "i \<in> set (map route_id rs)"
  shows "splice1 (index_of_route i rs) rs = filter (\<lambda>r. route_id r \<noteq> i) rs"
proof -
  obtain k where k: "index_of_route i rs = int k" "k < length rs" "route_id (rs ! k) = i"
    using index_of_route_nat [OF assms(2)] by blast
  have rs: "rs = take k rs @ rs ! k # drop (Suc k) rs" using k(2) by (rule id_take_nth_drop)
  have d: "distinct (map route_id (take k rs @ rs ! k # drop (Suc k) rs))"
    using assms(1) rs by simp
  then have "i \<notin> route_id ` set (take k rs)" "i \<notin> route_id ` set (drop (Suc k) rs)"
    using k(3) by auto
  then have "filter (\<lambda>r. route_id r \<noteq> i) (take k rs) = take k rs"
    "filter (\<lambda>r. route_id r \<noteq> i) (drop (Suc k) rs) = drop (Suc k) rs"
    by (auto intro!: filter_True)
  then have "filter (\<lambda>r. route_id r \<noteq> i) rs = take k rs @ drop (Suc k) rs"
    by (subst rs) (simp add: k(3))
  moreover have "splice1 (int k) rs = take k rs @ drop (Suc k) rs"
    using k(2) by (simp add: splice1_def)
  ultimately show ?thesis by (simp add: k(1))
qed

lemma unsubscribe_present:
  "dispatcher_wf d \<Longrightarrow> i \<in> set (map route_id (routes d)) \<Longrightarrow>
   routes (unsubscribe i d) = filter (\<lambda>r. route_id r \<noteq> i) (routes d)"
  by (simp add: unsubscribe_def dispatcher_wf_def splice_route)

lemma unsubscribe_absent:
  assumes "i \<notin> set (map route_id (routes d))"
  shows "routes (unsubscribe i d) = butlast (routes d)"
proof -
  have "index_of_route i (routes d) = -1" using assms index_of_route_absent by blast
  moreover have "nat (max (int n - 1) 0) = n - 1" for n :: nat by simp
  ultimately show ?thesis
    by (simp add: unsubscribe_def splice1_def Let_def butlast_conv_take)
qed

lemma handle_routes:
  "routes (snd (handle mt hd1 d)) = routes d @ [\<lparr>route_id = next_route d, matcher = mt, handler = hd1\<rparr>]"
  "fst (handle mt hd1 d) = next_route d" "next_route (snd (handle mt hd1 d)) = next_route d + 1"
  "decoder (snd (handle mt hd1 d)) = decoder d"
  by (simp_all add: handle_def Let_def)

lemma handle_wf: "dispatcher_wf d \<Longrightarrow> dispatcher_wf (snd (handle mt hd1 d))"
  by (auto simp: dispatcher_wf_def handle_routes)

lemma unsubscribe_wf: "dispatcher_wf d \<Longrightarrow> dispatcher_wf (unsubscribe i d)"
proof -
  assume wf: "dispatcher_wf d"
  have "next_route (unsubscribe i d) = next_route d" by (simp add: unsubscribe_def)
  with wf show ?thesis
    by (cases "i \<in> set (map route_id (routes d))")
      (auto simp: dispatcher_wf_def unsubscribe_present unsubscribe_absent wf distinct_map_filter
        map_butlast distinct_butlast dest: in_set_butlastD)
qed

interpretation route_registry: registry
    "\<lambda>d. map route_id (routes d)" "\<lambda>k d. k = next_route d"
    "\<lambda>k d. snd (handle (mts k) (hds k) d)" unsubscribe dispatcher_wf
proof unfold_locales
  fix d :: "'a dispatcher_scheme" and k :: nat
  show "dispatcher_wf d \<Longrightarrow> distinct (map route_id (routes d))" by (simp add: dispatcher_wf_def)
  show "dispatcher_wf d \<Longrightarrow> k = next_route d \<Longrightarrow> dispatcher_wf (snd (handle (mts k) (hds k) d)) \<and>
      map route_id (routes (snd (handle (mts k) (hds k) d))) = map route_id (routes d) @ [k]"
    by (simp add: handle_wf handle_routes)
  show "dispatcher_wf d \<Longrightarrow> k \<in> set (map route_id (routes d)) \<Longrightarrow> dispatcher_wf (unsubscribe k d) \<and>
      map route_id (routes (unsubscribe k d)) = remove1 k (map route_id (routes d))"
  proof
    assume wf: "dispatcher_wf d" and k: "k \<in> set (map route_id (routes d))"
    show "dispatcher_wf (unsubscribe k d)" using wf by (rule unsubscribe_wf)
    have "map route_id (filter (\<lambda>r. route_id r \<noteq> k) rs) = filter (\<lambda>j. j \<noteq> k) (map route_id rs)" for rs
      by (induction rs) auto
    moreover have "remove1 k (map route_id (routes d)) = filter (\<lambda>j. j \<noteq> k) (map route_id (routes d))"
      using wf by (simp add: dispatcher_wf_def distinct_remove1_removeAll removeAll_filter_not_eq) metis
    ultimately show "map route_id (routes (unsubscribe k d)) = remove1 k (map route_id (routes d))"
      using unsubscribe_present [OF wf k] by simp
  qed
qed

section \<open>Properties\<close>

text \<open>
  While every subscription is ended at most once the routes are a registry: the routes left are the
  registered ones, in the order of subscription.
\<close>

lemma routes_refine_registry:
  assumes "valid_ops (\<lambda>d. map route_id (routes d)) (\<lambda>k d. k = next_route d)
      (\<lambda>k d. snd (handle (mts k) (hds k) d)) unsubscribe ops (createDecodingDispatcher dec)"
  shows "map route_id (routes (fold (impl_op (\<lambda>k d. snd (handle (mts k) (hds k) d)) unsubscribe) ops
      (createDecodingDispatcher dec))) = fold spec_op ops []"
proof -
  have "dispatcher_wf (createDecodingDispatcher dec)"
    by (simp add: dispatcher_wf_def createDecodingDispatcher_def)
  from route_registry.refines_list [OF this assms] show ?thesis
    by (simp add: createDecodingDispatcher_def)
qed

text \<open>
  Any history of subscriptions: \<open>Subscribe\<close> calls \<^verbatim>\<open>handle\<close>, \<open>End i\<close> calls the function that the subscription
  number i returned. The specification is a plain list of numbered pairs of a matcher and a handler.
\<close>

datatype route_op = Subscribe matcher handler | End nat

fun route_do :: "route_op \<Rightarrow> 'z dispatcher_scheme \<Rightarrow> 'z dispatcher_scheme" where
  "route_do (Subscribe mt hd1) d = snd (handle mt hd1 d)"
| "route_do (End i) d = unsubscribe i d"

fun list_do :: "route_op \<Rightarrow> nat \<times> (nat \<times> matcher \<times> handler) list \<Rightarrow> nat \<times> (nat \<times> matcher \<times> handler) list" where
  "list_do (Subscribe mt hd1) (n, rs) = (n + 1, rs @ [(n, mt, hd1)])"
| "list_do (End i) (n, rs) = (n, if i \<in> fst ` set rs then filter (\<lambda>r. fst r \<noteq> i) rs else butlast rs)"

definition route_list :: "'z dispatcher_scheme \<Rightarrow> nat \<times> (nat \<times> matcher \<times> handler) list" where
  "route_list d = (next_route d, map (\<lambda>r. (route_id r, matcher r, handler r)) (routes d))"

lemma route_do_wf: "dispatcher_wf d \<Longrightarrow> dispatcher_wf (route_do op d)"
  by (cases op) (simp_all add: handle_wf unsubscribe_wf)

lemma route_do_list:
  assumes "dispatcher_wf d"
  shows "route_list (route_do op d) = list_do op (route_list d)"
proof (cases op)
  case (Subscribe mt hd1)
  then show ?thesis by (simp add: route_list_def handle_routes)
next
  case (End i)
  have "fst ` set (snd (route_list d)) = set (map route_id (routes d))" by (force simp: route_list_def)
  moreover have "next_route (unsubscribe i d) = next_route d" by (simp add: unsubscribe_def)
  moreover have "filter (\<lambda>r. fst r \<noteq> i) (map (\<lambda>r. (route_id r, matcher r, handler r)) rs) =
      map (\<lambda>r. (route_id r, matcher r, handler r)) (filter (\<lambda>r. route_id r \<noteq> i) rs)" for rs :: "route list"
    by (induction rs) simp_all
  ultimately show ?thesis
    using End unsubscribe_present [OF assms, of i] unsubscribe_absent [of i d]
    by (auto simp: route_list_def map_butlast)
qed

text \<open>
  C28: the routes of a dispatcher are a plain list of subscriptions, each with its own matcher and
  handler, after any sequence of subscriptions and of calls of the functions they returned, in any
  order and any number of times: a subscription goes to the end; ending one takes it out and leaves
  the others in order; ending one that is no longer there takes out the last one, whoever made it.
\<close>

theorem routes_refine_list:
  "map (\<lambda>r. (route_id r, matcher r, handler r)) (routes (fold route_do ops (createDecodingDispatcher dec))) =
     snd (fold list_do ops (0, []))"
proof -
  have "dispatcher_wf d \<Longrightarrow> route_list (fold route_do ops d) = fold list_do ops (route_list d)" for d :: dispatcher
    by (induction ops arbitrary: d) (simp_all add: route_do_wf route_do_list)
  from this [of "createDecodingDispatcher dec"] show ?thesis
    by (simp add: createDecodingDispatcher_def dispatcher_wf_def route_list_def) (metis snd_conv)
qed

text \<open>
  Calling the function that unsubscribes a second time removes another subscription: the
  route is no longer found, its index is -1, and \<^verbatim>\<open>splice(-1, 1)\<close> removes the last route.
\<close>

lemma unsubscribe_twice_removes_last:
  assumes "dispatcher_wf d" and "i \<in> set (map route_id (routes d))"
  shows "routes (unsubscribe i (unsubscribe i d)) = butlast (filter (\<lambda>r. route_id r \<noteq> i) (routes d))"
proof -
  have "routes (unsubscribe i d) = filter (\<lambda>r. route_id r \<noteq> i) (routes d)"
    using assms by (rule unsubscribe_present)
  moreover from this have "i \<notin> set (map route_id (routes (unsubscribe i d)))" by auto
  ultimately show ?thesis using unsubscribe_absent by metis
qed

lemma first_route_skip:
  "(\<And>r. r \<in> set pre \<Longrightarrow> run_matcher h (matcher r) m = Inr False) \<Longrightarrow>
   first_route h (pre @ rs) m = first_route h rs m"
  by (induction pre) auto

text \<open>
  C26: a message goes to exactly one handler, that of the first route in subscription order that
  matches it; it is decoded only then, and a decoding error rejects the dispatch without calling
  any handler. A message that no route matches is dropped.
\<close>

theorem dispatch_first_match:
  assumes "\<And>r. r \<in> set pre \<Longrightarrow> run_matcher h (matcher r) m = Inr False"
  shows "(routes d = pre \<longrightarrow> dispatch h run_handler m d = (Inr (), d)) \<and>
    (routes d = pre @ r # post \<and> run_matcher h (matcher r) m = Inr True \<longrightarrow>
       dispatch h run_handler m d =
         (case run_decoder h (decoder d) m of
            Inl e \<Rightarrow> (Inl e, d)
          | Inr obj \<Rightarrow> call_handler h run_handler (handler r) obj (headers m) d))"
  using first_route_skip [of pre h m "[]"] first_route_skip [of pre h m "r # post"] assms
  by (auto simp: dispatch_def)

lemma createNamedSubscribers_get:
  assumes "obj_wf source"
  shows "\<exists>subs. createNamedSubscribers source = Inr subs \<and>
    (\<forall>name. obj_get subs name = map_option (splitPrefix name) (obj_get source name))"
proof -
  let ?keys = "obj_keys (own_order source)"
  let ?f = "\<lambda>name. (name, splitPrefix name (the (obj_get source name)))"
  have keys: "set ?keys = set (obj_keys source)" "distinct ?keys" using assms by (force, simp)
  then have "obj_get source name \<noteq> None" if "name \<in> set ?keys" for name
    using that obj_get_None_iff [of source name] by blast
  then have "map_result (\<lambda>name. case obj_get source name of
        Some g \<Rightarrow> (let (eventName, guard) = splitPrefix name g in Inr (name, (eventName, guard)))
      | None \<Rightarrow> Inl TypeErr) ?keys = Inr (map ?f ?keys)"
    by (intro map_result_Inr_map) (auto simp: split_beta split: option.splits)
  moreover have "obj_keys (map ?f ?keys) = ?keys" by (simp add: comp_def)
  then have wf: "obj_wf (map ?f ?keys)" using keys(2) by (simp only:)
  ultimately have eq: "createNamedSubscribers source = Inr (map ?f ?keys)"
    by (simp only: createNamedSubscribers_def mapToObj_def andThen.simps obj_assign_empty)
  moreover have "obj_get (map ?f ?keys) name = map_option (splitPrefix name) (obj_get source name)" for name
  proof (cases "obj_get source name")
    case None
    then have "name \<notin> set (obj_keys (map ?f ?keys))"
      using keys obj_get_None_iff [of source name] by (auto simp: comp_def)
    then show ?thesis using None obj_get_None_iff [of "map ?f ?keys" name] by simp
  next
    case (Some g)
    then have "name \<in> set ?keys" using keys(1) obj_get_None_iff [of source name] by auto
    then have "(name, splitPrefix name g) \<in> set (map ?f ?keys)" using Some by force
    with Some show ?thesis using obj_get_Some_iff [OF wf] by simp
  qed
  ultimately show ?thesis by blast
qed

lemma source_not_content_type:
  assumes "obj_wf source"
  shows "\<not> isContentType (arg_val (SourceArg source))"
proof -
  have "obj_wf (map (\<lambda>(k, g). (k, guard_val g)) source)" using assms by (simp only: obj_keys_map)
  then have "js_get (arg_val (SourceArg source)) k =
      (case map_option guard_val (obj_get source k) of Some x \<Rightarrow> x | None \<Rightarrow> JUndefined)" for k
    by (simp add: js_get_JObject obj_get_map)
  moreover have "typeof (guard_val g) \<noteq> ''string''" for g by (cases g) auto
  ultimately have "typeof (js_get (arg_val (SourceArg source)) (js ''name'')) \<noteq> ''string''"
    by (auto split: option.splits)
  then show ?thesis by (simp add: isContentType_def)
qed

lemma createRpcEventDispatcher_source:
  assumes "obj_wf source"
  shows "\<exists>subs. createRpcEventDispatcher (SourceArg source) None =
      Inr (createEventDispatcher (Some (TypesDecoder [ContentTypes_json])), Some subs) \<and>
    (\<forall>name. obj_get subs name = map_option (splitPrefix name) (obj_get source name))"
  using createNamedSubscribers_get [OF assms] source_not_content_type [OF assms]
  by (auto simp: createRpcEventDispatcher_def rpc_dispatcher_def)

text \<open>
  C27: a named subscriber delivers the events of its own class and nothing else: on a dispatcher
  made from a source of subscribers, after subscribing a handler under a name of the source, a
  message is decoded as JSON and given to the handler if its class is the event name (the prefix,
  or the name itself) and the guard accepts it; a rejected event throws; a message of another
  class is ignored.
\<close>

theorem named_subscriber_delivers:
  assumes "obj_wf source" and "obj_get source name = Some g" and "splitPrefix name g = (eventName, guard)"
    and "createRpcEventDispatcher (SourceArg source) None = Inr (d, Some subs)"
  shows "obj_get subs name = Some (eventName, guard) \<and>
    dispatch h run_handler m (snd (subscribe (eventName, guard) n d)) =
      (if header_of m Header_Class \<noteq> Some eventName then (Inr (), snd (subscribe (eventName, guard) n d))
       else case createDecoder h [ContentTypes_json] m of
         Inl e \<Rightarrow> (Inl e, snd (subscribe (eventName, guard) n d))
       | Inr obj \<Rightarrow>
           if user_guard h guard obj then run_handler n obj (headers m) (snd (subscribe (eventName, guard) n d))
           else (Inl (TypeCheckFailed eventName), snd (subscribe (eventName, guard) n d)))"
proof -
  obtain subs' where subs': "createRpcEventDispatcher (SourceArg source) None =
      Inr (createEventDispatcher (Some (TypesDecoder [ContentTypes_json])), Some subs')"
    "\<And>name. obj_get subs' name = map_option (splitPrefix name) (obj_get source name)"
    using createRpcEventDispatcher_source [OF assms(1)] by blast
  with assms(4) have d: "d = createEventDispatcher (Some (TypesDecoder [ContentTypes_json]))" "subs = subs'"
    by simp_all
  have "obj_get subs name = Some (eventName, guard)" using subs'(2) assms(2,3) d(2) by simp
  moreover have "routes (snd (subscribe (eventName, guard) n d)) =
      [\<lparr>route_id = 0, matcher = ClassIs eventName, handler = GuardedHandler eventName guard n\<rparr>]"
    "decoder (snd (subscribe (eventName, guard) n d)) = TypesDecoder [ContentTypes_json]"
    by (simp_all add: d(1) subscribe_def handle_event_def handle_routes createEventDispatcher_def
        createDecodingEventDispatcher_def createDecodingDispatcher_def)
  ultimately show ?thesis
    by (simp add: dispatch_def run_matcher_def run_decoder_def call_handler_def split: sum.splits)
qed

end
