(* ===== verification/Rpc_Client.thy ===== *)
theory Rpc_Client
  imports Dispatcher
begin

text \<open>
  The RpcClient directory: the reactor that sends requests and matches responses to them
  (RpcReactor.ts) and the proxy of typed methods over it (RpcMethods.ts). The reactor's state holds
  the table of outstanding calls, the promises the calls wait on, the identifiers, what was
  written to the connection, and what the run loop returned once it ended. The dispatch function
  is the client's: \<open>on_event\<close> runs it on its own state.
\<close>

section \<open>The reactor\<close>

record reactor_options =
  opt_encoder :: "content_type opt_field"
  opt_decoder :: "decoder opt_field"

definition reactor_encoder :: "reactor_options \<Rightarrow> jsval" where
  "reactor_encoder opts =
     (case spread ContentTypes_json (opt_encoder opts) of Some ct \<Rightarrow> content_type_val ct | None \<Rightarrow> JUndefined)"

definition reactor_decoder :: "reactor_options \<Rightarrow> decoder option" where
  "reactor_decoder opts = spread (TypesDecoder [ContentTypes_json, ContentTypes_binary]) (opt_decoder opts)"

record 'd reactor =
  calls :: "(jsstring \<times> nat) list"
  triplets :: "message promises"
  ids :: rpc_ids
  written :: "message list"
  ended :: "jserr option"
  closed_property :: bool
  dispatch_state :: 'd

definition createRpcReactor :: "rpc_ids \<Rightarrow> 'd \<Rightarrow> 'd reactor" where
  "createRpcReactor ids0 d =
     (let running = True
      in \<lparr>calls = [], triplets = [], ids = ids0, written = [], ended = None, closed_property = (\<not> running),
          dispatch_state = d\<rparr>)"

text \<open>
  The variable \<^verbatim>\<open>running\<close> and the two properties of the returned function. \<^verbatim>\<open>Object.assign\<close> reads the
  getter of \<^verbatim>\<open>closed\<close> once, when the reactor is made, and copies its value; \<^verbatim>\<open>error\<close> is the promise of the
  run loop, which is fulfilled with what the loop caught.
\<close>

definition running :: "'d reactor \<Rightarrow> bool" where
  "running s = (ended s = None)"

definition reactor_closed :: "'d reactor \<Rightarrow> bool" where
  "reactor_closed s = closed_property s"

definition reactor_error :: "'d reactor \<Rightarrow> jserr promise" where
  "reactor_error s = (case ended s of None \<Rightarrow> Pending | Some e \<Rightarrow> Fulfilled e)"

text \<open>The key under which a header value is looked up: \<^verbatim>\<open>undefined\<close> becomes a string.\<close>

definition id_key :: "jsstring option \<Rightarrow> jsstring" where
  "id_key i = (case i of Some k \<Rightarrow> k | None \<Rightarrow> js ''undefined'')"

text \<open>
  The first half of a call, up to \<^verbatim>\<open>await triplet.promise\<close>: the result is the promise the call waits
  on, or the error that creating the request threw.
\<close>

definition call_send ::
  "('z) host_scheme \<Rightarrow> reactor_options \<Rightarrow> jsstring \<Rightarrow> jsval \<Rightarrow> 'd reactor \<Rightarrow> nat result \<times> 'd reactor" where
  "call_send h opts name content s =
     (let content1 = (if content = JUndefined then JNoContent else content);
          (request, ids1) =
            (if content1 = JNoContent then createRpcRequestMessage h (ids s) name []
             else createRpcRequestMessage h (ids s) name [reactor_encoder opts, content1])
      in case request of
           Inl e \<Rightarrow> (Inl e, s\<lparr>ids := ids1\<rparr>)
         | Inr req \<Rightarrow>
             (let (i, ps) = newPromiseTriplet (triplets s)
              in (Inr i, s\<lparr>ids := ids1, triplets := ps, calls := obj_set (id_key (messageID h req)) i (calls s),
                           written := written s @ [req]\<rparr>)))"

text \<open>The second half: what the call returns when its response has come.\<close>

definition call_result :: "('z) host_scheme \<Rightarrow> reactor_options \<Rightarrow> jsstring \<Rightarrow> message \<Rightarrow> jsval result" where
  "call_result h opts name response =
     (case messageError h response of
        Some e \<Rightarrow> Inl (CallFailed name (if e \<noteq> [] then e else js ''[blank message]''))
      | None \<Rightarrow>
          (case header_of response Header_Type of
             Some t \<Rightarrow>
               if t \<noteq> [] then
                 (case reactor_decoder opts of Some d \<Rightarrow> run_decoder h d response | None \<Rightarrow> Inl TypeErr)
               else Inr JUndefined
           | None \<Rightarrow> Inr JUndefined))"

text \<open>One turn of the run loop: what \<^verbatim>\<open>conn.read()\<close> delivered is handled; an exception ends the loop.\<close>

definition run_turn ::
  "('z) host_scheme \<Rightarrow> (message \<Rightarrow> 'd \<Rightarrow> unit result \<times> 'd) \<Rightarrow> message result \<Rightarrow> 'd reactor \<Rightarrow> 'd reactor" where
  "run_turn h on_event input s =
     (case input of
        Inl e \<Rightarrow> s\<lparr>ended := Some e\<rparr>
      | Inr m \<Rightarrow>
          if isRpcMessage (message_val m) then
            (case obj_lookup (calls s) (id_key (messageID h m)) of
               Own i \<Rightarrow> s\<lparr>calls := obj_del (id_key (messageID h m)) (calls s), triplets := resolve i m (triplets s)\<rparr>
             | Inherited \<Rightarrow> s\<lparr>ended := Some TypeErr\<rparr>
             | Missing \<Rightarrow> s)
          else if isRpcEventMessage (message_val m) then
            (case on_event m (dispatch_state s) of
               (Inl e, d) \<Rightarrow> s\<lparr>dispatch_state := d, ended := Some e\<rparr>
             | (Inr _, d) \<Rightarrow> s\<lparr>dispatch_state := d\<rparr>)
          else s)"

text \<open>
  The counter of the identifiers belongs to the module createRpcMessage.ts: other reactors and other
  code of the page take identifiers from it too.
\<close>

definition other_id :: "'d reactor \<Rightarrow> 'd reactor" where
  "other_id s = s\<lparr>ids := (ids s)\<lparr>nextId := js_inc (nextId (ids s))\<rparr>\<rparr>"

text \<open>
  What may happen: a call; a turn of the loop, on anything that a connection could deliver; since the
  dispatcher is the application's, a change of its subscriptions at any time; other code taking an
  identifier. Which inputs the loop gets over a connection is the matter of the theory Client_Run.
\<close>

inductive reactor_step ::
  "('z) host_scheme \<Rightarrow> reactor_options \<Rightarrow> (message \<Rightarrow> 'd \<Rightarrow> unit result \<times> 'd) \<Rightarrow> 'd reactor \<Rightarrow> 'd reactor \<Rightarrow> bool"
  for h :: "('z) host_scheme" and opts :: reactor_options and on_event :: "message \<Rightarrow> 'd \<Rightarrow> unit result \<times> 'd" where
  step_call [step_intros]: "reactor_step h opts on_event s (snd (call_send h opts name content s))"
| step_run [step_intros]: "ended s = None \<Longrightarrow> reactor_step h opts on_event s (run_turn h on_event input s)"
| step_app [step_intros]: "reactor_step h opts on_event s (s\<lparr>dispatch_state := d\<rparr>)"
| step_other [step_intros]: "reactor_step h opts on_event s (other_id s)"

text \<open>When the reactor is made, the counter may have any value.\<close>

definition reactor_start :: "nat \<Rightarrow> 'd reactor \<Rightarrow> bool" where
  "reactor_start session s = (\<exists>n d. s = createRpcReactor \<lparr>sessionId = session, nextId = n\<rparr> d)"

text \<open>
  The same as a run of named events: a call, a turn of the loop with what it took, a change of the
  subscriptions, an identifier taken by other code. A loop that has ended takes nothing.
\<close>

datatype 'd reactor_event = Called jsstring jsval | Took "message result" | Changed 'd | OtherId

fun reactor_do ::
  "('z) host_scheme \<Rightarrow> reactor_options \<Rightarrow> (message \<Rightarrow> 'd \<Rightarrow> unit result \<times> 'd) \<Rightarrow> 'd reactor_event \<Rightarrow> 'd reactor \<Rightarrow> 'd reactor" where
  "reactor_do h opts on_event (Called name content) s = snd (call_send h opts name content s)"
| "reactor_do h opts on_event (Took input) s = (if ended s = None then run_turn h on_event input s else s)"
| "reactor_do h opts on_event (Changed d) s = s\<lparr>dispatch_state := d\<rparr>"
| "reactor_do h opts on_event OtherId s = other_id s"

definition reactor_run ::
  "('z) host_scheme \<Rightarrow> reactor_options \<Rightarrow> (message \<Rightarrow> 'd \<Rightarrow> unit result \<times> 'd) \<Rightarrow> 'd reactor_event list \<Rightarrow> 'd reactor \<Rightarrow> 'd reactor" where
  "reactor_run h opts on_event es s = fold (reactor_do h opts on_event) es s"

fun taken_inputs :: "'d reactor_event list \<Rightarrow> message result list" where
  "taken_inputs [] = []"
| "taken_inputs (Took input # es) = input # taken_inputs es"
| "taken_inputs (_ # es) = taken_inputs es"

section \<open>Typed methods\<close>

datatype rpc_method = RpcMethod jsstring "nat option" | InheritedMember jsstring | NoMethod

text \<open>
  The proxy's \<^verbatim>\<open>get\<close>: methods are made once per name and kept. The guard of a name that
  \<^verbatim>\<open>Object.prototype\<close> has is never used, because the lookup in the cache finds that member first.
\<close>

definition get_method ::
  "(jsstring \<times> nat) list option \<Rightarrow> jsval \<Rightarrow> (jsstring \<times> rpc_method) list \<Rightarrow> rpc_method \<times> (jsstring \<times> rpc_method) list" where
  "get_method guards key methods =
     (case key of
        JString name \<Rightarrow>
          (let guard = (case guards of Some g \<Rightarrow> obj_get g name | None \<Rightarrow> None)
           in case obj_lookup methods name of
                Own mt \<Rightarrow> (mt, methods)
              | Inherited \<Rightarrow> (InheritedMember name, methods)
              | Missing \<Rightarrow> (RpcMethod name guard, obj_set name (RpcMethod name guard) methods))
      | _ \<Rightarrow> (NoMethod, methods))"

definition method_content :: "jsval \<Rightarrow> jsval" where
  "method_content content = (if content = JUndefined then JNoContent else content)"

text \<open>What a method returns, given what the query delegate delivered.\<close>

definition method_result :: "('z) host_scheme \<Rightarrow> jsstring \<Rightarrow> nat option \<Rightarrow> jsval result \<Rightarrow> jsval result" where
  "method_result h name guard delivered =
     andThen delivered (\<lambda>v.
       case guard of
         Some g \<Rightarrow> if \<not> user_guard h g v then Inl (UnexpectedResponse name) else Inr v
       | None \<Rightarrow> Inr v)"

section \<open>Runs of the reactor\<close>

lemma reactor_run_snoc:
  "reactor_run h opts on_event (es @ [e]) s = reactor_do h opts on_event e (reactor_run h opts on_event es s)"
  by (simp add: reactor_run_def)

lemma taken_append [simp]: "taken_inputs (es @ es') = taken_inputs es @ taken_inputs es'"
  by (induction es rule: taken_inputs.induct) simp_all

lemma other_id_ended: "ended (other_id s) = ended s"
  by (simp add: other_id_def)

section \<open>Requests\<close>

lemma rpc_id_not_prototype: "rpc_id session n \<notin> set object_prototype"
proof -
  have "46 \<in> set (rpc_id session n)" by (simp add: rpc_id_def)
  moreover have "list_all (\<lambda>k. 46 \<notin> set k) object_prototype" by code_simp
  ultimately show ?thesis by (auto simp: list_all_iff)
qed

lemma request_shape:
  assumes "createRpcRequestMessage h ids0 name args = (r, ids1)"
  shows "case r of Inl e \<Rightarrow> ids1 = ids0
    | Inr req \<Rightarrow> ids1 = ids0\<lparr>nextId := js_inc (nextId ids0)\<rparr> \<and> obj_wf (headers req) \<and>
        header_of req Header_ID = Some (rpc_id (sessionId ids0) (js_inc (nextId ids0))) \<and>
        header_of req Header_Class = Some name"
proof (cases "createMessageBase h args")
  case (Inl e)
  then have "createRpcRequestMessage h ids0 name args = (Inl e, ids0)"
    by (simp add: createRpcRequestMessage_def createRpcMessageBase_def)
  with assms have "r = Inl e" "ids1 = ids0" by simp_all
  then show ?thesis by simp
next
  case (Inr m)
  with assms createMessageBase_wf [OF Inr] show ?thesis
    by (auto simp: createRpcRequestMessage_def createRpcMessageBase_def Let_def)
qed

text \<open>What sending does to the state, in either outcome.\<close>

lemma call_send_cases:
  assumes "call_send h opts name content s = (r, t)"
  shows "(\<exists>e. r = Inl e \<and> t = s) \<or>
    (\<exists>req. r = Inr (length (triplets s)) \<and> obj_wf (headers req) \<and>
       header_of req Header_ID = Some (rpc_id (sessionId (ids s)) (js_inc (nextId (ids s)))) \<and>
       header_of req Header_Class = Some name \<and>
       t = s\<lparr>ids := (ids s)\<lparr>nextId := js_inc (nextId (ids s))\<rparr>, triplets := triplets s @ [Pending],
            calls := obj_set (rpc_id (sessionId (ids s)) (js_inc (nextId (ids s)))) (length (triplets s)) (calls s),
            written := written s @ [req]\<rparr>)"
proof -
  let ?c = "if content = JUndefined then JNoContent else content"
  let ?args = "if ?c = JNoContent then [] else [reactor_encoder opts, ?c]"
  obtain req ids1 where r: "createRpcRequestMessage h (ids s) name ?args = (req, ids1)"
    by (cases "createRpcRequestMessage h (ids s) name ?args")
  have send: "(r, t) = (case req of
           Inl e \<Rightarrow> (Inl e, s\<lparr>ids := ids1\<rparr>)
         | Inr q \<Rightarrow> (Inr (length (triplets s)), s\<lparr>ids := ids1, triplets := triplets s @ [Pending],
             calls := obj_set (id_key (header_of q Header_ID)) (length (triplets s)) (calls s),
             written := written s @ [q]\<rparr>))"
    using assms r by (auto simp: call_send_def Let_def newPromiseTriplet_def split: sum.splits if_splits)
  show ?thesis
  proof (cases req)
    case (Inl e)
    with send request_shape [OF r] show ?thesis by simp
  next
    case (Inr q)
    with send request_shape [OF r] show ?thesis by (auto simp: id_key_def)
  qed
qed

lemma call_send_ended: "ended (snd (call_send h opts name content s)) = ended s"
  by (simp add: call_send_def split_beta Let_def split: sum.splits)

lemma call_send_triplets:
  "triplets (snd (call_send h opts name content s)) = triplets s \<or>
   triplets (snd (call_send h opts name content s)) = triplets s @ [Pending]"
  by (simp add: call_send_def newPromiseTriplet_def split_beta Let_def split: sum.splits)

text \<open>
  An encoder that is given as \<^verbatim>\<open>undefined\<close> replaces the default one, and the content of every call is
  lost: the request has no content type and an empty body.
\<close>

lemma undefined_encoder_drops_content:
  assumes "opt_encoder opts = Undefined"
  shows "\<exists>req. written (snd (call_send h opts name content s)) = written s @ [req] \<and> body req = emptyBlob \<and>
    header_of req Header_Type = None"
proof -
  have args: "createMessageBase h (if c = JNoContent then [] else [reactor_encoder opts, c]) = Inr empty_message" for c
    using assms
    by (simp add: reactor_encoder_def createMessageBase_def isHeaders_def isContentType_def isObj_def)
  have "header_of empty_message Header_Type = None" by (simp add: header_of_def obj_simps)
  then show ?thesis
    using args [of "if content = JUndefined then JNoContent else content"]
    by (auto simp: call_send_def createRpcRequestMessage_ok newPromiseTriplet_def Let_def split: if_splits)
qed

section \<open>The table of outstanding calls\<close>

text \<open>
  While the identifiers do not run out, the table holds exactly the calls whose promise is pending,
  each once and under an identifier of this session.
\<close>

definition calls_ok :: "nat \<Rightarrow> 'd reactor \<Rightarrow> bool" where
  "calls_ok session s =
     (sessionId (ids s) = session \<and> obj_wf (calls s) \<and> distinct (map snd (calls s)) \<and>
      (\<forall>i. i \<in> snd ` set (calls s) \<longleftrightarrow> i < length (triplets s) \<and> triplets s ! i = Pending) \<and>
      (\<forall>k \<in> fst ` set (calls s). \<exists>n. n \<le> nextId (ids s) \<and> k = rpc_id session n))"

definition reactor_inv :: "nat \<Rightarrow> 'd reactor \<Rightarrow> bool" where
  "reactor_inv session s = (nextId (ids s) < 2 ^ 53 \<longrightarrow> calls_ok session s)"

lemma reactor_start_inv: "reactor_start session s \<Longrightarrow> reactor_inv session s"
  by (auto simp: reactor_start_def createRpcReactor_def reactor_inv_def calls_ok_def)

lemma set_obj_set_new: "k \<notin> fst ` set ps \<Longrightarrow> obj_set k v ps = ps @ [(k, v)]"
  by (rule obj_set_new) simp

lemma call_send_inv:
  assumes "reactor_inv session s"
  shows "reactor_inv session (snd (call_send h opts name content s))"
proof -
  obtain r t where c: "call_send h opts name content s = (r, t)" by (cases "call_send h opts name content s")
  let ?n = "js_inc (nextId (ids s))" and ?i = "length (triplets s)"
  from call_send_cases [OF c] show ?thesis
  proof (elim disjE exE conjE)
    fix e assume "r = Inl e" "t = s"
    with c assms show ?thesis by simp
  next
    fix req
    assume t: "t = s\<lparr>ids := (ids s)\<lparr>nextId := ?n\<rparr>, triplets := triplets s @ [Pending],
      calls := obj_set (rpc_id (sessionId (ids s)) ?n) ?i (calls s), written := written s @ [req]\<rparr>"
    have "calls_ok session t" if lt: "?n < 2 ^ 53"
    proof -
      have n: "?n = nextId (ids s) + 1" "nextId (ids s) < 2 ^ 53"
        using lt by (auto simp: js_inc_def split: if_splits)
      then have ok: "calls_ok session s" using assms by (simp add: reactor_inv_def)
      then have new: "rpc_id session ?n \<notin> fst ` set (calls s)"
        using n(1) by (fastforce simp: calls_ok_def rpc_id_inj)
      then have cs: "calls t = calls s @ [(rpc_id session ?n, ?i)]"
        using ok t by (simp add: set_obj_set_new calls_ok_def)
      have keys: "\<forall>k \<in> fst ` set (calls s). \<exists>m. m \<le> nextId (ids s) \<and> k = rpc_id session m"
        and pend: "\<forall>i. i \<in> snd ` set (calls s) \<longleftrightarrow> i < length (triplets s) \<and> triplets s ! i = Pending"
        and wf: "obj_wf (calls s)" "distinct (map snd (calls s))" and sess: "sessionId (ids s) = session"
        using ok by (simp_all add: calls_ok_def)
      have "?i \<notin> snd ` set (calls s)" using pend by simp
      then have "obj_wf (calls t)" "distinct (map snd (calls t))" using wf new cs by simp_all
      moreover have "sessionId (ids t) = session" "nextId (ids t) = nextId (ids s) + 1"
        using sess n(1) t by simp_all
      moreover have "\<forall>k \<in> fst ` set (calls t). \<exists>m. m \<le> nextId (ids s) + 1 \<and> k = rpc_id session m"
        using keys n(1) unfolding cs by (auto intro: le_SucI exI [of _ "nextId (ids s) + 1"])
      moreover have "\<forall>i. i \<in> snd ` set (calls t) \<longleftrightarrow> i < length (triplets t) \<and> triplets t ! i = Pending"
        unfolding cs using pend t by (auto simp: nth_append less_Suc_eq)
      ultimately show ?thesis unfolding calls_ok_def by simp
    qed
    with c t show ?thesis by (simp add: reactor_inv_def)
  qed
qed

lemma resolve_call:
  assumes "calls_ok session s" and "obj_get (calls s) k = Some i"
  shows "calls_ok session (s\<lparr>calls := obj_del k (calls s), triplets := resolve i m (triplets s)\<rparr>)" (is "calls_ok session ?t")
proof -
  have ki: "(k, i) \<in> set (calls s)" "obj_wf (calls s)" "distinct (map snd (calls s))"
    using assms obj_get_Some_iff [of "calls s" k i] by (simp_all add: calls_ok_def)
  then have i: "i < length (triplets s)" "triplets s ! i = Pending"
    using assms(1) by (force simp: calls_ok_def)+
  have j: "j = i" if "(k, j) \<in> set (calls s)" for j
    using that ki by (metis eq_key_imp_eq_value)
  have k': "k' = k" if "(k', i) \<in> set (calls s)" for k'
    using inj_onD [of snd "set (calls s)" "(k', i)" "(k, i)"] that ki(1,3) by (simp add: distinct_map)
  have in_snd: "l \<in> snd ` set ps \<longleftrightarrow> (\<exists>x. (x, l) \<in> set ps)" for l and ps :: "(jsstring \<times> nat) list"
    by force
  have "l \<in> snd ` set (obj_del k (calls s)) \<longleftrightarrow> l \<in> snd ` set (calls s) \<and> l \<noteq> i" for l
    unfolding in_snd using j k' by (auto simp: obj_del_def)
  moreover have "triplets ?t = (triplets s)[i := Fulfilled m]"
    using i by (simp add: settle_def promise_at_def)
  ultimately have "\<forall>j. j \<in> snd ` set (calls ?t) \<longleftrightarrow> j < length (triplets ?t) \<and> triplets ?t ! j = Pending"
    using assms(1) i by (auto simp: calls_ok_def nth_list_update)
  moreover have "obj_wf (calls ?t)" "distinct (map snd (calls ?t))" "set (calls ?t) \<subseteq> set (calls s)"
    using ki(2,3) by (simp_all add: obj_wf_del) (auto simp: obj_del_def distinct_map_filter)
  ultimately show ?thesis using assms(1) unfolding calls_ok_def by simp blast
qed

lemma run_turn_inv:
  assumes "reactor_inv session s"
  shows "reactor_inv session (run_turn h on_event input s)"
proof -
  have keep: "reactor_inv session (s\<lparr>dispatch_state := d, ended := e\<rparr>)" for e :: "jserr option" and d
    using assms by (simp add: reactor_inv_def calls_ok_def)
  have del: "reactor_inv session (s\<lparr>calls := obj_del k (calls s), triplets := resolve i m (triplets s)\<rparr>)"
    if "obj_lookup (calls s) k = Own i" for k i m
    using assms resolve_call that
    by (auto simp: reactor_inv_def obj_lookup_def split: option.splits if_splits)
  show ?thesis
    using keep [where e = "ended s"] keep [where d = "dispatch_state s"] keep del assms
    by (auto simp: run_turn_def split: sum.splits lookup.splits prod.splits)
qed

lemma other_inv: "reactor_inv session s \<Longrightarrow> reactor_inv session (other_id s)"
proof -
  have le: "nextId (ids s) \<le> js_inc (nextId (ids s))" by (simp add: js_inc_def)
  then have "\<exists>n \<le> js_inc (nextId (ids s)). k = rpc_id session n" if "\<exists>n \<le> nextId (ids s). k = rpc_id session n" for k
    using that le_trans by blast
  then have "calls_ok session s \<Longrightarrow> calls_ok session (other_id s)" by (simp add: calls_ok_def other_id_def)
  moreover have "nextId (ids (other_id s)) < 2 ^ 53 \<Longrightarrow> nextId (ids s) < 2 ^ 53" using le by (simp add: other_id_def)
  ultimately show "reactor_inv session s \<Longrightarrow> reactor_inv session (other_id s)" by (simp only: reactor_inv_def) blast
qed

lemma app_inv: "reactor_inv session (s\<lparr>dispatch_state := d\<rparr>) = reactor_inv session s"
  by (simp add: reactor_inv_def calls_ok_def)

inductive_cases reactor_stepE: "reactor_step h opts on_event s t"

interpretation outstanding: invariant_system "reactor_start session" "reactor_step h opts on_event" "reactor_inv session"
  by unfold_locales (erule reactor_start_inv, erule reactor_stepE, auto simp: call_send_inv run_turn_inv app_inv other_inv)

section \<open>Properties of the reactor\<close>

lemma call_registers:
  assumes "reach (reactor_start session) (reactor_step h opts on_event) s"
    and "call_send h opts name content s = (Inr i, t)" and "nextId (ids t) < 2 ^ 53"
  shows "\<exists>req. written t = written s @ [req] \<and> isRpcRequestMessage (message_val req) \<and>
    header_of req Header_Class = Some name \<and>
    (\<exists>k. header_of req Header_ID = Some k \<and> calls t = calls s @ [(k, i)]) \<and>
    triplets t = triplets s @ [Pending] \<and> i = length (triplets s)"
proof -
  let ?n = "js_inc (nextId (ids s))"
  obtain req where req: "obj_wf (headers req)" "header_of req Header_ID = Some (rpc_id (sessionId (ids s)) ?n)"
    "header_of req Header_Class = Some name" "i = length (triplets s)"
    and t: "t = s\<lparr>ids := (ids s)\<lparr>nextId := ?n\<rparr>, triplets := triplets s @ [Pending],
      calls := obj_set (rpc_id (sessionId (ids s)) ?n) (length (triplets s)) (calls s), written := written s @ [req]\<rparr>"
    using call_send_cases [OF assms(2)] by auto
  have n: "?n = nextId (ids s) + 1" "nextId (ids s) < 2 ^ 53"
    using assms(3) t by (auto simp: js_inc_def split: if_splits)
  then have ok: "calls_ok session s"
    using outstanding.inv_reach [OF assms(1)] by (simp add: reactor_inv_def)
  then have "rpc_id (sessionId (ids s)) ?n \<notin> fst ` set (calls s)"
    using n(1) by (fastforce simp: calls_ok_def rpc_id_inj)
  then have "calls t = calls s @ [(rpc_id (sessionId (ids s)) ?n, i)]"
    using t req(4) by (simp add: set_obj_set_new)
  with req t show ?thesis by (intro exI [of _ req]) (simp add: guards_message_val)
qed

lemma run_turn_own:
  assumes "obj_get (calls s) k = Some i" and "i < length (triplets s)" and "triplets s ! i = Pending"
    and "obj_wf (headers m)" and "header_of m Header_ID = Some k"
  shows "run_turn h on_event (Inr m) s = s\<lparr>calls := obj_del k (calls s), triplets := (triplets s)[i := Fulfilled m]\<rparr>"
  using assms by (simp add: run_turn_def guards_message_val id_key_def obj_lookup_def settle_def promise_at_def)

text \<open>
  C6: a response settles the call it answers and no other: in a reachable state with the loop
  running, a message with the identifier of an outstanding call fulfils that call's promise with
  the message, removes the call and leaves all other promises as they are; a second message with
  the same identifier changes nothing.
\<close>

theorem response_settles_its_call:
  assumes "reach (reactor_start session) (reactor_step h opts on_event) s" and "nextId (ids s) < 2 ^ 53"
    and "obj_get (calls s) k = Some i"
    and "obj_wf (headers m)" and "header_of m Header_ID = Some k"
    and "obj_wf (headers m')" and "header_of m' Header_ID = Some k"
  shows "let t = run_turn h on_event (Inr m) s in
    triplets t = (triplets s)[i := Fulfilled m] \<and> i < length (triplets s) \<and> triplets s ! i = Pending \<and>
    calls t = obj_del k (calls s) \<and> ended t = ended s \<and> run_turn h on_event (Inr m') t = t"
proof -
  have ok: "calls_ok session s" using outstanding.inv_reach [OF assms(1)] assms(2) by (simp add: reactor_inv_def)
  have "(k, i) \<in> set (calls s)" using ok assms(3) obj_get_Some_iff [of "calls s" k i] by (simp add: calls_ok_def)
  then have i: "i < length (triplets s)" "triplets s ! i = Pending" and k: "k \<notin> set object_prototype"
    using ok rpc_id_not_prototype by (force simp: calls_ok_def)+
  have t: "run_turn h on_event (Inr m) s = s\<lparr>calls := obj_del k (calls s), triplets := (triplets s)[i := Fulfilled m]\<rparr>"
    using run_turn_own [OF assms(3) i assms(4,5)] .
  moreover have "run_turn h on_event (Inr m') (run_turn h on_event (Inr m) s) = run_turn h on_event (Inr m) s"
    unfolding t using assms(6,7) k by (simp add: run_turn_def guards_message_val id_key_def obj_lookup_def obj_get_del)
  ultimately show ?thesis using i by (simp add: Let_def)
qed

text \<open>
  C7: no call is lost while the loop runs: in every reachable state the outstanding calls in the
  table are exactly those whose promise is pending, each under its own identifier.
\<close>

theorem outstanding_calls_exact:
  assumes "reach (reactor_start session) (reactor_step h opts on_event) s" and "nextId (ids s) < 2 ^ 53"
  shows "obj_wf (calls s) \<and> distinct (map snd (calls s)) \<and>
    (\<forall>i. i \<in> snd ` set (calls s) \<longleftrightarrow> i < length (triplets s) \<and> triplets s ! i = Pending)"
  using outstanding.inv_reach [OF assms(1)] assms(2) by (simp add: reactor_inv_def calls_ok_def)

text \<open>Once the run loop has ended, no outstanding call is ever settled, and a call made then waits on a
  pending promise.\<close>

lemma ended_stays:
  assumes "ended s \<noteq> None" and "(reactor_step h opts on_event)\<^sup>*\<^sup>* s t"
  shows "ended t = ended s \<and> length (triplets s) \<le> length (triplets t) \<and>
    (\<forall>i < length (triplets t). triplets t ! i = (if i < length (triplets s) then triplets s ! i else Pending))"
  using assms(2)
proof (induction rule: rtranclp_induct)
  case base
  show ?case by simp
next
  case (step u v)
  have "ended v = ended u \<and> (triplets v = triplets u \<or> triplets v = triplets u @ [Pending])"
    using step(2,3) assms(1) call_send_triplets by (fastforce simp: call_send_ended other_id_def elim!: reactor_stepE)
  with step(3) show ?case by (auto simp: nth_append less_Suc_eq)
qed

text \<open>Nothing writes to the copied property.\<close>

lemma closed_property_frame:
  "closed_property (snd (call_send h opts name content s)) = closed_property s"
  "closed_property (run_turn h on_event input s) = closed_property s"
  by (auto simp: call_send_def run_turn_def split_beta Let_def split: sum.splits lookup.splits)

interpretation frozen: invariant_system "reactor_start session" "reactor_step h opts on_event" "\<lambda>s. \<not> reactor_closed s"
  by unfold_locales
    (auto simp: reactor_start_def createRpcReactor_def reactor_closed_def closed_property_frame other_id_def elim!: reactor_stepE)

text \<open>
  \<^verbatim>\<open>closed\<close> never becomes true: when the run loop has ended, the promise \<^verbatim>\<open>error\<close> is fulfilled with
  the reason and stays so, while \<^verbatim>\<open>closed\<close> still has the value false that \<^verbatim>\<open>Object.assign\<close> copied when
  the reactor was made.
\<close>

lemma closed_never_true:
  assumes "reach (reactor_start session) (reactor_step h opts on_event) s" and "ended s = Some e"
    and "(reactor_step h opts on_event)\<^sup>*\<^sup>* s t"
  shows "\<not> running t \<and> reactor_error t = Fulfilled e \<and> \<not> reactor_closed t"
  using frozen.inv_reach [OF reach_steps [OF assms(3,1)]] ended_stays [OF _ assms(3)] assms(2)
  by (simp add: running_def reactor_error_def)

text \<open>
  A message whose identifier is the name of a member of \<^verbatim>\<open>Object.prototype\<close>, such as \<^verbatim>\<open>toString\<close>,
  ends the run loop with a TypeError.
\<close>

lemma prototype_id_ends_loop:
  assumes "obj_wf (headers m)" and "header_of m Header_ID = Some k" and "k \<in> set object_prototype"
    and "reach (reactor_start session) (reactor_step h opts on_event) s" and "nextId (ids s) < 2 ^ 53"
  shows "ended (run_turn h on_event (Inr m) s) = Some TypeErr"
proof -
  have "calls_ok session s" using outstanding.inv_reach [OF assms(4)] assms(5) by (simp add: reactor_inv_def)
  then have "k \<notin> fst ` set (calls s)" using assms(3) rpc_id_not_prototype by (force simp: calls_ok_def)
  then have "obj_get (calls s) k = None" by (simp add: obj_get_None_iff)
  with assms(1-3) show ?thesis
    by (simp add: run_turn_def guards_message_val id_key_def obj_lookup_def)
qed

section \<open>Properties of the methods\<close>

text \<open>
  The proxy gives every name that is not a member of \<^verbatim>\<open>Object.prototype\<close> one method and keeps
  it: getting the name again, after getting any other names, returns the same method. The method
  passes the delegate's errors on, rejects a result its guard refuses, and returns any other.
\<close>

lemma methods_are_kept:
  assumes "name \<notin> set object_prototype" and "obj_get ms name = None"
    and "get_method guards (JString name) ms = (mt, ms1)"
  shows "fst (get_method guards (JString name) (fold (\<lambda>k ms. snd (get_method guards k ms)) keys ms1)) = mt \<and>
    (\<exists>guard. guard = (case guards of Some g \<Rightarrow> obj_get g name | None \<Rightarrow> None) \<and> mt = RpcMethod name guard \<and>
       method_result h name guard (Inl e) = Inl e \<and>
       method_result h name guard (Inr v) =
         (if (\<exists>g. guard = Some g \<and> \<not> user_guard h g v) then Inl (UnexpectedResponse name) else Inr v))"
proof -
  let ?m = "RpcMethod name (case guards of Some g \<Rightarrow> obj_get g name | None \<Rightarrow> None)"
  have mt: "mt = ?m" "ms1 = obj_set name ?m ms"
    using assms by (auto simp: get_method_def obj_lookup_def Let_def)
  have keep: "obj_get (snd (get_method guards k ns)) name = Some ?m" if "obj_get ns name = Some ?m" for k ns
    using that by (auto simp: get_method_def obj_lookup_def Let_def obj_get_set split: jsval.splits lookup.splits option.splits)
  have "obj_get (fold (\<lambda>k ms. snd (get_method guards k ms)) keys ns) name = Some ?m"
    if "obj_get ns name = Some ?m" for ns
    using that by (induction keys arbitrary: ns) (simp_all add: keep)
  from this [of ms1] mt show ?thesis
    by (auto simp: obj_get_set get_method_def obj_lookup_def Let_def method_result_def split: option.splits)
qed

text \<open>
  The proxy has a method \<^verbatim>\<open>then\<close> like any other name, so \<^verbatim>\<open>await\<close> on the proxy takes it for a promise
  and calls a remote method of that name.
\<close>

lemma proxy_is_thenable:
  "fst (get_method guards (JString (js ''then'')) []) =
     RpcMethod (js ''then'') (case guards of Some g \<Rightarrow> obj_get g (js ''then'') | None \<Rightarrow> None)"
proof -
  have "js ''then'' \<notin> set object_prototype" by code_simp
  then show ?thesis by (simp add: get_method_def obj_lookup_def obj_simps Let_def)
qed

text \<open>A name that \<^verbatim>\<open>Object.prototype\<close> has gives the inherited member instead of a method.\<close>

lemma prototype_method_inherited:
  assumes "name \<in> set object_prototype" and "obj_get ms name = None"
  shows "get_method guards (JString name) ms = (InheritedMember name, ms)"
  using assms by (simp add: get_method_def obj_lookup_def Let_def)

end
