(* ===== verification/Rpc_Connection.thy ===== *)
theory Rpc_Connection
  imports Persistent_Conn Rpc_Client
begin

text \<open>
  The client over its connection, the way an application puts the two together:
  \<^verbatim>\<open>createRpcReactor\<close> on the result of \<^verbatim>\<open>createWebSocketConn\<close>. The run loop reads from the connection at
  once and again after every message it has handled, calls are written to the connection, and
  the loop is its only reader. The facts: each half keeps its own invariants (lemma
  \<open>client_refines_aux\<close>), and the loop waits on the next read while it runs; a response that arrives on a socket settles its call; the loop ends when the connection reports that it is
  closed, and never ends when the socket has given up.
\<close>

section \<open>Definitions\<close>

text \<open>\<open>waiting\<close> is what the loop's \<^verbatim>\<open>await conn.read()\<close> waits on, none once the loop has ended.\<close>

record 'd rpc_conn =
  link :: pconn
  core :: "'d reactor"
  waiting :: "nat result option"

definition loop_read :: "'d rpc_conn \<Rightarrow> 'd rpc_conn" where
  "loop_read s =
     (let (r, c) = conn_read (conn (link s)) in s\<lparr>link := (link s)\<lparr>conn := c\<rparr>, waiting := Some r\<rparr>)"

text \<open>What the awaited read has delivered, if it is settled.\<close>

definition loop_input :: "'d rpc_conn \<Rightarrow> message result option" where
  "loop_input s =
     (case waiting s of
        None \<Rightarrow> None
      | Some (Inl e) \<Rightarrow> Some (Inl e)
      | Some (Inr i) \<Rightarrow>
          (case promise_at (fstate (exch (conn (link s)))) i of
             Pending \<Rightarrow> None
           | Fulfilled m \<Rightarrow> Some (Inr m)
           | Rejected e \<Rightarrow> Some (Inl e)))"

definition loop_turn ::
  "('z) host_scheme \<Rightarrow> (message \<Rightarrow> 'd \<Rightarrow> unit result \<times> 'd) \<Rightarrow> 'd rpc_conn \<Rightarrow> 'd rpc_conn" where
  "loop_turn h on_event s =
     (case loop_input s of
        None \<Rightarrow> s
      | Some input \<Rightarrow>
          (let q = run_turn h on_event input (core s)
           in if ended q = None then loop_read (s\<lparr>core := q\<rparr>) else s\<lparr>core := q, waiting := None\<rparr>))"

definition connect_client :: "rpc_ids \<Rightarrow> 'd \<Rightarrow> pconn \<Rightarrow> 'd rpc_conn" where
  "connect_client ids0 d l = loop_read \<lparr>link = l, core = createRpcReactor ids0 d, waiting = None\<rparr>"

definition client_call ::
  "('z) host_scheme \<Rightarrow> reactor_options \<Rightarrow> jsstring \<Rightarrow> jsval \<Rightarrow> 'd rpc_conn \<Rightarrow> nat result \<times> 'd rpc_conn" where
  "client_call h opts name content s =
     (let (r, q) = call_send h opts name content (core s)
      in (r, s\<lparr>core := q,
               link := (case r of Inl e \<Rightarrow> link s | Inr i \<Rightarrow> conn_write (last (written q)) (link s))\<rparr>))"

text \<open>
  What the promises of a call and of a typed method are, as the promise the call waits on is
  settled: the rest of the call, and then the rest of the method, run on what was delivered.
\<close>

definition call_value :: "('z) host_scheme \<Rightarrow> reactor_options \<Rightarrow> jsstring \<Rightarrow> nat \<Rightarrow> 'd rpc_conn \<Rightarrow> jsval promise" where
  "call_value h opts name i s =
     (case result_of (promise_at (triplets (core s)) i) of
        None \<Rightarrow> Pending
      | Some r \<Rightarrow> promise_of (andThen r (call_result h opts name)))"

definition method_value ::
  "('z) host_scheme \<Rightarrow> reactor_options \<Rightarrow> jsstring \<Rightarrow> nat option \<Rightarrow> nat \<Rightarrow> 'd rpc_conn \<Rightarrow> jsval promise" where
  "method_value h opts name guard i s =
     (case result_of (call_value h opts name i s) of
        None \<Rightarrow> Pending
      | Some r \<Rightarrow> promise_of (method_result h name guard r))"

definition method_call ::
  "('z) host_scheme \<Rightarrow> reactor_options \<Rightarrow> jsstring \<Rightarrow> jsval \<Rightarrow> 'd rpc_conn \<Rightarrow> nat result \<times> 'd rpc_conn" where
  "method_call h opts name content = client_call h opts name (method_content content)"

abbreviation on_link :: "(pconn \<Rightarrow> pconn) \<Rightarrow> 'd rpc_conn \<Rightarrow> 'd rpc_conn" where
  "on_link f s \<equiv> s\<lparr>link := f (link s)\<rparr>"

abbreviation parse_done :: "('z) unicode_scheme \<Rightarrow> nat \<Rightarrow> pconn \<Rightarrow> pconn" where
  "parse_done u i l \<equiv> l\<lparr>conn := snd (on_parsed u i (conn l))\<rparr>"

inductive client_step ::
  "('z) host_scheme \<Rightarrow> reactor_options \<Rightarrow> settings \<Rightarrow> bool \<Rightarrow> (message \<Rightarrow> 'd \<Rightarrow> unit result \<times> 'd) \<Rightarrow>
   'd rpc_conn \<Rightarrow> 'd rpc_conn \<Rightarrow> bool"
  for h :: "('z) host_scheme" and opts :: reactor_options and sets :: settings and closable :: bool
    and on_event :: "message \<Rightarrow> 'd \<Rightarrow> unit result \<times> 'd" where
  event [step_intros]: "browser_task k \<Longrightarrow> enabled k (ws (link s)) \<Longrightarrow>
     client_step h opts sets closable on_event s (on_link (ws_task h sets k) s)"
| parse [step_intros]: "client_step h opts sets closable on_event s (on_link (parse_done h i) s)"
| flush [step_intros]: "client_step h opts sets closable on_event s (on_link (write_ready h sets i) s)"
| shut [step_intros]: "closable \<Longrightarrow>
     client_step h opts sets closable on_event s (on_link (ws_task h sets (Client [ApiClose code reason])) s)"
| call [step_intros]: "client_step h opts sets closable on_event s (snd (client_call h opts name content s))"
| turn [step_intros]: "client_step h opts sets closable on_event s (loop_turn h on_event s)"
| app [step_intros]: "client_step h opts sets closable on_event s (s\<lparr>core := (core s)\<lparr>dispatch_state := d\<rparr>\<rparr>)"
| other [step_intros]: "client_step h opts sets closable on_event s (s\<lparr>core := other_id (core s)\<rparr>)"

definition client_start :: "(jsstring \<Rightarrow> bool) \<Rightarrow> options \<Rightarrow> nat \<Rightarrow> 'd rpc_conn \<Rightarrow> bool" where
  "client_start valid_url options session s =
     (\<exists>l n d. pconn_start valid_url options l \<and> s = connect_client \<lparr>sessionId = session, nextId = n\<rparr> d l)"

section \<open>Each half by itself\<close>

lemma loop_read_parts:
  "link (loop_read s) = (link s)\<lparr>conn := snd (conn_read (conn (link s)))\<rparr>" "core (loop_read s) = core s"
  "waiting (loop_read s) = Some (fst (conn_read (conn (link s))))"
  by (simp_all add: loop_read_def split_beta)

lemma loop_turn_cases:
  obtains (idle) "loop_input s = None" "loop_turn h on_event s = s"
  | (stop) input where "loop_input s = Some input" "ended (run_turn h on_event input (core s)) \<noteq> None"
      "loop_turn h on_event s = s\<lparr>core := run_turn h on_event input (core s), waiting := None\<rparr>"
  | (continue) input where "loop_input s = Some input" "ended (run_turn h on_event input (core s)) = None"
      "loop_turn h on_event s = loop_read (s\<lparr>core := run_turn h on_event input (core s)\<rparr>)"
  by (cases "loop_input s"; cases "ended (run_turn h on_event (the (loop_input s)) (core s)) = None")
    (auto simp: loop_turn_def Let_def)

lemma client_call_parts:
  "core (snd (client_call h opts name content s)) = snd (call_send h opts name content (core s))"
  "waiting (snd (client_call h opts name content s)) = waiting s"
  "conn (link (snd (client_call h opts name content s))) = conn (link s)"
  "ws (link (snd (client_call h opts name content s))) = ws (link s)"
  "link (snd (client_call h opts name content s)) = link s \<or>
   (\<exists>m. link (snd (client_call h opts name content s)) = conn_write m (link s))"
  by (auto simp: client_call_def split_beta conn_write_def split: sum.splits)

lemma client_link_step:
  assumes "client_step h opts sets closable on_event s t"
  shows "(pconn_step h sets closable)\<^sup>*\<^sup>* (link s) (link t)"
  using assms
proof cases
  case (call name content)
  then consider "link t = link s" | m where "link t = conn_write m (link s)"
    using client_call_parts(5) [of h opts name content s] by auto
  then show ?thesis
  proof cases
    case (2 m)
    show ?thesis unfolding 2 by (rule r_into_rtranclp) (rule pconn_step.writing)
  qed simp
next
  case turn
  then show ?thesis by (cases rule: loop_turn_cases [of s h on_event]) (auto simp: loop_read_parts intro: pconn_step.reading)
qed (auto intro: pconn_step.intros)

text \<open>The loop waits exactly while it has not ended.\<close>

definition loop_live :: "'d rpc_conn \<Rightarrow> bool" where
  "loop_live s = (waiting s = None \<longleftrightarrow> ended (core s) \<noteq> None)"

lemma loop_input_live: "loop_live s \<Longrightarrow> loop_input s = Some input \<Longrightarrow> ended (core s) = None"
  by (auto simp: loop_live_def loop_input_def split: option.splits)

lemma client_step_live: "loop_live s \<Longrightarrow> client_step h opts sets closable on_event s t \<Longrightarrow> loop_live t"
proof (erule client_step.cases)
  fix s'
  assume "loop_live s" "s = s'" "t = loop_turn h on_event s'"
  then show ?thesis by (cases rule: loop_turn_cases [of s h on_event]) (auto simp: loop_live_def loop_read_parts)
qed (auto simp: loop_live_def client_call_parts call_send_ended other_id_ended)

lemma client_core_step:
  assumes "loop_live s" and "client_step h opts sets closable on_event s t"
  shows "(reactor_step h opts on_event)\<^sup>*\<^sup>* (core s) (core t)"
  using assms(2)
proof cases
  case (call name content)
  then show ?thesis by (auto simp: client_call_parts intro: reactor_step.step_call)
next
  case turn
  then show ?thesis
    using loop_input_live [OF assms(1)]
    by (cases rule: loop_turn_cases [of s h on_event]) (auto simp: loop_read_parts intro: reactor_step.step_run)
qed (auto intro: reactor_step.step_app reactor_step.step_other)

lemma client_core_steps:
  assumes "(client_step h opts sets closable on_event)\<^sup>*\<^sup>* s t" and "loop_live s"
  shows "loop_live t \<and> (reactor_step h opts on_event)\<^sup>*\<^sup>* (core s) (core t)"
  using assms
proof (induction rule: rtranclp_induct)
  case (step t u)
  then show ?case using client_core_step [of t] client_step_live [of t] by (meson rtranclp_trans)
qed simp


lemma start_parts:
  assumes "client_start valid_url options session s"
  obtains l n d where "pconn_start valid_url options l" "link s = l\<lparr>conn := snd (conn_read (conn l))\<rparr>"
    "core s = createRpcReactor \<lparr>sessionId = session, nextId = n\<rparr> d" "waiting s = Some (fst (conn_read (conn l)))"
    "conn l = createWebSocketConn"
  using assms
  by (auto simp: client_start_def connect_client_def loop_read_parts pconn_start_def persistent_conn_def result_simps)

lemma client_refines_aux:
  assumes "reach (client_start valid_url options session) (client_step h opts (with_defaults options) closable on_event) s"
  shows "reach (pconn_start valid_url options) (pconn_step h (with_defaults options) closable) (link s) \<and>
    reach (reactor_start session) (reactor_step h opts on_event) (core s) \<and> loop_live s"
  using assms
proof (induction rule: reach.induct)
  case (reach_start s)
  then obtain l n d where l: "pconn_start valid_url options l" "link s = l\<lparr>conn := snd (conn_read (conn l))\<rparr>"
    "core s = createRpcReactor \<lparr>sessionId = session, nextId = n\<rparr> d" "waiting s = Some (fst (conn_read (conn l)))"
    by (rule start_parts)
  have "reach (pconn_start valid_url options) (pconn_step h (with_defaults options) closable) (link s)"
    unfolding l(2) by (rule reach_step, rule reach.reach_start, rule l(1), rule pconn_step.reading)
  moreover have "reactor_start session (core s)" using l(3) by (auto simp: reactor_start_def)
  moreover have "loop_live s" using l(3,4) by (simp add: loop_live_def createRpcReactor_def)
  ultimately show ?case by (blast intro: reach.reach_start)
next
  case (reach_step s t)
  then show ?case
    using reach_steps [OF client_link_step [OF reach_step(2)]] reach_steps [OF client_core_step [OF _ reach_step(2)]]
      client_step_live [OF _ reach_step(2)] by blast
qed

section \<open>The loop and its read\<close>

text \<open>
  The loop is the only reader: while it waits on promise i of an open connection, the promises up to
  i were taken and those before it are fulfilled; on a closed one its promise is settled.
\<close>

definition loop_reads :: "'d rpc_conn \<Rightarrow> bool" where
  "loop_reads s =
     (ended (core s) = None \<longrightarrow>
        (\<exists>i. waiting s = Some (Inr i) \<and>
           ((\<exists>ms. i \<le> length ms \<and> open_inv ms (Suc i) (conn (link s))) \<or> closed_inv (Suc i) (conn (link s)))) \<or>
        (waiting s = Some (Inl ConnectionClosed) \<and> closed (conn (link s))))"

definition reads_kept :: "ws_conn \<Rightarrow> ws_conn \<Rightarrow> bool" where
  "reads_kept c c' =
     ((\<forall>ms t. open_inv ms t c \<longrightarrow> (\<exists>ds. open_inv (ms @ ds) t c') \<or> closed_inv t c') \<and>
      (\<forall>t. closed_inv t c \<longrightarrow> closed_inv t c') \<and> (closed c \<longrightarrow> closed c'))"

lemma reads_kept_refl: "reads_kept c c"
  by (auto simp: reads_kept_def intro: exI [of _ "[]"])

lemma reads_kept_trans: "reads_kept a b \<Longrightarrow> reads_kept b c \<Longrightarrow> reads_kept a c"
  unfolding reads_kept_def by (metis append_assoc)

lemma conn_do_kept:
  assumes "e \<noteq> Read"
  shows "reads_kept c (snd (conn_do u e c))"
proof -
  have none: "fst (conn_do u e c) = []" using assms by (cases e) auto
  have "closed_inv t c \<Longrightarrow> closed_inv t (snd (conn_do u e c))" for t
    using closed_stays [of t c u "[e]" "fst (conn_do u e c)" "snd (conn_do u e c)"] by (simp add: split_beta)
  moreover have "(\<exists>ds. open_inv (ms @ ds) t (snd (conn_do u e c))) \<or> closed_inv t (snd (conn_do u e c))"
    if "open_inv ms t c" for ms t
  proof (cases "e = Closing CLOSED")
    case True
    then show ?thesis using close_settles [OF that] by simp
  next
    case False
    then show ?thesis using conn_step_any [OF that False prod.collapse [symmetric], of u] none by auto
  qed
  moreover have "closed c \<Longrightarrow> closed (snd (conn_do u e c))"
    by (cases e) (auto simp: conn_read_closed on_message_frame on_parsed_frame on_close_def split_beta)
  ultimately show ?thesis by (auto simp: reads_kept_def)
qed

lemma conn_run_kept: "Read \<notin> set es \<Longrightarrow> reads_kept c (snd (conn_run u es c))"
proof (induction es arbitrary: c)
  case (Cons e es)
  then have "e \<noteq> Read" by auto
  from reads_kept_trans [OF conn_do_kept [OF this] Cons.IH] Cons.prems show ?case by (simp add: split_beta)
qed (simp add: reads_kept_refl)

lemma heard_no_read: "Read \<notin> set (heard_events p p')"
  by (auto simp: heard_events_def hear_def split: if_splits)

lemma ws_task_kept: "reads_kept (conn l) (conn (ws_task u sets k l))"
  by (simp add: ws_task_def Let_def conn_run_kept [OF heard_no_read])

lemma link_kept:
  assumes "loop_reads s" and "reads_kept (conn (link s)) (conn (link t))" and "waiting t = waiting s"
    and "ended (core t) = ended (core s)"
  shows "loop_reads t"
proof -
  have "i \<le> length (ms @ ds)" if "i \<le> length ms" for i and ms ds :: "message list" using that by simp
  with assms show ?thesis unfolding loop_reads_def reads_kept_def by metis
qed

lemma open_settled:
  "open_inv ms (Suc i) c \<Longrightarrow>
   promise_at (fstate (exch c)) i = (if i < length ms then Fulfilled (ms ! i) else Pending)"
  by (auto simp: open_inv_def pe_inv_def queue_cells_def promise_at_def nth_append)

lemma loop_input_cong: "waiting t = waiting s \<Longrightarrow> conn (link t) = conn (link s) \<Longrightarrow> loop_input t = loop_input s"
  unfolding loop_input_def by (simp only:)

lemma loop_turn_idle: "loop_input s = None \<Longrightarrow> loop_turn h on_event s = s"
  by (simp add: loop_turn_def)

lemma read_reads:
  assumes "(\<exists>ms t. t \<le> length ms \<and> open_inv ms t (conn (link s))) \<or> closed (conn (link s))"
  shows "loop_reads (loop_read s)"
proof (cases "closed (conn (link s))")
  case True
  then show ?thesis by (simp add: loop_reads_def loop_read_parts conn_read_def)
next
  case False
  then obtain ms t where o1: "t \<le> length ms" "open_inv ms t (conn (link s))" using assms by blast
  then have "fst (conn_read (conn (link s))) = Inr t" "open_inv ms (Suc t) (snd (conn_read (conn (link s))))"
    using pe_take_inv [of ms t "exch (conn (link s))"]
    by (auto simp: open_inv_def conn_read_def split_beta parses_ok_exch)
  with o1(1) show ?thesis by (auto simp: loop_reads_def loop_read_parts)
qed

lemma client_step_reads:
  assumes "loop_live s" and "loop_reads s" and "client_step h opts sets closable on_event s t"
  shows "loop_reads t"
  using assms(3)
proof cases
  case (flush i)
  have "reads_kept (conn (link s)) (conn (write_ready h sets i (link s)))"
    using ws_task_kept [of "(link s)\<lparr>writer := on_buffered i (writer (link s))\<rparr>"]
    by (auto simp: write_ready_def reads_kept_refl split: option.splits)
  with flush show ?thesis by (intro link_kept [OF assms(2)]) auto
next
  case (parse i)
  have "reads_kept (conn (link s)) (snd (on_parsed h i (conn (link s))))"
    using conn_do_kept [of "Parsed i" "conn (link s)" h] by simp
  with parse show ?thesis by (intro link_kept [OF assms(2)]) auto
next
  case (call name content)
  then show ?thesis by (intro link_kept [OF assms(2)]) (simp_all add: client_call_parts call_send_ended reads_kept_refl)
next
  case turn
  show ?thesis
  proof (cases rule: loop_turn_cases [of s h on_event])
    case (continue input)
    have "ended (core s) = None" using loop_input_live [OF assms(1) continue(1)] .
    with assms(2) consider i ms where "waiting s = Some (Inr i)" "open_inv ms (Suc i) (conn (link s))" | "closed (conn (link s))"
      by (auto simp: loop_reads_def closed_inv_def)
    then have "(\<exists>ms t. t \<le> length ms \<and> open_inv ms t (conn (link s))) \<or> closed (conn (link s))"
    proof cases
      case (1 i ms)
      then have "Suc i \<le> length ms" using continue(1) open_settled [OF 1(2)] by (simp add: loop_input_def split: if_splits)
      with 1(2) show ?thesis by blast
    qed simp
    then show ?thesis unfolding turn continue(3) by (intro read_reads) simp
  qed (use turn assms(2) in \<open>simp_all add: loop_reads_def\<close>)
qed (auto intro!: link_kept [OF assms(2)] ws_task_kept reads_kept_refl simp: other_id_ended)

lemma client_reads:
  assumes "reach (client_start valid_url options session) (client_step h opts (with_defaults options) closable on_event) s"
  shows "loop_reads s"
  using assms
proof (induction rule: reach.induct)
  case (reach_start s)
  then obtain l n d where l: "pconn_start valid_url options l" "s = connect_client \<lparr>sessionId = session, nextId = n\<rparr> d l"
    by (auto simp: client_start_def)
  have "conn l = createWebSocketConn"
    using l(1) by (auto simp: pconn_start_def persistent_conn_def result_simps)
  then show ?case unfolding l(2) connect_client_def using new_conn_open by (intro read_reads) auto
next
  case (reach_step s t)
  then show ?case using client_step_reads client_refines_aux [OF reach_step(1)] by blast
qed


section \<open>Properties of the client\<close>

text \<open>A message on the socket of a waiting client, its parse and a turn of the loop: the loop takes it, and
  waits for the next one unless it has ended.\<close>

lemma socket_message:
  assumes "reach (client_start valid_url options session) (client_step h opts (with_defaults options) closable on_event) s"
    and "ended (core s) = None" and "loop_input s = None" and "parsing (conn (link s)) = []"
    and "parseMessageFromBlob h b = Inr m"
  shows "let s1 = on_link (ws_task h (with_defaults options) (SockMessage w (JBlob b))) s;
      s2 = on_link (parse_done h (next_parse (conn (link s)))) s1;
      s3 = loop_turn h on_event s2
    in core s3 = run_turn h on_event (Inr m) (core s) \<and> loop_input s3 = None"
proof -
  let ?c = "conn (link s)"
  note parts = client_refines_aux [OF assms(1)]
  obtain j ms where j: "waiting s = Some (Inr j)" "j \<le> length ms" "open_inv ms (Suc j) ?c"
    using client_reads [OF assms(1)] assms(2,3)
    by (auto simp: loop_reads_def loop_input_def closed_inv_def split: promise.splits)
  then have "length ms = j"
    using assms(3) open_settled [OF j(3)] j(1,2) by (auto simp: loop_input_def split: if_splits)
  let ?s2 = "on_link (parse_done h (next_parse ?c))
    (on_link (ws_task h (with_defaults options) (SockMessage w (JBlob b))) s)"
  have "wired (ws (link s))" using wiring.inv_reach parts by blast
  then have c2: "conn (link ?s2) = ?c\<lparr>parsing := [], next_parse := next_parse ?c + 1, exch := pe_give m (exch ?c)\<rparr>"
    using assms(4,5) by (simp add: wired_conn on_message_def on_parsed_def)
  then have o2: "open_inv (ms @ [m]) (Suc j) (conn (link ?s2))"
    using j(3) pe_give_inv [of ms "Suc j" "exch ?c" m] by (simp add: open_inv_def parses_ok_def)
  have i2: "loop_input ?s2 = Some (Inr m)"
    using open_settled [OF o2] j(1) \<open>length ms = j\<close> by (simp add: loop_input_def nth_append)
  have w2: "waiting (loop_read (?s2\<lparr>core := q\<rparr>)) = Some (Inr (Suc j))"
    and r2: "open_inv (ms @ [m]) (Suc (Suc j)) (conn (link (loop_read (?s2\<lparr>core := q\<rparr>))))" for q
    using o2 pe_take_inv [of "ms @ [m]" "Suc j" "exch (conn (link ?s2))"]
    by (auto simp: loop_read_parts open_inv_def conn_read_def split_beta parses_ok_exch)
  have next_turn: "loop_input (loop_read (?s2\<lparr>core := q\<rparr>)) = None" for q
    using open_settled [OF r2 [of q]] w2 [of q] \<open>length ms = j\<close> by (simp add: loop_input_def)
  let ?q = "run_turn h on_event (Inr m) (core s)"
  have "loop_turn h on_event ?s2 =
      (if ended ?q = None then loop_read (?s2\<lparr>core := ?q\<rparr>) else ?s2\<lparr>core := ?q, waiting := None\<rparr>)"
    using i2 by (simp add: loop_turn_def Let_def)
  then show ?thesis using next_turn [of ?q] by (simp add: Let_def loop_read_parts) (simp add: loop_input_def)
qed

lemma socket_response:
  assumes "reach (client_start valid_url options session) (client_step h opts (with_defaults options) closable on_event) s"
    and "nextId (ids (core s)) < 2 ^ 53" and "ended (core s) = None" and "loop_input s = None"
    and "obj_get (calls (core s)) k = Some i" and "parsing (conn (link s)) = []"
    and "parseMessageFromBlob h b = Inr m" and "obj_wf (headers m)" and "header_of m Header_ID = Some k"
  shows "let s1 = on_link (ws_task h (with_defaults options) (SockMessage w (JBlob b))) s;
      s2 = on_link (parse_done h (next_parse (conn (link s)))) s1;
      s3 = loop_turn h on_event s2
    in triplets (core s3) = (triplets (core s))[i := Fulfilled m] \<and> calls (core s3) = obj_del k (calls (core s)) \<and>
       ended (core s3) = None \<and> loop_input s3 = None"
proof -
  have "calls_ok session (core s)"
    using outstanding.inv_reach client_refines_aux [OF assms(1)] assms(2) by (metis reactor_inv_def)
  then have "i < length (triplets (core s))" "triplets (core s) ! i = Pending"
    using assms(5) by (force simp: calls_ok_def dest: obj_get_Some_iff [THEN iffD1])+
  note q = run_turn_own [OF assms(5) this assms(8,9), of h on_event]
  show ?thesis using socket_message [OF assms(1,3,4,6,7), of w] assms(3) by (simp add: Let_def q)
qed

text \<open>
  C11: when the connection reports that it is closed, the run loop ends after at most two turns:
  one for a message that was read before, one for the rejected read.
\<close>

theorem closed_connection_ends_client:
  assumes "reach (client_start valid_url options session) (client_step h opts (with_defaults options) closable on_event) s"
    and "closed (conn (link s))"
  shows "\<not> running (core (loop_turn h on_event (loop_turn h on_event s)))"
proof (cases "ended (core s) = None")
  case True
  then have "loop_input s \<noteq> None"
    using client_reads [OF assms(1)] assms(2)
    by (auto simp: loop_reads_def loop_input_def closed_inv_def open_inv_def split: promise.splits)
  then show ?thesis
  proof (cases rule: loop_turn_cases [of s h on_event])
    case (stop input)
    then have "loop_input (loop_turn h on_event s) = None" by (simp add: loop_input_def)
    with stop(2,3) show ?thesis by (simp add: loop_turn_idle running_def)
  next
    case (continue input)
    then have "waiting (loop_turn h on_event s) = Some (Inl ConnectionClosed)"
      using assms(2) by (simp add: loop_read_parts conn_read_def)
    then have "loop_input (loop_turn h on_event s) = Some (Inl ConnectionClosed)" by (simp add: loop_input_def)
    then show ?thesis
      by (simp add: loop_turn_def [of h on_event "loop_turn h on_event s"] run_turn_def Let_def running_def)
  qed simp
next
  case False
  then have "loop_input s = None" using client_refines_aux [OF assms(1)] by (metis loop_input_live not_None_eq)
  then have "loop_turn h on_event s = s" by (simp add: loop_turn_def)
  with False show ?thesis by (simp add: running_def)
qed

lemma down_client_step:
  assumes "pws_inv sets (ws (link s))" and "down (ws (link s))" and "parsing (conn (link s)) = []"
    and "loop_input s = None" and "client_step h opts sets closable on_event s t"
  shows "down (ws (link t)) \<and> parsing (conn (link t)) = [] \<and> conn (link t) = conn (link s) \<and> waiting t = waiting s \<and>
    ended (core t) = ended (core s) \<and>
    (triplets (core t) = triplets (core s) \<or> triplets (core t) = triplets (core s) @ [Pending])"
  using assms(5)
proof cases
  case (event k)
  with down_only_client [OF assms(1,2)] show ?thesis by (metis browser_task.simps(1))
next
  case (parse i)
  with assms(2,3) show ?thesis by (simp add: on_parsed_def)
next
  case (flush i)
  with assms(2,3) show ?thesis
    by (auto simp: write_ready_def ws_task_def Let_def heard_same send_state down_client split: option.splits)
next
  case (shut code reason)
  with assms(2,3) show ?thesis by (auto simp: ws_task_def Let_def heard_same send_state down_client)
next
  case (call name content)
  with assms(2,3) show ?thesis by (simp add: client_call_parts call_send_ended call_send_triplets)
next
  case turn
  with assms(2-4) show ?thesis by (simp add: loop_turn_def)
next
  case (app d)
  with assms(2,3) show ?thesis by simp
next
  case other
  with assms(2,3) show ?thesis by (simp add: other_id_def)
qed

text \<open>
  C37: when the socket has given up while the loop waits, the client never learns of it: its run
  loop never ends, and along every continuation the promises of all outstanding and later calls
  stay as they are, pending for ever.
\<close>

theorem given_up_client_hangs:
  assumes "reach (client_start valid_url options session) (client_step h opts (with_defaults options) closable on_event) s"
    and "down (ws (link s))" and "parsing (conn (link s)) = []" and "loop_input s = None" and "ended (core s) = None"
    and "(client_step h opts (with_defaults options) closable on_event)\<^sup>*\<^sup>* s t"
  shows "running (core t) \<and> length (triplets (core s)) \<le> length (triplets (core t)) \<and>
    (\<forall>i < length (triplets (core t)).
       triplets (core t) ! i = (if i < length (triplets (core s)) then triplets (core s) ! i else Pending))"
proof -
  let ?step = "client_step h opts (with_defaults options) closable on_event"
  have "down (ws (link t)) \<and> parsing (conn (link t)) = [] \<and> loop_input t = None \<and> ended (core t) = None \<and>
    length (triplets (core s)) \<le> length (triplets (core t)) \<and>
    (\<forall>i < length (triplets (core t)).
       triplets (core t) ! i = (if i < length (triplets (core s)) then triplets (core s) ! i else Pending))"
    using assms(6)
  proof (induction rule: rtranclp_induct)
    case base
    then show ?case using assms(2-5) by simp
  next
    case (step x y)
    have "reach (client_start valid_url options session) ?step x" by (rule reach_steps [OF step(1) assms(1)])
    then have "pws_inv (with_defaults options) (ws (link x))"
      using connected.inv_reach client_refines_aux by (metis pconn_inv_def)
    moreover have "down (ws (link x))" "parsing (conn (link x)) = []" "loop_input x = None" using step(3) by simp_all
    ultimately have next1: "down (ws (link y)) \<and> parsing (conn (link y)) = [] \<and> conn (link y) = conn (link x) \<and>
        waiting y = waiting x \<and> ended (core y) = ended (core x) \<and>
        (triplets (core y) = triplets (core x) \<or> triplets (core y) = triplets (core x) @ [Pending])"
      by (rule down_client_step) (rule step(2))
    then have same: "down (ws (link y))" "parsing (conn (link y)) = []" "loop_input y = None"
      using step(3) loop_input_cong [of y x] by simp_all
    with next1 step(3) show ?case by (auto simp: nth_append less_Suc_eq)
  qed
  then show ?thesis by (simp add: running_def)
qed

end
