(* ===== verification/Client_Run.thy ===== *)
theory Client_Run
  imports Rpc_Connection
begin

text \<open>
  The client over its connection along a whole run: the calls that were made, the inputs that the
  loop took, the changes of the subscriptions. The facts: the reactor's state is what these
  events, in this order, make of a new reactor; the loop's n-th input is what the n-th read of
  the connection delivered; and every request is written to the connection exactly once.
\<close>

section \<open>Runs\<close>

text \<open>Events of the socket, completed parses and bytes that become ready are steps without a name of their own.\<close>

inductive client_run ::
  "('z) host_scheme \<Rightarrow> reactor_options \<Rightarrow> settings \<Rightarrow> bool \<Rightarrow> (message \<Rightarrow> 'd \<Rightarrow> unit result \<times> 'd) \<Rightarrow>
   'd rpc_conn \<Rightarrow> 'd reactor_event list \<Rightarrow> 'd rpc_conn \<Rightarrow> bool"
  for h :: "('z) host_scheme" and opts :: reactor_options and sets :: settings and closable :: bool
    and on_event :: "message \<Rightarrow> 'd \<Rightarrow> unit result \<times> 'd" and s0 :: "'d rpc_conn" where
  c_start [step_intros]: "client_run h opts sets closable on_event s0 [] s0"
| c_call [step_intros]: "client_run h opts sets closable on_event s0 es s \<Longrightarrow>
     client_run h opts sets closable on_event s0 (es @ [Called name content]) (snd (client_call h opts name content s))"
| c_turn [step_intros]: "client_run h opts sets closable on_event s0 es s \<Longrightarrow> loop_input s = Some input \<Longrightarrow>
     client_run h opts sets closable on_event s0 (es @ [Took input]) (loop_turn h on_event s)"
| c_change [step_intros]: "client_run h opts sets closable on_event s0 es s \<Longrightarrow>
     client_run h opts sets closable on_event s0 (es @ [Changed d]) (s\<lparr>core := (core s)\<lparr>dispatch_state := d\<rparr>\<rparr>)"
| c_other [step_intros]: "client_run h opts sets closable on_event s0 es s \<Longrightarrow>
     client_run h opts sets closable on_event s0 (es @ [OtherId]) (s\<lparr>core := other_id (core s)\<rparr>)"
| c_event [step_intros]: "client_run h opts sets closable on_event s0 es s \<Longrightarrow> browser_task k \<Longrightarrow> enabled k (ws (link s)) \<Longrightarrow>
     client_run h opts sets closable on_event s0 es (on_link (ws_task h sets k) s)"
| c_parse [step_intros]: "client_run h opts sets closable on_event s0 es s \<Longrightarrow>
     client_run h opts sets closable on_event s0 es (on_link (parse_done h i) s)"
| c_flush [step_intros]: "client_run h opts sets closable on_event s0 es s \<Longrightarrow>
     client_run h opts sets closable on_event s0 es (on_link (write_ready h sets i) s)"
| c_shut [step_intros]: "client_run h opts sets closable on_event s0 es s \<Longrightarrow> closable \<Longrightarrow>
     client_run h opts sets closable on_event s0 es (on_link (ws_task h sets (Client [ApiClose code reason])) s)"

text \<open>The runs reach exactly the states that the steps of the client reach.\<close>

lemma client_run_steps:
  "client_run h opts sets closable on_event s0 es s \<Longrightarrow> (client_step h opts sets closable on_event)\<^sup>*\<^sup>* s0 s"
  by (induction rule: client_run.induct) (auto intro: rtranclp.rtrancl_into_rtrancl client_step.intros)

lemma client_steps_run:
  "(client_step h opts sets closable on_event)\<^sup>*\<^sup>* s0 s \<Longrightarrow> \<exists>es. client_run h opts sets closable on_event s0 es s"
proof (induction rule: rtranclp_induct)
  case base
  show ?case by (blast intro: c_start)
next
  case (step s t)
  then obtain es where es: "client_run h opts sets closable on_event s0 es s" by blast
  from step(2) es show ?case
  proof cases
    case turn
    then show ?thesis
      using es c_turn [OF es] by (cases "loop_input s") (auto simp: loop_turn_idle)
  qed (blast intro: client_run.intros)+
qed

section \<open>What was written\<close>

lemma on_buffered_all:
  assumes "writes_ok w"
  shows "mset (ws_sent (on_buffered i w) @ map snd (buffering (on_buffered i w))) = mset (ws_sent w @ map snd (buffering w))"
proof (cases "map_of (buffering w) i")
  case (Some bs)
  then have "(i, bs) \<in> set (buffering w)" by (rule map_of_SomeD)
  then obtain xs ys where xy: "buffering w = xs @ (i, bs) # ys" by (meson split_list)
  then have "i \<notin> fst ` set xs" "i \<notin> fst ` set ys" using assms by (auto simp: writes_ok_def)
  then have "filter (\<lambda>p. fst p \<noteq> i) xs = xs" "filter (\<lambda>p. fst p \<noteq> i) ys = ys" by (force intro: filter_True)+
  with Some xy show ?thesis by (simp add: on_buffered_def)
qed (simp add: on_buffered_def)

text \<open>What the writer has passed on or still buffers is what the reactor has written.\<close>

definition all_written :: "'d rpc_conn \<Rightarrow> bool" where
  "all_written s =
     (writes_ok (writer (link s)) \<and>
      mset (ws_sent (writer (link s)) @ map snd (buffering (writer (link s)))) =
        mset (map (\<lambda>m. blob_bytes (createBlobFromMessage m)) (written (core s))))"

lemma run_turn_written: "written (run_turn h on_event input s) = written s"
  by (auto simp: run_turn_def split: sum.splits lookup.splits prod.splits)

lemma ws_task_writer: "writer (ws_task u sets k l) = writer l"
  by (simp add: ws_task_def Let_def)

lemma write_ready_writer: "writer (write_ready u sets i l) = on_buffered i (writer l)"
  by (simp add: write_ready_def ws_task_writer on_buffered_def split: option.splits)

lemma all_written_cong:
  "all_written s \<Longrightarrow> writer (link t) = writer (link s) \<Longrightarrow> written (core t) = written (core s) \<Longrightarrow> all_written t"
  by (simp add: all_written_def)

lemma call_written:
  assumes "all_written s"
  shows "all_written (snd (client_call h opts name content s))"
proof -
  obtain r q where c: "call_send h opts name content (core s) = (r, q)" by (cases "call_send h opts name content (core s)")
  show ?thesis
  proof (cases r)
    case (Inl e)
    then have "q = core s" using call_send_cases [OF c] by auto
    with c Inl assms show ?thesis by (simp add: client_call_def all_written_def)
  next
    case (Inr i)
    then obtain req where "written q = written (core s) @ [req]" using call_send_cases [OF c] by auto
    moreover have "writes_ok (write_message req (writer (link s)))"
      using assms writer_do_ok [of "writer (link s)" "Write req"] by (simp add: all_written_def)
    ultimately show ?thesis
      using assms c Inr by (simp add: client_call_def conn_write_def all_written_def write_message_def)
  qed
qed

section \<open>What the loop took\<close>

text \<open>The inputs so far are the outcomes of the first reads, and the loop waits on the next read.\<close>

definition takes_reads :: "message result list \<Rightarrow> 'd rpc_conn \<Rightarrow> bool" where
  "takes_reads is s =
     ((\<forall>j < length is. result_of (pconn_value (link s) j) = Some (is ! j) \<or>
         closed (conn (link s)) \<and> is ! j = Inl ConnectionClosed) \<and>
      (ended (core s) = None \<longrightarrow> waiting s = Some (Inr (length is)) \<or>
         closed (conn (link s)) \<and> waiting s = Some (Inl ConnectionClosed)))"

lemma pconn_steps_keep:
  assumes "(pconn_step u sets closable)\<^sup>*\<^sup>* l l'" and "result_of (pconn_value l j) = Some r"
  shows "result_of (pconn_value l' j) = Some r"
proof -
  have "pconn_value l j \<noteq> Pending" using assms(2) by auto
  with assms(1) have "pconn_value l' j = pconn_value l j"
    by (induction rule: rtranclp_induct) (simp_all add: pconn_step_keeps)
  with assms(2) show ?thesis by simp
qed

lemma ws_task_closed: "closed (conn l) \<Longrightarrow> closed (conn (ws_task u sets k l))"
  using ws_task_kept [of l u sets k] by (simp add: reads_kept_def)

lemma closed_kept:
  assumes "client_step h opts sets closable on_event s t" and "closed (conn (link s))"
  shows "closed (conn (link t))"
  using client_link_step [OF assms(1)] assms(2)
proof (induction rule: rtranclp_induct)
  case (step l l')
  from step(2) step.IH [OF step.prems] show ?case
    by cases (auto simp: conn_read_closed on_parsed_frame conn_write_def write_ready_def ws_task_closed split: option.splits)
qed simp

lemma takes_reads_step:
  assumes "takes_reads is s" and "client_step h opts sets closable on_event s t"
    and "waiting t = waiting s" and "ended (core t) = ended (core s)"
  shows "takes_reads is t"
  using assms(1,3,4) pconn_steps_keep [OF client_link_step [OF assms(2)]] closed_kept [OF assms(2)]
  unfolding takes_reads_def by metis

lemma open_read: "open_inv ms t c \<Longrightarrow> fst (conn_read c) = Inr t"
  using pe_take_inv [of ms t "exch c"] by (auto simp: open_inv_def conn_read_def split_beta)

lemma takes_reads_turn:
  assumes "takes_reads is s" and "loop_reads s" and "loop_live s" and "loop_input s = Some input"
  shows "takes_reads (is @ [input]) (loop_turn h on_event s)"
proof -
  let ?t = "loop_turn h on_event s"
  have run: "ended (core s) = None" by (rule loop_input_live [OF assms(3,4)])
  have step: "client_step h opts sets closable on_event s ?t" for opts sets closable by (rule client_step.turn)
  note keep = pconn_steps_keep [OF client_link_step [OF step]] and close = closed_kept [OF step]
  have now: "result_of (pconn_value (link s) (length is)) = Some input \<or>
      closed (conn (link s)) \<and> input = Inl ConnectionClosed"
    using assms(1,4) run by (auto simp: takes_reads_def loop_input_def pconn_value_def split: promise.splits)
  have "result_of (pconn_value (link ?t) j) = Some ((is @ [input]) ! j) \<or>
      closed (conn (link ?t)) \<and> (is @ [input]) ! j = Inl ConnectionClosed" if "j < length (is @ [input])" for j
  proof (cases "j = length is")
    case True
    with now keep close show ?thesis by auto
  next
    case False
    with that have "j < length is" by simp
    with assms(1) keep close show ?thesis by (auto simp: takes_reads_def nth_append)
  qed
  moreover have "waiting ?t = Some (Inr (length (is @ [input]))) \<or>
      closed (conn (link ?t)) \<and> waiting ?t = Some (Inl ConnectionClosed)" if "ended (core ?t) = None"
  proof (cases rule: loop_turn_cases [of s h on_event])
    case (continue inp)
    show ?thesis
    proof (cases "closed (conn (link s))")
      case True
      then show ?thesis using continue(3) by (simp add: loop_read_parts conn_read_def)
    next
      case False
      then obtain ms where "waiting s = Some (Inr (length is))" "open_inv ms (Suc (length is)) (conn (link s))"
        using assms(1,2) run by (auto simp: takes_reads_def loop_reads_def closed_inv_def)
      then show ?thesis using continue(3) by (simp add: loop_read_parts open_read)
    qed
  qed (use that assms(4) in auto)
  ultimately show ?thesis unfolding takes_reads_def by blast
qed

lemma loop_turn_core:
  "loop_input s = Some input \<Longrightarrow> core (loop_turn h on_event s) = run_turn h on_event input (core s)"
  by (simp add: loop_turn_def Let_def loop_read_parts)

lemma loop_turn_writer: "writer (link (loop_turn h on_event s)) = writer (link s)"
  by (cases rule: loop_turn_cases [of s h on_event]) (simp_all add: loop_read_parts)

lemma client_run_inv:
  assumes "client_run h opts (with_defaults options) closable on_event s0 es s"
    and "client_start valid_url options session s0"
  shows "core s = reactor_run h opts on_event es (core s0) \<and> takes_reads (taken_inputs es) s \<and> all_written s"
  using assms(1)
proof (induction rule: client_run.induct)
  case c_start
  obtain l n d where l: "link s0 = l\<lparr>conn := snd (conn_read (conn l))\<rparr>" "waiting s0 = Some (fst (conn_read (conn l)))"
    "conn l = createWebSocketConn" "core s0 = createRpcReactor \<lparr>sessionId = session, nextId = n\<rparr> d"
    "pconn_start valid_url options l"
    using start_parts [OF assms(2)] by metis
  have "writer l = createWebSocketWriter"
    using l(5) by (auto simp: pconn_start_def persistent_conn_def result_simps)
  with l show ?case
    using open_read [OF new_conn_open]
    by (simp add: reactor_run_def takes_reads_def all_written_def writes_ok_def createWebSocketWriter_def createRpcReactor_def)
next
  case (c_call es s name content)
  note step = client_step.call [of h opts "with_defaults options" closable on_event s name content]
  show ?case
    using c_call.IH call_written [of s h opts name content] takes_reads_step [OF _ step]
    by (simp add: client_call_parts call_send_ended reactor_run_snoc)
next
  case (c_turn es s input)
  have "reach (client_start valid_url options session) (client_step h opts (with_defaults options) closable on_event) s"
    using reach_steps [OF client_run_steps [OF c_turn(1)] reach_start [of "client_start valid_url options session", OF assms(2)]] .
  then have inv: "loop_reads s" "loop_live s" using client_reads client_refines_aux by blast+
  have "ended (core s) = None" by (rule loop_input_live [OF inv(2) c_turn(2)])
  moreover have core: "core (loop_turn h on_event s) = run_turn h on_event input (core s)"
    by (rule loop_turn_core [OF c_turn(2)])
  moreover have "all_written (loop_turn h on_event s)"
    by (rule all_written_cong [of s]) (use c_turn.IH core in \<open>simp_all add: loop_turn_writer run_turn_written\<close>)
  ultimately show ?case
    using c_turn.IH takes_reads_turn [OF _ inv c_turn(2), of _ h on_event] by (simp add: reactor_run_snoc)
next
  case (c_change es s d)
  note step = client_step.app [of h opts "with_defaults options" closable on_event s d]
  show ?case using c_change.IH takes_reads_step [OF _ step] by (auto simp: reactor_run_snoc elim!: all_written_cong)
next
  case (c_other es s)
  note step = client_step.other [of h opts "with_defaults options" closable on_event s]
  show ?case using c_other.IH takes_reads_step [OF _ step]
    by (auto simp: reactor_run_snoc other_id_ended other_id_def elim!: all_written_cong)
next
  case (c_event es s k)
  note step = client_step.event [OF c_event(2,3), of h opts "with_defaults options" closable on_event]
  show ?case using c_event.IH takes_reads_step [OF _ step] by (auto simp: ws_task_writer elim!: all_written_cong)
next
  case (c_parse es s i)
  note step = client_step.parse [of h opts "with_defaults options" closable on_event s i]
  show ?case using c_parse.IH takes_reads_step [OF _ step] by (auto elim!: all_written_cong)
next
  case (c_flush es s i)
  note step = client_step.flush [of h opts "with_defaults options" closable on_event s i]
  have "all_written (on_link (write_ready h (with_defaults options) i) s)"
    using c_flush.IH on_buffered_all [of "writer (link s)" i] writer_do_ok [of "writer (link s)" "Buffered i"]
    by (simp add: all_written_def write_ready_writer)
  then show ?case using c_flush.IH takes_reads_step [OF _ step] by simp
next
  case (c_shut es s code reason)
  note step = client_step.shut [OF c_shut(2), of h opts "with_defaults options" on_event s code reason]
  show ?case using c_shut.IH takes_reads_step [OF _ step] by (auto simp: ws_task_writer elim!: all_written_cong)
qed

section \<open>Properties\<close>

text \<open>
  C12: the client over its connection handles exactly what it reads and writes exactly what it
  is asked. Along every run, in which calls, turns of the loop, changes of the subscriptions, events of the socket,
  completed parses and written bytes interleave in any order, the state of the reactor is the one that the
  calls and turns of this run, in this order, lead to; the input of the loop's j-th turn is what the
  connection's j-th read delivered, or the error of a closed connection; the loop waits on the next
  read while it runs, and on none once it has ended; and the bytes handed to the
  socket or still buffered are those of the requests written, each once.
\<close>

theorem client_runs_reactor:
  assumes "client_start valid_url options session s0"
    and "client_run h opts (with_defaults options) closable on_event s0 es s"
  shows "core s = reactor_run h opts on_event es (core s0) \<and>
    (\<forall>j < length (taken_inputs es).
       result_of (promise_at (fstate (exch (conn (link s)))) j) = Some (taken_inputs es ! j) \<or>
       closed (conn (link s)) \<and> taken_inputs es ! j = Inl ConnectionClosed) \<and>
    (if running (core s)
     then waiting s = Some (Inr (length (taken_inputs es))) \<or>
       closed (conn (link s)) \<and> waiting s = Some (Inl ConnectionClosed)
     else waiting s = None) \<and>
    mset (ws_sent (writer (link s)) @ map snd (buffering (writer (link s)))) =
      mset (map (\<lambda>m. blob_bytes (createBlobFromMessage m)) (written (core s)))"
proof -
  have "reach (client_start valid_url options session) (client_step h opts (with_defaults options) closable on_event) s"
    using reach_steps [OF client_run_steps [OF assms(2)] reach_start [of "client_start valid_url options session", OF assms(1)]] .
  then have "loop_live s" using client_refines_aux by blast
  then have "waiting s = None" if "\<not> running (core s)" using that by (simp add: loop_live_def running_def)
  with client_run_inv [OF assms(2,1)] show ?thesis
    by (simp add: takes_reads_def all_written_def pconn_value_def running_def)
qed

end
