(* ===== verification/Rpc_Logger.thy ===== *)
theory Rpc_Logger
  imports Content
begin

text \<open>
  createRpcLogger.ts: a connection that logs what passes through another one. A log line is what
  the code gives to the console; logging itself does not throw.
\<close>

datatype kind = Request | Response | EventKind | ErrorKind | Send | Receive

datatype log_arg = LogText jsstring | LogMissing | LogHeaders headers | LogValue jsval | LogError jserr

record log_line =
  log_level :: jsstring
  log_style :: jsstring
  log_kind :: kind
  log_args :: "log_arg list"

fun colors :: "kind \<Rightarrow> jsstring" where
  "colors Request = js ''#0877ab''"
| "colors Response = js ''#017f01''"
| "colors EventKind = js ''#8a65e8''"
| "colors ErrorKind = js ''#ab0101''"
| "colors Send = js ''#a89444''"
| "colors Receive = js ''#b76d16''"

definition logWithLevel :: "('z) host_scheme \<Rightarrow> jsstring \<Rightarrow> kind \<Rightarrow> message \<Rightarrow> log_arg list \<Rightarrow> log_line" where
  "logWithLevel h level k m args =
     \<lparr>log_level = level,
      log_style = js ''background: black; font-weight: bold; color: '' @ colors k,
      log_kind = k,
      log_args = args @
        (case header_of m Header_Type of
           Some t \<Rightarrow>
             if t \<noteq> [] then
               (case decode h m of
                  Inr v \<Rightarrow> [LogValue v]
                | Inl e \<Rightarrow> [LogText (js ''error decoding content''), LogError e])
             else []
         | None \<Rightarrow> [])\<rparr>"

definition log_header :: "jsstring option \<Rightarrow> log_arg" where
  "log_header v = (case v of Some s \<Rightarrow> LogText s | None \<Rightarrow> LogMissing)"

text \<open>\<^verbatim>\<open>read\<close>: what the inner connection delivered is logged and returned; its rejection is passed on.\<close>

definition logged_read :: "('z) host_scheme \<Rightarrow> jsstring \<Rightarrow> message result \<Rightarrow> message result \<times> log_line list" where
  "logged_read h level delivered =
     (case delivered of
        Inl e \<Rightarrow> (Inl e, [])
      | Inr m \<Rightarrow>
          (Inr m,
           [if isErrorMessage (message_val m) then logWithLevel h level ErrorKind m [log_header (messageError h m)]
            else if isRpcMessage (message_val m) then logWithLevel h level Response m [log_header (messageID h m)]
            else if isRpcEventMessage (message_val m) then logWithLevel h level EventKind m [log_header (messageClass h m)]
            else logWithLevel h level Receive m [LogHeaders (headers m)]]))"

text \<open>\<^verbatim>\<open>write\<close>: the line logged and the message given to the inner connection.\<close>

definition logged_write :: "('z) host_scheme \<Rightarrow> jsstring \<Rightarrow> message \<Rightarrow> log_line \<times> message" where
  "logged_write h level m =
     ((if isRpcRequestMessage (message_val m)
       then logWithLevel h level Request m [log_header (messageClass h m), log_header (messageID h m)]
       else logWithLevel h level Send m []),
      m)"

text \<open>
  What is logged, by the headers of the message: an error first, then a response, then an event.
  Reads and writes pass on what they get.
\<close>

lemma logged_read_fst [simp]: "fst (logged_read h level delivered) = delivered"
  by (simp add: logged_read_def split: sum.splits)

lemma logged_write_snd [simp]: "snd (logged_write h level m) = m"
  by (simp add: logged_write_def)

lemma logged_kinds:
  assumes "obj_wf (headers m)"
  shows "map log_kind (snd (logged_read h level (Inr m))) =
      [if header_of m Header_Error \<noteq> None then ErrorKind
       else if header_of m Header_ID \<noteq> None then Response
       else if header_of m Header_Class \<noteq> None then EventKind else Receive]"
    "log_kind (fst (logged_write h level m)) =
      (if header_of m Header_ID \<noteq> None \<and> header_of m Header_Class \<noteq> None then Request else Send)"
  using assms by (simp_all add: logged_read_def logged_write_def guards_message_val logWithLevel_def)

end
