(* ===== verification/Logged_Conn.thy ===== *)
theory Logged_Conn
  imports Persistent_Conn Rpc_Logger
begin

text \<open>
  The connection that \<^verbatim>\<open>createRpcLogger\<close> puts around another one. A read asks the inner connection at
  once, waits for it, logs the message (decoding its content first) and only then delivers it; a
  write logs first and then writes to the inner connection. Both waits may end at any time. What the
  logger relies on is the contract \<open>message_conn\<close> of a connection: a settled read keeps its value.
  The facts: the logger delivers what the inner connection delivered, read by read; it logs one
  line per message; it may reorder writes.
\<close>

section \<open>Definitions\<close>

text \<open>
  \<open>outer\<close> are the promises of the logger's reads, \<open>reads\<close> what the inner connection returned for each of
  them; \<open>writes\<close> are the messages given to \<^verbatim>\<open>write\<close> and whether each was passed on yet.
\<close>

record 'c logged =
  inner :: 'c
  level :: jsstring
  outer :: "message promises"
  reads :: "nat result list"
  writes :: "(message \<times> bool) list"
  lines :: "log_line list"

definition createRpcLogger :: "'c \<Rightarrow> jsstring option \<Rightarrow> 'c logged" where
  "createRpcLogger c lv =
     \<lparr>inner = c, level = (case lv of Some l \<Rightarrow> l | None \<Rightarrow> js ''info''), outer = [], reads = [], writes = [], lines = []\<rparr>"

definition logger_read :: "('c \<Rightarrow> nat result \<times> 'c) \<Rightarrow> 'c logged \<Rightarrow> nat \<times> 'c logged" where
  "logger_read read s =
     (let (r, c) = read (inner s); (k, ps) = newPromiseTriplet (outer s)
      in (k, s\<lparr>inner := c, outer := ps, reads := reads s @ [r]\<rparr>))"

text \<open>What the inner connection has delivered for a read.\<close>

definition read_value :: "('c \<Rightarrow> nat \<Rightarrow> message promise) \<Rightarrow> 'c \<Rightarrow> nat result \<Rightarrow> message promise" where
  "read_value got c r = (case r of Inl e \<Rightarrow> Rejected e | Inr i \<Rightarrow> got c i)"

definition logger_deliver ::
  "('z) host_scheme \<Rightarrow> ('c \<Rightarrow> nat \<Rightarrow> message promise) \<Rightarrow> nat \<Rightarrow> 'c logged \<Rightarrow> 'c logged" where
  "logger_deliver h got k s =
     (if k < length (reads s) \<and> promise_at (outer s) k = Pending
      then (case result_of (read_value got (inner s) (reads s ! k)) of
              None \<Rightarrow> s
            | Some delivered \<Rightarrow>
                (let (r, ls) = logged_read h (level s) delivered
                 in s\<lparr>outer := settle (promise_of r) k (outer s), lines := lines s @ ls\<rparr>))
      else s)"

definition logger_write :: "message \<Rightarrow> 'c logged \<Rightarrow> 'c logged" where
  "logger_write m s = s\<lparr>writes := writes s @ [(m, False)]\<rparr>"

definition logger_pass ::
  "('z) host_scheme \<Rightarrow> (message \<Rightarrow> 'c \<Rightarrow> 'c) \<Rightarrow> nat \<Rightarrow> 'c logged \<Rightarrow> 'c logged" where
  "logger_pass h write_inner j s =
     (if j < length (writes s) \<and> \<not> snd (writes s ! j)
      then (let (line, m) = logged_write h (level s) (fst (writes s ! j))
            in s\<lparr>lines := lines s @ [line], inner := write_inner m (inner s),
                 writes := (writes s)[j := (fst (writes s ! j), True)]\<rparr>)
      else s)"

inductive logger_step ::
  "('z) host_scheme \<Rightarrow> ('c \<Rightarrow> nat result \<times> 'c) \<Rightarrow> (message \<Rightarrow> 'c \<Rightarrow> 'c) \<Rightarrow> ('c \<Rightarrow> nat \<Rightarrow> message promise) \<Rightarrow>
   ('c \<Rightarrow> 'c \<Rightarrow> bool) \<Rightarrow> 'c logged \<Rightarrow> 'c logged \<Rightarrow> bool"
  for h :: "('z) host_scheme" and read :: "'c \<Rightarrow> nat result \<times> 'c" and write_inner :: "message \<Rightarrow> 'c \<Rightarrow> 'c"
    and got :: "'c \<Rightarrow> nat \<Rightarrow> message promise" and evolve :: "'c \<Rightarrow> 'c \<Rightarrow> bool" where
  log_reads [step_intros]: "logger_step h read write_inner got evolve s (snd (logger_read read s))"
| log_delivers [step_intros]: "logger_step h read write_inner got evolve s (logger_deliver h got k s)"
| log_writes [step_intros]: "logger_step h read write_inner got evolve s (logger_write m s)"
| log_passes [step_intros]: "logger_step h read write_inner got evolve s (logger_pass h write_inner j s)"
| log_inner [step_intros]: "evolve (inner s) c \<Longrightarrow> logger_step h read write_inner got evolve s (s\<lparr>inner := c\<rparr>)"

definition logger_start :: "('c \<Rightarrow> bool) \<Rightarrow> jsstring option \<Rightarrow> 'c logged \<Rightarrow> bool" where
  "logger_start start lv s = (\<exists>c. start c \<and> s = createRpcLogger c lv)"

section \<open>The contract of a connection\<close>

locale message_conn =
  fixes read :: "'c \<Rightarrow> nat result \<times> 'c"
    and write_inner :: "message \<Rightarrow> 'c \<Rightarrow> 'c"
    and got :: "'c \<Rightarrow> nat \<Rightarrow> message promise"
    and evolve :: "'c \<Rightarrow> 'c \<Rightarrow> bool"
  assumes read_keeps: "got c i \<noteq> Pending \<Longrightarrow> got (snd (read c)) i = got c i"
    and write_keeps: "got c i \<noteq> Pending \<Longrightarrow> got (write_inner m c) i = got c i"
    and evolve_keeps: "evolve c c' \<Longrightarrow> got c i \<noteq> Pending \<Longrightarrow> got c' i = got c i"
begin

definition transparent :: "'c logged \<Rightarrow> bool" where
  "transparent s =
     (length (reads s) = length (outer s) \<and>
      (\<forall>k < length (outer s). outer s ! k \<noteq> Pending \<longrightarrow> outer s ! k = read_value got (inner s) (reads s ! k)) \<and>
      length (lines s) = length (filter (\<lambda>p. \<exists>m. p = Fulfilled m) (outer s)) + length (filter snd (writes s)))"

lemma keeps_value:
  assumes "\<And>i. got c i \<noteq> Pending \<Longrightarrow> got c' i = got c i" and "read_value got c r \<noteq> Pending"
  shows "read_value got c' r = read_value got c r"
  using assms by (cases r) (simp_all add: read_value_def)

lemma transparent_inner:
  assumes "transparent s" and "\<And>i. got (inner s) i \<noteq> Pending \<Longrightarrow> got c i = got (inner s) i"
  shows "transparent (s\<lparr>inner := c\<rparr>)"
proof -
  have "outer s ! k = read_value got c (reads s ! k)" if "k < length (outer s)" "outer s ! k \<noteq> Pending" for k
    using that assms keeps_value [of "inner s" c "reads s ! k"] by (auto simp: transparent_def)
  with assms(1) show ?thesis by (simp add: transparent_def)
qed

lemma transparent_start: "transparent (createRpcLogger c lv)"
  by (simp add: transparent_def createRpcLogger_def)

lemma transparent_read:
  assumes "transparent s"
  shows "transparent (snd (logger_read read s))"
proof -
  let ?s = "s\<lparr>inner := snd (read (inner s))\<rparr>"
  have "transparent ?s" using assms read_keeps by (rule transparent_inner)
  moreover have "snd (logger_read read s) =
      ?s\<lparr>outer := outer s @ [Pending], reads := reads s @ [fst (read (inner s))]\<rparr>"
    by (simp add: logger_read_def newPromiseTriplet_def split_beta)
  ultimately show ?thesis by (auto simp: transparent_def nth_append less_Suc_eq)
qed

lemma transparent_deliver:
  assumes "transparent s"
  shows "transparent (logger_deliver h got k s)"
proof (cases "k < length (reads s) \<and> promise_at (outer s) k = Pending")
  case True
  then have k: "k < length (outer s)" "outer s ! k = Pending"
    using assms by (auto simp: transparent_def promise_at_def)
  show ?thesis
  proof (cases "result_of (read_value got (inner s) (reads s ! k))")
    case None
    then show ?thesis using assms by (simp add: logger_deliver_def)
  next
    case (Some d)
    then have v: "read_value got (inner s) (reads s ! k) = promise_of d" by (simp add: result_of_Some)
    have t: "logger_deliver h got k s =
        s\<lparr>outer := (outer s)[k := promise_of d], lines := lines s @ snd (logged_read h (level s) d)\<rparr>"
      using True Some logged_read_fst [of h "level s" d] by (simp add: logger_deliver_def split_beta settle_def)
    have "length (filter (\<lambda>p. \<exists>m. p = Fulfilled m) ((outer s)[k := promise_of d])) =
        length (filter (\<lambda>p. \<exists>m. p = Fulfilled m) (outer s)) + length (snd (logged_read h (level s) d))"
      using filter_length_update [OF k(1), of "\<lambda>p. \<exists>m. p = Fulfilled m" "promise_of d"] k(2)
      by (cases d) (simp_all add: logged_read_def)
    moreover have "(outer s)[k := promise_of d] ! j = (if j = k then promise_of d else outer s ! j)" for j
      using k(1) by simp
    ultimately show ?thesis using assms v unfolding t transparent_def by simp
  qed
next
  case False
  then have "logger_deliver h got k s = s" by (simp only: logger_deliver_def if_False)
  with assms show ?thesis by simp
qed

lemma transparent_write: "transparent s \<Longrightarrow> transparent (logger_write m s)"
  by (simp add: transparent_def logger_write_def)

lemma transparent_pass:
  assumes "transparent s"
  shows "transparent (logger_pass h write_inner j s)"
proof (cases "j < length (writes s) \<and> \<not> snd (writes s ! j)")
  case True
  let ?m = "snd (logged_write h (level s) (fst (writes s ! j)))"
  have "transparent (s\<lparr>inner := write_inner ?m (inner s)\<rparr>)" using assms write_keeps by (rule transparent_inner)
  moreover have "length (filter snd ((writes s)[j := (fst (writes s ! j), True)])) = Suc (length (filter snd (writes s)))"
    using filter_length_update [of j "writes s" snd "(fst (writes s ! j), True)"] True by simp
  moreover have "logger_pass h write_inner j s =
      s\<lparr>lines := lines s @ [fst (logged_write h (level s) (fst (writes s ! j)))], inner := write_inner ?m (inner s),
        writes := (writes s)[j := (fst (writes s ! j), True)]\<rparr>"
    using True by (simp add: logger_pass_def split_beta)
  ultimately show ?thesis by (simp add: transparent_def)
next
  case False
  then have "logger_pass h write_inner j s = s" by (simp only: logger_pass_def if_False)
  with assms show ?thesis by simp
qed

lemma transparent_step:
  "transparent s \<Longrightarrow> logger_step h read write_inner got evolve s t \<Longrightarrow> transparent t"
  by (erule logger_step.cases)
    (auto intro: transparent_read transparent_deliver transparent_write transparent_pass transparent_inner evolve_keeps)

lemma transparent_reach:
  assumes "reach (logger_start start lv) (logger_step h read write_inner got evolve) s"
  shows "transparent s"
  using assms
  by (induction rule: reach.induct) (auto simp: logger_start_def intro: transparent_start transparent_step)

text \<open>What a read of the logger gives when its turn has come.\<close>

lemma deliver_value:
  assumes "transparent s" and "k < length (outer s)"
  shows "promise_at (outer (logger_deliver h got k s)) k = read_value got (inner s) (reads s ! k)"
proof (cases "outer s ! k = Pending")
  case True
  then show ?thesis
    using assms logged_read_fst [of h "level s"]
    by (cases "read_value got (inner s) (reads s ! k)")
      (auto simp: transparent_def logger_deliver_def promise_at_def settle_def split_beta)
next
  case False
  with assms show ?thesis by (simp add: transparent_def logger_deliver_def promise_at_def)
qed

end

section \<open>The connection over a persistent socket is one\<close>

interpretation socket_conn: message_conn pconn_read conn_write pconn_value "pconn_step u sets closable"
  by unfold_locales
    (auto simp: pconn_step_keeps, auto simp: pconn_read_def pconn_value_def conn_write_def conn_read_def split_beta pe_take_keeps)

text \<open>
  C36: the logger is transparent: in every reachable state, whatever the socket does, a settled read
  of the logger has the value of the inner read it made, and a read whose turn has come gets that
  value, message or error; as many lines were logged as messages were delivered and passed on.
\<close>

theorem logger_transparent:
  assumes "reach (logger_start (pconn_start valid_url options) lv)
      (logger_step h pconn_read conn_write pconn_value (pconn_step u (with_defaults options) closable)) s"
    and "k < length (outer s)"
  shows "(outer s ! k \<noteq> Pending \<longrightarrow> outer s ! k = read_value pconn_value (inner s) (reads s ! k)) \<and>
    promise_at (outer (logger_deliver h pconn_value k s)) k = read_value pconn_value (inner s) (reads s ! k) \<and>
    length (lines s) = length (filter (\<lambda>p. \<exists>m. p = Fulfilled m) (outer s)) + length (filter snd (writes s))"
  using socket_conn.transparent_reach [OF assms(1)] socket_conn.deliver_value [OF _ assms(2)] assms(2)
  by (auto simp: socket_conn.transparent_def)

text \<open>
  A later write may be passed on first: the logger waits for the content of each message to be
  decoded, and nothing keeps the order.
\<close>

lemma logger_may_reorder:
  "writes s = [] \<Longrightarrow>
   inner (logger_pass h write_inner 0 (logger_pass h write_inner 1 (logger_write m2 (logger_write m1 s)))) =
     write_inner m1 (write_inner m2 (inner s))"
  by (simp add: logger_pass_def logger_write_def logged_write_def)

end
