(* ===== verification/Dispatch_Flight.thy ===== *)
theory Dispatch_Flight
  imports Dispatcher
begin

text \<open>
  The two halves of \<^verbatim>\<open>dispatch\<close> (createDecodingDispatcher.ts): the route is chosen when the message
  comes, its handler is called when the decoder has delivered, and between the two other messages
  may be dispatched and subscriptions begin and end. The facts: the two halves in a row are the
  \<open>dispatch\<close> of the theory Dispatcher; every message that a route matched is handed to the handler
  of that route exactly once, even when the subscription has ended meanwhile.
\<close>

section \<open>Definitions\<close>

text \<open>\<open>outcomes\<close> are the promises that the calls of \<^verbatim>\<open>dispatch\<close> returned, \<open>inflight\<close> those that wait for the
  decoder, with the route chosen and the message.\<close>

record flights =
  disp :: dispatcher
  inflight :: "(nat \<times> route \<times> message) list"
  outcomes :: "unit promises"

definition dispatch_start :: "('y) host_scheme \<Rightarrow> message \<Rightarrow> flights \<Rightarrow> nat \<times> flights" where
  "dispatch_start h m s =
     (let (k, ps) = newPromiseTriplet (outcomes s)
      in (k, case first_route h (routes (disp s)) m of
               Inl e \<Rightarrow> s\<lparr>outcomes := reject k e ps\<rparr>
             | Inr None \<Rightarrow> s\<lparr>outcomes := resolve k () ps\<rparr>
             | Inr (Some r) \<Rightarrow> s\<lparr>outcomes := ps, inflight := inflight s @ [(k, r, m)]\<rparr>))"

definition deliver ::
  "('y) host_scheme \<Rightarrow> unit handler_code \<Rightarrow> route \<Rightarrow> message \<Rightarrow> dispatcher \<Rightarrow> unit result \<times> dispatcher" where
  "deliver h run_handler r m d =
     (case run_decoder h (decoder d) m of
        Inl e \<Rightarrow> (Inl e, d)
      | Inr obj \<Rightarrow> call_handler h run_handler (handler r) obj (headers m) d)"

definition dispatch_resume :: "('y) host_scheme \<Rightarrow> unit handler_code \<Rightarrow> nat \<Rightarrow> flights \<Rightarrow> flights" where
  "dispatch_resume h run_handler k s =
     (case map_of (inflight s) k of
        None \<Rightarrow> s
      | Some (r, m) \<Rightarrow>
          (let (res, d) = deliver h run_handler r m (disp s)
           in s\<lparr>disp := d, inflight := filter (\<lambda>f. fst f \<noteq> k) (inflight s),
                outcomes := settle (promise_of res) k (outcomes s)\<rparr>))"

inductive flight_step :: "('y) host_scheme \<Rightarrow> unit handler_code \<Rightarrow> flights \<Rightarrow> flights \<Rightarrow> bool"
  for h :: "('y) host_scheme" and run_handler :: "unit handler_code" where
  starts [step_intros]: "flight_step h run_handler s (snd (dispatch_start h m s))"
| resumes [step_intros]: "flight_step h run_handler s (dispatch_resume h run_handler k s)"
| subscribes [step_intros]: "flight_step h run_handler s (s\<lparr>disp := snd (handle mt hd1 (disp s))\<rparr>)"
| unsubscribes [step_intros]: "flight_step h run_handler s (s\<lparr>disp := unsubscribe i (disp s)\<rparr>)"

definition flights_start :: "decoder \<Rightarrow> flights \<Rightarrow> bool" where
  "flights_start dec s = (s = \<lparr>disp = createDecodingDispatcher dec, inflight = [], outcomes = []\<rparr>)"

section \<open>The pending promises are those in flight\<close>

definition flights_ok :: "flights \<Rightarrow> bool" where
  "flights_ok s =
     (distinct (map fst (inflight s)) \<and>
      (\<forall>k. k \<in> fst ` set (inflight s) \<longleftrightarrow> k < length (outcomes s) \<and> outcomes s ! k = Pending))"

lemma settle_at:
  "j < length ps \<Longrightarrow> settle p k ps ! j = (if j = k \<and> ps ! k = Pending then p else ps ! j)"
  by (auto simp: settle_def promise_at_def)

lemma flights_start_ok: "flights_start dec s \<Longrightarrow> flights_ok s"
  by (simp add: flights_start_def flights_ok_def)

lemma flights_ok_disp: "flights_ok (s\<lparr>disp := d\<rparr>) = flights_ok s"
  by (simp add: flights_ok_def)

lemma start_ok:
  assumes "flights_ok s"
  shows "flights_ok (snd (dispatch_start h m s))"
proof -
  have new: "length (outcomes s) \<notin> fst ` set (inflight s)" using assms by (auto simp: flights_ok_def)
  have settled: "flights_ok (s\<lparr>outcomes := settle p (length (outcomes s)) (outcomes s @ [Pending])\<rparr>)"
    if "p \<noteq> Pending" for p
    using assms new that by (auto simp: flights_ok_def settle_at nth_append less_Suc_eq)
  have "flights_ok (s\<lparr>outcomes := outcomes s @ [Pending], inflight := inflight s @ [(length (outcomes s), r, m)]\<rparr>)" for r
    using assms new by (auto simp: flights_ok_def nth_append less_Suc_eq)
  with settled show ?thesis
    by (simp add: dispatch_start_def newPromiseTriplet_def Let_def split: sum.splits option.splits)
qed

lemma resume_parts:
  assumes "map_of (inflight s) k = Some (r, m)"
  shows "disp (dispatch_resume h run_handler k s) = snd (deliver h run_handler r m (disp s))"
    "inflight (dispatch_resume h run_handler k s) = filter (\<lambda>f. fst f \<noteq> k) (inflight s)"
    "outcomes (dispatch_resume h run_handler k s) =
       settle (promise_of (fst (deliver h run_handler r m (disp s)))) k (outcomes s)"
  using assms by (simp_all add: dispatch_resume_def split_beta)

lemma resume_ok:
  assumes "flights_ok s"
  shows "flights_ok (dispatch_resume h run_handler k s)"
proof (cases "map_of (inflight s) k")
  case (Some f)
  obtain r m where f: "f = (r, m)" by (cases f)
  have ids: "fst ` set (filter (\<lambda>f. fst f \<noteq> k) (inflight s)) = fst ` set (inflight s) - {k}" by auto
  have at: "settle (promise_of res) k (outcomes s) ! j = Pending \<longleftrightarrow> outcomes s ! j = Pending \<and> j \<noteq> k"
    if "j < length (outcomes s)" for j res
    using that by (auto simp: settle_at)
  show ?thesis
    using assms unfolding flights_ok_def resume_parts [OF Some [unfolded f]] ids
    by (auto simp: distinct_map_filter at)
qed (simp add: dispatch_resume_def assms)

inductive_cases flight_stepE: "flight_step h run_handler s t"

interpretation in_flight: invariant_system "flights_start dec" "flight_step h run_handler" flights_ok
  by unfold_locales (erule flights_start_ok, erule flight_stepE, auto simp: start_ok resume_ok flights_ok_disp)

section \<open>Properties\<close>

text \<open>The two halves in a row.\<close>

lemma dispatch_two_halves:
  assumes "reach (flights_start dec) (flight_step h run_handler) s" and "dispatch_start h m s = (k, s1)"
  shows "let t = dispatch_resume h run_handler k s1; (res, d) = dispatch h run_handler m (disp s)
    in disp t = d \<and> promise_at (outcomes t) k = promise_of res"
proof -
  have ok: "flights_ok s" by (rule in_flight.inv_reach [OF assms(1)])
  then have new: "length (outcomes s) \<notin> fst ` set (inflight s)" by (auto simp: flights_ok_def)
  then have none: "map_of (inflight s) (length (outcomes s)) = None" by (simp add: map_of_eq_None_iff)
  have k: "k = length (outcomes s)" using assms(2) by (auto simp: dispatch_start_def newPromiseTriplet_def)
  show ?thesis
  proof (cases "first_route h (routes (disp s)) m")
    case (Inl e)
    with assms(2) k none show ?thesis
      by (auto simp: dispatch_start_def newPromiseTriplet_def dispatch_def dispatch_resume_def promise_at_def settle_at)
  next
    case (Inr ro)
    show ?thesis
    proof (cases ro)
      case None
      with Inr assms(2) k none show ?thesis
        by (auto simp: dispatch_start_def newPromiseTriplet_def dispatch_def dispatch_resume_def promise_at_def settle_at)
    next
      case (Some r)
      then have s1: "s1 = s\<lparr>outcomes := outcomes s @ [Pending], inflight := inflight s @ [(k, r, m)]\<rparr>"
        using Inr assms(2) k by (auto simp: dispatch_start_def newPromiseTriplet_def)
      then have "map_of (inflight s1) k = Some (r, m)" using none k by (simp add: map_add_def)
      from resume_parts [OF this, of h run_handler] s1 k Inr Some show ?thesis
        by (auto simp: dispatch_def deliver_def promise_at_def settle_at split_beta split: sum.splits)
    qed
  qed
qed

lemma step_settled:
  "flight_step h run_handler s t \<Longrightarrow> promise_at (outcomes s) j \<noteq> Pending \<Longrightarrow>
   promise_at (outcomes t) j = promise_at (outcomes s) j"
  by (erule flight_stepE)
    (auto simp: dispatch_start_def newPromiseTriplet_def dispatch_resume_def Let_def settle_keeps_settled
      split: sum.splits option.splits prod.splits)

lemma steps_settled:
  "(flight_step h run_handler)\<^sup>*\<^sup>* s t \<Longrightarrow> promise_at (outcomes s) j \<noteq> Pending \<Longrightarrow>
   promise_at (outcomes t) j = promise_at (outcomes s) j"
  by (induction rule: rtranclp_induct) (simp_all add: step_settled)

text \<open>
  C34: a message in flight is handed to the handler of the route that was chosen when it came,
  exactly once: its promise is pending, and when the decoder delivers, that handler runs on the
  state of that moment (whether or not the route is still subscribed), the promise is settled with
  the handler's outcome, and the message is no longer in flight, then or in any later state.
\<close>

theorem in_flight_delivered_once:
  assumes "reach (flights_start dec) (flight_step h run_handler) s" and "(k, r, m) \<in> set (inflight s)"
    and "(flight_step h run_handler)\<^sup>*\<^sup>* (dispatch_resume h run_handler k s) t"
  shows "promise_at (outcomes s) k = Pending \<and>
    disp (dispatch_resume h run_handler k s) = snd (deliver h run_handler r m (disp s)) \<and>
    k \<notin> fst ` set (inflight t) \<and>
    promise_at (outcomes t) k = promise_of (fst (deliver h run_handler r m (disp s)))"
proof -
  let ?u = "dispatch_resume h run_handler k s"
  let ?p = "promise_of (fst (deliver h run_handler r m (disp s)))"
  have ok: "flights_ok s" by (rule in_flight.inv_reach [OF assms(1)])
  then have k: "map_of (inflight s) k = Some (r, m)" "k < length (outcomes s)" "outcomes s ! k = Pending"
    using assms(2) image_eqI [of k fst "(k, r, m)"] by (auto simp: flights_ok_def)
  have u: "promise_at (outcomes ?u) k = ?p" using k by (simp add: resume_parts promise_at_def settle_at)
  have "flights_ok t" by (rule in_flight.inv_rtranclp [OF resume_ok [OF ok] assms(3)])
  moreover have "?p \<noteq> Pending" by simp
  then have t: "promise_at (outcomes t) k = ?p" using steps_settled [OF assms(3)] u by metis
  ultimately have "k \<notin> fst ` set (inflight t)"
    using \<open>?p \<noteq> Pending\<close> by (auto simp: flights_ok_def promise_at_def)
  with k t show ?thesis by (simp add: resume_parts promise_at_def)
qed

end
