(* ===== verification/Run_Loop.thy ===== *)
theory Run_Loop
  imports Rpc_Client Dispatch_Flight
begin

text \<open>
  The run loop of RpcReactor.ts while it awaits a dispatch. A turn that takes an event starts its
  dispatch and suspends the loop; meanwhile calls are made, other dispatches run and subscriptions
  change; the loop goes on, or ends, with the outcome of the dispatch. The facts: along every run the
  table of calls is the one that the reactor of the theory Rpc_Client has, which takes each dispatch in
  one step, after the same calls and the same inputs; and events are served one at a time, in the
  order they were taken.
\<close>

section \<open>Definitions\<close>

text \<open>\<open>serving\<close> is the dispatch that the loop awaits, \<open>served\<close> all those it has started.\<close>

record run_state =
  table :: "unit reactor"
  air :: flights
  serving :: "nat option"
  served :: "nat list"

definition takes_event :: "message \<Rightarrow> bool" where
  "takes_event m = (\<not> isRpcMessage (message_val m) \<and> isRpcEventMessage (message_val m))"

definition turn_start :: "('z) host_scheme \<Rightarrow> message result \<Rightarrow> run_state \<Rightarrow> run_state" where
  "turn_start h input s =
     (let other = s\<lparr>table := run_turn h (\<lambda>m d. (Inr (), d)) input (table s)\<rparr>
      in case input of
           Inl e \<Rightarrow> other
         | Inr m \<Rightarrow>
             if takes_event m
             then (let (k, f) = dispatch_start h m (air s)
                   in s\<lparr>air := f, serving := Some k, served := served s @ [k]\<rparr>)
             else other)"

text \<open>After \<^verbatim>\<open>await dispatch(message)\<close>: its rejection is caught by the loop and ends it.\<close>

definition turn_resume :: "run_state \<Rightarrow> run_state" where
  "turn_resume s =
     (case serving s of
        None \<Rightarrow> s
      | Some k \<Rightarrow>
          (case promise_at (outcomes (air s)) k of
             Pending \<Rightarrow> s
           | Fulfilled _ \<Rightarrow> s\<lparr>serving := None\<rparr>
           | Rejected e \<Rightarrow> s\<lparr>serving := None, table := (table s)\<lparr>ended := Some e\<rparr>\<rparr>))"

inductive loop_step ::
  "('z) host_scheme \<Rightarrow> reactor_options \<Rightarrow> unit handler_code \<Rightarrow> run_state \<Rightarrow> run_state \<Rightarrow> bool"
  for h :: "('z) host_scheme" and opts :: reactor_options and run_handler :: "unit handler_code" where
  l_take [step_intros]: "ended (table s) = None \<Longrightarrow> serving s = None \<Longrightarrow>
     loop_step h opts run_handler s (turn_start h input s)"
| l_resume [step_intros]: "loop_step h opts run_handler s (turn_resume s)"
| l_call [step_intros]: "loop_step h opts run_handler s (s\<lparr>table := snd (call_send h opts name content (table s))\<rparr>)"
| l_other [step_intros]: "loop_step h opts run_handler s (s\<lparr>table := other_id (table s)\<rparr>)"
| l_air [step_intros]: "flight_step h run_handler (air s) f \<Longrightarrow> loop_step h opts run_handler s (s\<lparr>air := f\<rparr>)"

definition loop_start :: "nat \<Rightarrow> decoder \<Rightarrow> run_state \<Rightarrow> bool" where
  "loop_start session dec s =
     (reactor_start session (table s) \<and> flights_start dec (air s) \<and> serving s = None \<and> served s = [])"

text \<open>
  The same steps as a run, with the calls, the inputs the loop took and the identifiers other code
  took, in order. What the loop does when a dispatch settles, and what else the dispatcher does, is
  not an event of its own.
\<close>

inductive loop_run ::
  "('z) host_scheme \<Rightarrow> reactor_options \<Rightarrow> unit handler_code \<Rightarrow> run_state \<Rightarrow>
   unit result list reactor_event list \<Rightarrow> run_state \<Rightarrow> bool"
  for h :: "('z) host_scheme" and opts :: reactor_options and run_handler :: "unit handler_code" and s0 :: run_state where
  r_start [step_intros]: "loop_run h opts run_handler s0 [] s0"
| r_take [step_intros]: "loop_run h opts run_handler s0 es s \<Longrightarrow> ended (table s) = None \<Longrightarrow> serving s = None \<Longrightarrow>
     loop_run h opts run_handler s0 (es @ [Took input]) (turn_start h input s)"
| r_resume [step_intros]: "loop_run h opts run_handler s0 es s \<Longrightarrow> loop_run h opts run_handler s0 es (turn_resume s)"
| r_call [step_intros]: "loop_run h opts run_handler s0 es s \<Longrightarrow>
     loop_run h opts run_handler s0 (es @ [Called name content])
       (s\<lparr>table := snd (call_send h opts name content (table s))\<rparr>)"
| r_other [step_intros]: "loop_run h opts run_handler s0 es s \<Longrightarrow>
     loop_run h opts run_handler s0 (es @ [OtherId]) (s\<lparr>table := other_id (table s)\<rparr>)"
| r_air [step_intros]: "loop_run h opts run_handler s0 es s \<Longrightarrow> flight_step h run_handler (air s) f \<Longrightarrow>
     loop_run h opts run_handler s0 es (s\<lparr>air := f\<rparr>)"

inductive_cases loop_stepE: "loop_step h opts run_handler s t"

section \<open>Events are served in order\<close>

definition in_order :: "run_state \<Rightarrow> bool" where
  "in_order s =
     (sorted_wrt (<) (served s) \<and> (\<forall>k \<in> set (served s). k < length (outcomes (air s))) \<and>
      (\<forall>k. serving s = Some k \<longrightarrow> ended (table s) = None \<and> served s \<noteq> [] \<and> k = last (served s)) \<and>
      (\<forall>k \<in> set (served s). serving s \<noteq> Some k \<longrightarrow>
         promise_at (outcomes (air s)) k = Fulfilled () \<or>
         k = last (served s) \<and> (\<exists>e. ended (table s) = Some e \<and> promise_at (outcomes (air s)) k = Rejected e)))"

lemma flight_step_length: "flight_step h run_handler s t \<Longrightarrow> length (outcomes s) \<le> length (outcomes t)"
  by (erule flight_stepE)
    (auto simp: dispatch_start_def newPromiseTriplet_def dispatch_resume_def Let_def
      split: sum.splits option.splits prod.splits)

lemma dispatch_start_id: "fst (dispatch_start h m f) = length (outcomes f)"
  "length (outcomes (snd (dispatch_start h m f))) = Suc (length (outcomes f))"
  by (auto simp: dispatch_start_def newPromiseTriplet_def Let_def split: sum.splits option.splits)

lemma in_order_air:
  assumes "in_order s" and "flight_step h run_handler (air s) f"
  shows "in_order (s\<lparr>air := f\<rparr>)"
proof -
  have "length (outcomes (air s)) \<le> length (outcomes f)" by (rule flight_step_length [OF assms(2)])
  moreover have "promise_at (outcomes f) k = promise_at (outcomes (air s)) k"
    if "promise_at (outcomes (air s)) k \<noteq> Pending" for k
    by (rule step_settled [OF assms(2) that])
  ultimately show ?thesis using assms(1) by (fastforce simp: in_order_def)
qed

lemma in_order_resume: "in_order s \<Longrightarrow> in_order (turn_resume s)"
  by (auto simp: in_order_def turn_resume_def split: option.splits promise.splits)

lemma in_order_call: "in_order s \<Longrightarrow> in_order (s\<lparr>table := snd (call_send h opts name content (table s))\<rparr>)"
  by (simp add: in_order_def call_send_ended)

lemma in_order_other: "in_order s \<Longrightarrow> in_order (s\<lparr>table := other_id (table s)\<rparr>)"
  by (simp add: in_order_def other_id_def)

lemma in_order_start:
  assumes "in_order s" and "ended (table s) = None" and "serving s = None"
  shows "in_order (turn_start h input s)"
proof -
  have fin: "promise_at (outcomes (air s)) k = Fulfilled ()" "k < length (outcomes (air s))" if "k \<in> set (served s)" for k
    using assms that by (auto simp: in_order_def)
  have other: "in_order (s\<lparr>table := r\<rparr>)" for r using assms by (auto simp: in_order_def)
  have event: "in_order (s\<lparr>air := f, serving := Some k, served := served s @ [k]\<rparr>)"
    if "dispatch_start h m (air s) = (k, f)" for m k f
  proof -
    have k: "k = length (outcomes (air s))" "length (outcomes f) = Suc k"
      using dispatch_start_id [of h m "air s"] that by simp_all
    have "flight_step h (\<lambda>n v hs d. (Inr (), d)) (air s) (snd (dispatch_start h m (air s)))" by (rule flight_step.starts)
    then have "flight_step h (\<lambda>n v hs d. (Inr (), d)) (air s) f" using that by simp
    then have "promise_at (outcomes f) j = Fulfilled ()" if "j \<in> set (served s)" for j
      using step_settled [of h _ "air s" f j] fin(1) [OF that] by simp
    with fin(2) k assms show ?thesis by (auto simp: in_order_def sorted_wrt_append less_Suc_eq)
  qed
  show ?thesis using other event by (auto simp: turn_start_def Let_def split: sum.splits prod.splits)
qed

interpretation serial: invariant_system "loop_start session dec" "loop_step h opts run_handler" in_order
  by unfold_locales
    (simp add: loop_start_def in_order_def,
     erule loop_stepE, auto simp: in_order_start in_order_resume in_order_call in_order_other in_order_air)

section \<open>The turns as one step each\<close>

lemma loop_run_steps: "loop_run h opts run_handler s0 es s \<Longrightarrow> (loop_step h opts run_handler)\<^sup>*\<^sup>* s0 s"
  by (induction rule: loop_run.induct) (auto intro: rtranclp.rtrancl_into_rtrancl loop_step.intros)

lemma loop_steps_run:
  "(loop_step h opts run_handler)\<^sup>*\<^sup>* s0 s \<Longrightarrow> \<exists>es. loop_run h opts run_handler s0 es s"
  by (induction rule: rtranclp_induct) (auto elim!: loop_stepE intro: loop_run.intros)

text \<open>
  The reactor of the theory Rpc_Client beside the suspended one: it has the same table, it has ended
  with \<open>x\<close>, and its dispatches still to come deliver the outcomes \<open>rs\<close> in turn.
\<close>

definition atomic :: "jserr option \<Rightarrow> unit result list \<Rightarrow> run_state \<Rightarrow> unit result list reactor" where
  "atomic x rs s =
     \<lparr>calls = calls (table s), triplets = triplets (table s), ids = ids (table s), written = written (table s),
      ended = x, closed_property = closed_property (table s), dispatch_state = rs\<rparr>"

fun next_outcome :: "message \<Rightarrow> unit result list \<Rightarrow> unit result \<times> unit result list" where
  "next_outcome m [] = (Inr (), [])"
| "next_outcome m (r # rs) = (r, rs)"

text \<open>The outcomes of the dispatches that the loop has started, and of those it does not await any more.\<close>

definition outcome :: "run_state \<Rightarrow> nat \<Rightarrow> unit result" where
  "outcome s k = (case promise_at (outcomes (air s)) k of Rejected e \<Rightarrow> Inl e | _ \<Rightarrow> Inr ())"

definition past :: "run_state \<Rightarrow> unit result list" where
  "past s = map (outcome s) (if serving s = None then served s else butlast (served s))"

text \<open>While a dispatch is awaited, the reactor that takes it in one step has its outcome \<open>r\<close> already.\<close>

definition ahead :: "unit result \<Rightarrow> run_state \<Rightarrow> unit result list" where
  "ahead r s = (if serving s = None then [] else [r])"

definition end_ahead :: "unit result \<Rightarrow> run_state \<Rightarrow> jserr option" where
  "end_ahead r s = (if serving s = None then ended (table s) else case r of Inl e \<Rightarrow> Some e | Inr _ \<Rightarrow> None)"

lemma atomic_frame: "atomic x rs (s\<lparr>air := f\<rparr>) = atomic x rs s" "atomic x rs (s\<lparr>serving := w\<rparr>) = atomic x rs s"
  "atomic x rs (s\<lparr>served := ks\<rparr>) = atomic x rs s" "atomic x rs (s\<lparr>table := (table s)\<lparr>ended := y\<rparr>\<rparr>) = atomic x rs s"
  by (simp_all add: atomic_def)

lemma atomic_call:
  "atomic x rs (s\<lparr>table := snd (call_send h opts name content (table s))\<rparr>) = snd (call_send h opts name content (atomic x rs s))"
  by (auto simp: atomic_def call_send_def Let_def split: sum.splits prod.splits)

lemma atomic_other_id: "atomic x rs (s\<lparr>table := other_id (table s)\<rparr>) = other_id (atomic x rs s)"
  by (simp add: atomic_def other_id_def)

lemma table_frame: "past (s\<lparr>table := q\<rparr>) = past s" "ahead r (s\<lparr>table := q\<rparr>) = ahead r s"
  "ended q = ended (table s) \<Longrightarrow> end_ahead r (s\<lparr>table := q\<rparr>) = end_ahead r s"
  by (simp_all add: past_def outcome_def [abs_def] ahead_def end_ahead_def)

lemma atomic_turn:
  assumes "\<And>m. input = Inr m \<Longrightarrow> \<not> takes_event m" and "ended (table s) = None"
  shows "run_turn h next_outcome input (atomic None rs s) =
    (let t = s\<lparr>table := run_turn h (\<lambda>m d. (Inr (), d)) input (table s)\<rparr> in atomic (ended (table t)) rs t)"
  using assms by (auto simp: atomic_def run_turn_def takes_event_def split: sum.splits lookup.splits)

lemma atomic_event:
  "takes_event m \<Longrightarrow>
   run_turn h next_outcome (Inr m) (atomic None (r # rs) s) =
     atomic (case r of Inl e \<Rightarrow> Some e | Inr _ \<Rightarrow> None) rs s"
  by (auto simp: atomic_def run_turn_def takes_event_def split: sum.splits)

lemma settled_outcome:
  assumes "in_order s" and "flight_step h run_handler (air s) f" and "k \<in> set (served s)" and "serving s \<noteq> Some k"
  shows "promise_at (outcomes f) k = promise_at (outcomes (air s)) k"
  using assms(1,3,4) by (intro step_settled [OF assms(2)]) (auto simp: in_order_def)

lemma past_air:
  assumes "in_order s" and "flight_step h run_handler (air s) f"
  shows "past (s\<lparr>air := f\<rparr>) = past s"
proof -
  have "serving s \<noteq> Some k" if "k \<in> set (butlast (served s))" for k
    using that assms(1) by (cases "served s" rule: rev_cases) (auto simp: in_order_def sorted_wrt_append)
  then have "outcome (s\<lparr>air := f\<rparr>) k = outcome s k"
    if "k \<in> set (if serving s = None then served s else butlast (served s))" for k
    using that settled_outcome [OF assms, of k] by (auto simp: outcome_def split: if_splits dest: in_set_butlastD)
  then show ?thesis unfolding past_def by (intro map_cong) (simp_all split: if_splits)
qed

text \<open>The run of the other reactor, and what is in flight for the event that is served.\<close>

definition beside :: "('z) host_scheme \<Rightarrow> reactor_options \<Rightarrow> rpc_ids \<Rightarrow> unit result list reactor_event list \<Rightarrow> run_state \<Rightarrow> bool" where
  "beside h opts ids0 es s =
     (\<forall>r zs. reactor_run h opts next_outcome es (createRpcReactor ids0 (past s @ ahead r s @ zs)) =
        atomic (end_ahead r s) zs s)"

lemma beside_take:
  assumes "beside h opts ids0 es s" and "in_order s" and "ended (table s) = None" and "serving s = None"
  shows "beside h opts ids0 (es @ [Took input]) (turn_start h input s)"
proof (cases "\<exists>m. input = Inr m \<and> takes_event m")
  case True
  then obtain m where m: "input = Inr m" "takes_event m" by blast
  obtain k f where f: "dispatch_start h m (air s) = (k, f)" by (cases "dispatch_start h m (air s)")
  have t: "turn_start h input s = s\<lparr>air := f, serving := Some k, served := served s @ [k]\<rparr>"
    using m f by (simp add: turn_start_def)
  have "flight_step h (\<lambda>n v hs d. (Inr (), d)) (air s) f" using f flight_step.starts [of h _ "air s" m] by simp
  then have "past (s\<lparr>air := f\<rparr>) = past s" by (rule past_air [OF assms(2)])
  then have "past (turn_start h input s) = past s" unfolding t using assms(4) by (simp add: past_def outcome_def)
  moreover have "ended (atomic None zs s) = None" for zs by (simp add: atomic_def)
  moreover have "atomic x zs (turn_start h input s) = atomic x zs s" "serving (turn_start h input s) = Some k" for x zs
    by (simp_all add: t atomic_def)
  ultimately show ?thesis
    using assms(1,3,4) m(2)
    by (simp add: beside_def reactor_run_snoc ahead_def end_ahead_def m(1) atomic_event)
next
  case False
  let ?t = "s\<lparr>table := run_turn h (\<lambda>m d. (Inr (), d)) input (table s)\<rparr>"
  have t: "turn_start h input s = ?t" using False by (cases input) (simp_all add: turn_start_def Let_def)
  have "past ?t = past s" by (simp add: past_def outcome_def)
  moreover have "ended (atomic None zs s) = None" for zs by (simp add: atomic_def)
  moreover have "run_turn h next_outcome input (atomic None zs s) = atomic (ended (table ?t)) zs ?t" for zs
    using atomic_turn [of input s h zs] False assms(3) by (simp add: Let_def)
  ultimately show ?thesis
    using assms(1,3,4) by (simp add: beside_def reactor_run_snoc t ahead_def end_ahead_def)
qed

lemma beside_resume:
  assumes "beside h opts ids0 es s" and "in_order s"
  shows "beside h opts ids0 es (turn_resume s)"
proof (cases "\<exists>k. serving s = Some k \<and> promise_at (outcomes (air s)) k \<noteq> Pending")
  case False
  then have "turn_resume s = s" by (auto simp: turn_resume_def split: option.splits)
  with assms(1) show ?thesis by simp
next
  case True
  then obtain k where k: "serving s = Some k" "promise_at (outcomes (air s)) k \<noteq> Pending" by blast
  have ord: "ended (table s) = None" "served s = butlast (served s) @ [k]"
    using assms(2) k(1) by (auto simp: in_order_def)
  have "past (turn_resume s) = map (outcome s) (served s)"
    using k by (auto simp: turn_resume_def past_def outcome_def split: promise.splits)
  also have "\<dots> = past s @ [outcome s k]" by (subst ord(2)) (simp add: past_def k(1))
  finally have past: "past (turn_resume s) = past s @ ahead (outcome s k) s" using k(1) by (simp add: ahead_def)
  have "serving (turn_resume s) = None" "ended (table (turn_resume s)) = end_ahead (outcome s k) s"
    using k ord(1) by (auto simp: turn_resume_def end_ahead_def outcome_def split: promise.splits)
  moreover have "atomic x zs (turn_resume s) = atomic x zs s" for x zs
    using k by (auto simp: turn_resume_def atomic_def split: promise.splits)
  ultimately show ?thesis
    using assms(1) by (simp add: beside_def past) (simp add: ahead_def end_ahead_def)
qed

text \<open>The event that the loop awaits is the last input it took, and the dispatch in flight for it is of that message.\<close>

definition awaits :: "unit result list reactor_event list \<Rightarrow> run_state \<Rightarrow> bool" where
  "awaits es s =
     (flights_ok (air s) \<and> length (served s) = length (filter (\<lambda>i. \<exists>m. i = Inr m \<and> takes_event m) (taken_inputs es)) \<and>
      (\<forall>k. serving s = Some k \<longrightarrow> k < length (outcomes (air s)) \<and> taken_inputs es \<noteq> [] \<and>
         (\<forall>r m. (k, r, m) \<in> set (inflight (air s)) \<longrightarrow> last (taken_inputs es) = Inr m)))"

lemma flight_step_old:
  "flight_step h run_handler s t \<Longrightarrow> k < length (outcomes s) \<Longrightarrow> (k, r, m) \<in> set (inflight t) \<Longrightarrow> (k, r, m) \<in> set (inflight s)"
  by (erule flight_stepE)
    (auto simp: dispatch_start_def newPromiseTriplet_def dispatch_resume_def Let_def
      split: sum.splits option.splits prod.splits)

lemma start_flight:
  "flights_ok s \<Longrightarrow> dispatch_start h m s = (k, t) \<Longrightarrow> (k, r, m') \<in> set (inflight t) \<Longrightarrow> m' = m"
  by (force simp: dispatch_start_def newPromiseTriplet_def flights_ok_def split: sum.splits option.splits)

lemma awaits_take:
  assumes "awaits es s" and "serving s = None"
  shows "awaits (es @ [Took input]) (turn_start h input s)"
proof (cases "\<exists>m. input = Inr m \<and> takes_event m")
  case True
  then obtain m where m: "input = Inr m" "takes_event m" by blast
  obtain k f where f: "dispatch_start h m (air s) = (k, f)" by (cases "dispatch_start h m (air s)")
  have "flights_ok f" using assms(1) start_ok [of "air s" h m] f by (simp add: awaits_def)
  moreover have "k < length (outcomes f)" using dispatch_start_id [of h m "air s"] f by simp
  ultimately show ?thesis
    using assms(1) m f start_flight [OF _ f] by (auto simp: awaits_def turn_start_def)
next
  case False
  then have "turn_start h input s = s\<lparr>table := run_turn h (\<lambda>m d. (Inr (), d)) input (table s)\<rparr>"
    by (cases input) (simp_all add: turn_start_def Let_def)
  with assms False show ?thesis by (simp add: awaits_def)
qed

lemma awaits_air:
  assumes "awaits es s" and "flight_step h run_handler (air s) f"
  shows "awaits es (s\<lparr>air := f\<rparr>)"
proof -
  have "flights_ok f" using in_flight.inv_step [OF _ assms(2)] assms(1) by (simp add: awaits_def)
  with assms(1) show ?thesis
    using flight_step_length [OF assms(2)] flight_step_old [OF assms(2)] by (simp add: awaits_def) (metis less_le_trans)
qed

lemma run_beside:
  assumes "loop_run h opts run_handler s0 es s" and "loop_start session dec s0"
  shows "beside h opts (ids (table s0)) es s \<and> awaits es s \<and> in_order s"
  using assms(1)
proof (induction rule: loop_run.induct)
  case r_start
  have "in_order s0" using assms(2) by (rule serial.inv_start)
  moreover have "awaits [] s0" using assms(2) flights_start_ok by (auto simp: loop_start_def awaits_def)
  moreover have "beside h opts (ids (table s0)) [] s0"
    using assms(2) by (auto simp: loop_start_def reactor_start_def beside_def reactor_run_def past_def ahead_def
        end_ahead_def atomic_def createRpcReactor_def)
  ultimately show ?case by simp
next
  case (r_take es s input)
  then show ?case using beside_take awaits_take in_order_start by blast
next
  case (r_resume es s)
  have "awaits es (turn_resume s)"
    using r_resume.IH by (auto simp: awaits_def turn_resume_def split: option.splits promise.splits)
  with r_resume.IH show ?case using beside_resume in_order_resume by blast
next
  case (r_call es s name content)
  let ?t = "s\<lparr>table := snd (call_send h opts name content (table s))\<rparr>"
  have "awaits (es @ [Called name content]) ?t" using r_call.IH by (simp add: awaits_def)
  moreover have "beside h opts (ids (table s0)) (es @ [Called name content]) ?t"
    using r_call.IH
    by (simp add: beside_def reactor_run_snoc table_frame atomic_call call_send_ended)
  ultimately show ?case using r_call.IH in_order_call by blast
next
  case (r_other es s)
  let ?t = "s\<lparr>table := other_id (table s)\<rparr>"
  have "awaits (es @ [OtherId]) ?t" using r_other.IH by (simp add: awaits_def)
  moreover have "beside h opts (ids (table s0)) (es @ [OtherId]) ?t"
    using r_other.IH
    by (simp add: beside_def reactor_run_snoc table_frame atomic_other_id other_id_ended)
  ultimately show ?case using r_other.IH in_order_other by blast
next
  case (r_air es s f)
  have "beside h opts (ids (table s0)) es (s\<lparr>air := f\<rparr>)"
    using r_air by (simp add: beside_def past_air [OF _ r_air(2)] atomic_frame) (simp add: ahead_def end_ahead_def)
  with r_air show ?case using awaits_air in_order_air by blast
qed

section \<open>Properties\<close>

text \<open>
  C32: suspending the loop during a dispatch changes nothing for the calls. Take any run in which
  calls, inputs that the loop takes, other dispatches, subscriptions and identifiers taken by other
  code interleave, and the reactor whose turns take the dispatch in one step after the same calls
  and inputs in the same order, where the dispatch of the n-th event delivers the outcome of the n-th dispatch that
  the loop started. Both have the same table of calls, the same promises, identifiers and requests
  written; when the loop awaits no dispatch, both have ended with the same error or neither has;
  while it awaits one it has not ended. The loop has started one dispatch per event it took, and one that is
  still in flight for the loop is of the message it took last.
\<close>

theorem suspended_loop_refines_reactor:
  assumes "loop_start session dec s0" and "loop_run h opts run_handler s0 es s"
  shows "let outcome = (\<lambda>k. case promise_at (outcomes (air s)) k of Rejected e \<Rightarrow> Inl e | _ \<Rightarrow> Inr ());
      q = reactor_run h opts next_outcome es (createRpcReactor (ids (table s0)) (map outcome (served s)))
    in calls (table s) = calls q \<and> triplets (table s) = triplets q \<and> ids (table s) = ids q \<and>
       written (table s) = written q \<and> ended (table s) = (if serving s = None then ended q else None) \<and>
       length (served s) = length (filter (\<lambda>i. \<exists>m. i = Inr m \<and> takes_event m) (taken_inputs es)) \<and>
       (\<forall>k r m. serving s = Some k \<and> (k, r, m) \<in> set (inflight (air s)) \<longrightarrow> last (taken_inputs es) = Inr m)"
proof -
  note run = run_beside [OF assms(2,1)]
  let ?r = "outcome s (last (served s))"
  have "map (outcome s) (served s) = past s @ ahead ?r s @ []"
  proof (cases "serving s")
    case (Some k)
    then have "served s \<noteq> []" using run by (auto simp: in_order_def)
    then show ?thesis
      using Some by (cases "served s" rule: rev_cases) (simp_all add: past_def ahead_def)
  qed (simp add: past_def ahead_def)
  then have "reactor_run h opts next_outcome es (createRpcReactor (ids (table s0)) (map (outcome s) (served s))) =
      atomic (end_ahead ?r s) [] s"
    using run unfolding beside_def by metis
  moreover have "ended (table s) = (if serving s = None then end_ahead ?r s else None)"
    using run by (auto simp: in_order_def end_ahead_def)
  ultimately have "let q = reactor_run h opts next_outcome es (createRpcReactor (ids (table s0)) (map (outcome s) (served s)))
    in calls (table s) = calls q \<and> triplets (table s) = triplets q \<and> ids (table s) = ids q \<and>
       written (table s) = written q \<and> ended (table s) = (if serving s = None then ended q else None)"
    by (simp add: atomic_def)
  moreover have "length (served s) = length (filter (\<lambda>i. \<exists>m. i = Inr m \<and> takes_event m) (taken_inputs es))"
    and "\<forall>k r m. serving s = Some k \<and> (k, r, m) \<in> set (inflight (air s)) \<longrightarrow> last (taken_inputs es) = Inr m"
    using run unfolding awaits_def by blast+
  ultimately show ?thesis unfolding Let_def outcome_def [abs_def] by (elim conjE) (intro conjI; assumption)
qed

text \<open>
  C33: the loop serves events one at a time, in the order it takes them. The dispatches it started
  are numbered in that order; only the last may be under way, and then the loop has not ended;
  every other one has succeeded, except that the last may have failed with the error that ended
  the loop.
\<close>

theorem events_served_in_order:
  assumes "reach (loop_start session dec) (loop_step h opts run_handler) s" and "k \<in> set (served s)"
  shows "sorted_wrt (<) (served s) \<and>
    (if serving s = Some k then k = last (served s) \<and> ended (table s) = None
     else promise_at (outcomes (air s)) k = Fulfilled () \<or>
       k = last (served s) \<and> (\<exists>e. ended (table s) = Some e \<and> promise_at (outcomes (air s)) k = Rejected e))"
  using serial.inv_reach [OF assms(1)] assms(2) by (auto simp: in_order_def)

end
