(* ===== verification/Witnesses.thy ===== *)
theory Witnesses
  imports Plain_Conn Client_Run Logged_Conn Run_Loop
begin

text \<open>
  Concrete instances of the properties: a host, messages, a persistent socket, a connection, a
  dispatcher and a reactor on which the hypotheses of each theorem hold.
\<close>

section \<open>A host and messages\<close>

definition demo_host :: host where
  "demo_host = \<lparr>uni_upper = (\<lambda>s. s), uni_lower = (\<lambda>s. s),
     json_stringify = (\<lambda>v. Inr (Some (js ''null''))), json_parse = (\<lambda>s. Inr (JString s)),
     object_string = (\<lambda>v. Inl TypeErr), user_marshal = (\<lambda>n v. Inl (Thrown n)),
     user_unmarshal = (\<lambda>n b. Inl (Thrown n)), user_guard = (\<lambda>n v. n = 1),
     user_match = (\<lambda>n v. Inr (n = 1)), user_decode = (\<lambda>n v. Inr v), regex_test = (\<lambda>n s. n = 1)\<rparr>"

definition demo_message :: message where
  "demo_message = \<lparr>headers = [(header_name Header_Class, js ''add''), (header_name Header_Length, js ''2'')],
     body = mk_blob [104, 105]\<rparr>"

definition demo_unsized :: message where
  "demo_unsized = \<lparr>headers = [(header_name Header_Class, js ''add'')], body = mk_blob [104, 105]\<rparr>"

definition demo_ids :: rpc_ids where
  "demo_ids = \<lparr>sessionId = 7, nextId = 0\<rparr>"

lemma demo_wire: "wire_message demo_host demo_message"
  by code_simp

lemma demo_length: "header_of demo_message Header_Length = Some (dec_string (blob_size (body demo_message)))"
  by code_simp

section \<open>Header names, messages and requests\<close>

theorem canonicalizeKey_eq_iff_witness:
  "canonicalizeKey demo_host (js ''content_TYPE'') = canonicalizeKey demo_host (js ''Content-Type'')"
proof -
  have "is_ascii (js ''content_TYPE'')" "is_ascii (js ''Content-Type'')" by code_simp+
  moreover have "map (map ascii_lower) (split_runs key_sep (js ''content_TYPE'')) =
      map (map ascii_lower) (split_runs key_sep (js ''Content-Type''))" by code_simp
  ultimately show ?thesis by (simp add: canonicalizeKey_eq_iff)
qed

definition demo_request :: message where
  "demo_request = \<lparr>headers = [(header_name Header_ID, js ''7.1''), (header_name Header_Class, js ''ping'')],
     body = emptyBlob\<rparr>"

lemma demo_request_created:
  "createRpcRequestMessage demo_host demo_ids (js ''ping'') [] = (Inr demo_request, \<lparr>sessionId = 7, nextId = 1\<rparr>)"
proof -
  have "rpc_id 7 1 = js ''7.1''" by code_simp
  then show ?thesis
    by (simp add: createRpcRequestMessage_def createRpcMessageBase_def createMessageBase_def isHeaders_def
        isContentType_def isObj_def js_inc_def demo_ids_def demo_request_def set_header_def)
qed

theorem createRpcRequestMessage_request_witness:
  "isRpcRequestMessage (message_val demo_request) \<and> messageClass demo_host demo_request = Some (js ''ping'')"
  using createRpcRequestMessage_request [OF demo_request_created, of demo_host] by simp

theorem createRequests_distinct_ids_witness:
  "distinct (map (messageID demo_host) (fst (createRequests demo_host demo_ids [(js ''ping'', []), (js ''ping'', [])])))"
  by (rule createRequests_distinct_ids) (simp add: demo_ids_def)

section \<open>The wire format\<close>

theorem parse_create_roundtrip_witness:
  "parseMessageFromBlob demo_host (createBlobFromMessage demo_message) =
     Inr \<lparr>headers = own_order (headers demo_message), body = mk_blob (blob_bytes (body demo_message))\<rparr>"
  by (rule parse_create_roundtrip [OF demo_wire demo_length])

theorem parse_create_no_length_witness:
  "parseMessageFromBlob demo_host (createBlobFromMessage demo_unsized) =
     Inr \<lparr>headers = own_order (headers demo_unsized), body = mk_blob [104, 105, 10]\<rparr>"
proof -
  have "wire_message demo_host demo_unsized" "header_of demo_unsized Header_Length = None" by code_simp+
  from parse_create_no_length [OF this] show ?thesis by (simp add: demo_unsized_def)
qed

section \<open>Exchanges and connections\<close>

theorem promise_exchange_fifo_witness:
  "fst (pe_run [PTake, PGive (5::nat), PGive 6, PTake, PTake] createPromiseExchange) = [0, 1, 2] \<and>
   fstate (snd (pe_run [PTake, PGive (5::nat), PGive 6, PTake, PTake] createPromiseExchange)) =
     [Fulfilled 5, Fulfilled 6, Pending]"
  using promise_exchange_fifo [OF prod.collapse [symmetric],
      of "[PTake, PGive (5::nat), PGive 6, PTake, PTake]"]
  by (simp add: upt_rec)

definition demo_blob :: blob where
  "demo_blob = createBlobFromMessage demo_message"

definition demo_parsed :: message where
  "demo_parsed = \<lparr>headers = own_order (headers demo_message), body = mk_blob (blob_bytes (body demo_message))\<rparr>"

lemma demo_blob_parsed: "parseMessageFromBlob demo_host demo_blob = Inr demo_parsed"
  unfolding demo_blob_def demo_parsed_def by (rule parse_create_exact [OF demo_wire demo_length])

theorem conn_reads_in_order_witness:
  "fstate (exch (snd (conn_run demo_host [Read, Incoming (JBlob demo_blob), Parsed 0, Read] createWebSocketConn))) =
     [Fulfilled demo_parsed, Pending]"
proof -
  let ?es = "[Read, Incoming (JBlob demo_blob), Parsed 0, Read]"
  have order: "parses_in_order demo_host ?es createWebSocketConn"
    by (simp add: createWebSocketConn_def conn_read_def on_message_def split_beta)
  have "Closing CLOSED \<notin> set ?es" by simp
  from conn_reads_in_order [OF order this prod.collapse [symmetric]] obtain ds where
    ds: "ds @ awaited demo_host (snd (conn_run demo_host ?es createWebSocketConn)) =
      oks (map (parseMessageFromBlob demo_host) (arrivals ?es))"
    "fstate (exch (snd (conn_run demo_host ?es createWebSocketConn))) =
      map Fulfilled ds @ replicate (length (fst (conn_run demo_host ?es createWebSocketConn)) - length ds) Pending"
    by blast
  have "parsing (snd (conn_run demo_host ?es createWebSocketConn)) = []"
    "length (fst (conn_run demo_host ?es createWebSocketConn)) = 2"
    by (simp_all add: createWebSocketConn_def conn_read_def on_message_def on_parsed_frame split_beta)
  with ds show ?thesis by (simp add: awaited_def demo_blob_parsed)
qed

theorem closed_conn_settles_reads_witness:
  "promise_at (fstate (exch (snd (conn_run demo_host [Closing CLOSED, Read] (snd (conn_run demo_host [Read] createWebSocketConn)))))) 0
     \<noteq> Pending"
proof -
  have "Closing CLOSED \<notin> set [Read]" by simp
  from closed_conn_settles_reads [OF this prod.collapse [symmetric] prod.collapse [symmetric],
      where u = demo_host and es' = "[Read]"]
  show ?thesis by (simp add: createWebSocketConn_def conn_read_def split_beta)
qed

text \<open>Two messages written, and read by a side that has one read waiting when they arrive.\<close>

abbreviation demo_writes :: "write_event list" where
  "demo_writes \<equiv> [Write demo_message, Write demo_message, Buffered 0, Buffered 1]"

abbreviation demo_received :: "conn_event list" where
  "demo_received \<equiv> [Read, Incoming (JBlob demo_blob), Incoming (JBlob demo_blob), Parsed 0, Parsed 1]"

theorem written_messages_are_read_witness:
  "fstate (exch (snd (conn_run demo_host demo_received createWebSocketConn))) = [Fulfilled demo_parsed, Fulfilled demo_parsed]"
proof -
  let ?run = "conn_run demo_host demo_received createWebSocketConn"
  have w: "\<forall>m \<in> set (written_by demo_writes). wire_message demo_host m \<and>
      header_of m Header_Length = Some (dec_string (blob_size (body m)))"
    using demo_wire demo_length by simp
  have b: "buffers_in_order demo_writes createWebSocketWriter"
    by (simp add: createWebSocketWriter_def write_message_def on_buffered_def)
  have a: "map blob_bytes (arrivals demo_received) = take 2 (ws_sent (fold writer_do demo_writes createWebSocketWriter))"
    by (simp add: createWebSocketWriter_def write_message_def on_buffered_def demo_blob_def)
  have o1: "parses_in_order demo_host demo_received createWebSocketConn"
    by (simp add: createWebSocketConn_def conn_read_def on_message_def on_parsed_frame split_beta)
  have c: "Closing CLOSED \<notin> set demo_received" by simp
  have p: "parsing (snd ?run) = []"
    by (simp add: createWebSocketConn_def conn_read_def on_message_def on_parsed_frame split_beta)
  from written_messages_are_read [OF w b a o1 c prod.collapse [symmetric]] p
  have "fstate (exch (snd ?run)) = map (\<lambda>m. Fulfilled \<lparr>headers = own_order (headers m), body = mk_blob (blob_bytes (body m))\<rparr>)
      (take 2 (written_by demo_writes)) @ replicate (length (fst ?run) - 2) Pending"
    by auto
  moreover have "length (fst ?run) = 1" by (simp add: split_beta)
  ultimately show ?thesis by (simp add: demo_parsed_def)
qed

section \<open>The event target\<close>

definition demo_event :: event where
  "demo_event = \<lparr>event_type = js ''open'', defaultPrevented = False\<rparr>"

text \<open>Listeners that write their number into a log kept beside the target.\<close>

definition demo_call :: "nat \<Rightarrow> event \<Rightarrow> (nat, nat list) target_scheme \<Rightarrow> unit result \<times> event \<times> (nat, nat list) target_scheme" where
  "demo_call l e t = (Inr (), e, target.more_update (\<lambda>log. log @ [l]) t)"

definition demo_target :: "(nat, nat list) target_scheme" where
  "demo_target = \<lparr>listeners = [(js ''open'', [(1, \<lparr>capture = None, once = Some True\<rparr>), (2, \<lparr>capture = None, once = None\<rparr>)])],
     \<dots> = []\<rparr>"

lemma demo_open_type: "js ''open'' \<notin> set object_prototype"
  by code_simp

lemma demo_stack: "stack_of demo_target (js ''open'') =
    [(1, \<lparr>capture = None, once = Some True\<rparr>), (2, \<lparr>capture = None, once = None\<rparr>)]"
  by (simp add: demo_target_def stack_of_def listeners_at_def obj_lookup_def obj_simps)

theorem dispatch_calls_snapshot_witness:
  "target.more (snd (snd (dispatchEvent demo_call demo_event demo_target))) = [1, 2]"
  using dispatch_calls_snapshot [where call = demo_call and trace = "\<lambda>log. log" and e = demo_event and t = demo_target]
    demo_open_type demo_stack
  by (simp add: demo_call_def demo_event_def) (simp add: demo_target_def)

lemma demo_add:
  "stack_of (snd (addEventListener (js ''open'') l opts t)) (js ''open'') = stack_of t (js ''open'') @ [(l, add_options opts)]"
  using stack_of_add [OF demo_open_type, of l opts t "js ''open''"] by simp

theorem listeners_refine_list_witness:
  "map same_key (stack_of (fold (impl_op
        (\<lambda>k t. snd (addEventListener (js ''open'') (fst k) (BooleanOptions (snd k)) t))
        (\<lambda>k t. removeEventListener (js ''open'') (fst k) (BooleanOptions (snd k)) t))
      [Reg (1::nat, False), Reg (2, False), Unreg (1, False)] createConstrainedEventTarget) (js ''open'')) = [(2, False)]"
  using listeners_refine_list [OF demo_open_type, where ops = "[Reg (1::nat, False), Reg (2, False), Unreg (1, False)]"]
  by (simp add: stack_of_new same_key_def demo_add)

section \<open>The persistent socket\<close>

definition demo_options :: options where
  "demo_options = \<lparr>url = js ''ws://x'', connectTimeout = Absent, retryInterval = Absent, opt_binaryType = Absent,
     maxRetries = Some 1\<rparr>"

definition demo_endless :: options where
  "demo_endless = demo_options\<lparr>maxRetries := None\<rparr>"

abbreviation demo_react :: "(nat, nat) client" where
  "demo_react \<equiv> (\<lambda>l e r hs. [])"

abbreviation demo_settings :: settings where
  "demo_settings \<equiv> with_defaults demo_options"

definition demo_pws :: "(nat, nat) pws" where
  "demo_pws = pws_connect demo_settings
     \<lparr>listeners = [], readyState = CONNECTING, attempts = 0, current = 0, promises = [Pending],
      socks = [], reconnects = [], reactions = [], microtasks = [], send_results = [], heard = []\<rparr>"

lemma demo_start: "pws_start (\<lambda>u. True) demo_options demo_pws" "pws_start (\<lambda>u. True) demo_endless demo_pws"
  by (simp_all add: pws_start_def createPersistentWebSocket_def demo_pws_def demo_endless_def demo_options_def
      with_defaults_def pws_connect_def)

lemma demo_reach: "reach (pws_start (\<lambda>u. True) demo_options) (pws_step demo_react demo_settings) demo_pws"
  using demo_start(1) by (rule reach_start)

lemma demo_task_reach:
  "reach (pws_start (\<lambda>u. True) demo_options) (pws_step demo_react demo_settings) s \<Longrightarrow> enabled k s \<Longrightarrow>
   reach (pws_start (\<lambda>u. True) demo_options) (pws_step demo_react demo_settings) (do_task demo_react demo_settings k s)"
  by (rule reach_step) (auto intro: pws_task)

text \<open>The socket after it opened, after the client closed it and after a failed attempt.\<close>

definition demo_opened :: "(nat, nat) pws" where
  "demo_opened = do_task demo_react demo_settings (SockOpen 0 5) demo_pws"

definition demo_closing :: "(nat, nat) pws" where
  "demo_closing = do_task demo_react demo_settings (Client [ApiClose None None]) demo_opened"

definition demo_retry :: "(nat, nat) pws" where
  "demo_retry = do_task demo_react demo_settings (ReconnectTimer 0) (do_task demo_react demo_settings (SockClose 0 5) demo_pws)"

definition demo_sending :: "(nat, nat) pws" where
  "demo_sending = do_task demo_react demo_settings (Client [ApiSend 9]) demo_pws"

lemmas demo_pws_defs = demo_pws_def demo_opened_def demo_closing_def demo_retry_def demo_sending_def

lemmas pws_run_defs = do_task_def pws_connect_def onopen_def onclose_def update_sock_def settle_current_def settle_def
  promise_at_def pws_dispatch_def dispatchEvent_def listeners_at_def obj_lookup_def obj_get_Nil run_microtasks_def
  pws_close_def pws_send_def then_do_def sock_close_def close_args_ok_def live_def newPromiseTriplet_def Let_def
  with_defaults_def demo_options_def new_event_def

lemma event_types: "js ''open'' \<notin> set object_prototype" "js ''close'' \<notin> set object_prototype"
  by code_simp+

lemma demo_opened_state:
  "readyState demo_opened = OPEN" "enabled (SockClose 0 5) demo_opened" "enabled (SockOpen 0 5) demo_pws"
  by (simp_all add: demo_pws_defs pws_run_defs event_types)

lemma demo_closing_state: "readyState demo_closing = CLOSED" "enabled (SockClose 0 5) demo_closing"
  by (simp_all add: demo_pws_defs pws_run_defs event_types)

lemma demo_retry_state:
  "readyState demo_retry = CONNECTING" "attempts demo_retry = 1" "enabled (SockClose 1 5) demo_retry"
  by (simp_all add: demo_pws_defs pws_run_defs event_types)

lemma demo_reaches:
  "reach (pws_start (\<lambda>u. True) demo_options) (pws_step demo_react demo_settings) demo_opened"
  "reach (pws_start (\<lambda>u. True) demo_options) (pws_step demo_react demo_settings) demo_closing"
  "reach (pws_start (\<lambda>u. True) demo_options) (pws_step demo_react demo_settings) demo_retry"
  "reach (pws_start (\<lambda>u. True) demo_options) (pws_step demo_react demo_settings) demo_sending"
proof -
  show opened: "reach (pws_start (\<lambda>u. True) demo_options) (pws_step demo_react demo_settings) demo_opened"
    unfolding demo_opened_def by (rule demo_task_reach [OF demo_reach demo_opened_state(3)])
  show "reach (pws_start (\<lambda>u. True) demo_options) (pws_step demo_react demo_settings) demo_closing"
    unfolding demo_closing_def by (rule demo_task_reach [OF opened]) simp
  show "reach (pws_start (\<lambda>u. True) demo_options) (pws_step demo_react demo_settings) demo_sending"
    unfolding demo_sending_def by (rule demo_task_reach [OF demo_reach]) simp
  have "reach (pws_start (\<lambda>u. True) demo_options) (pws_step demo_react demo_settings)
      (do_task demo_react demo_settings (SockClose 0 5) demo_pws)"
    by (rule demo_task_reach [OF demo_reach]) (simp add: demo_pws_def pws_connect_def live_def)
  then show retry: "reach (pws_start (\<lambda>u. True) demo_options) (pws_step demo_react demo_settings) demo_retry"
    unfolding demo_retry_def by (rule demo_task_reach) (simp add: demo_pws_def pws_run_defs)
qed

theorem single_connection_witness:
  "card {w. w < length (socks demo_opened) \<and> live (socks demo_opened ! w)} + length (reconnects demo_opened) \<le> 1"
  by (rule single_connection [OF demo_reaches(1)])

theorem retries_bounded_witness: "int (attempts demo_retry) \<le> 1 + 1"
  using retries_bounded [OF demo_reaches(3), of 1] by (simp add: demo_options_def)

theorem pending_sends_wait_witness: "cur_promise demo_sending = Pending"
proof -
  have "0 < length (send_results demo_sending)" "send_results demo_sending ! 0 = Pending"
    by (simp_all add: demo_pws_defs pws_run_defs)
  from pending_sends_wait [OF demo_reaches(4) this] show ?thesis by simp
qed

theorem closed_never_reconnects_witness:
  "let t = do_task demo_react demo_settings (SockClose 0 5) demo_closing
   in readyState t = CLOSED \<and> length (socks t) = length (socks demo_opened) \<and> reconnects t = []"
proof -
  have "(pws_step demo_react demo_settings)\<^sup>*\<^sup>* demo_closing (do_task demo_react demo_settings (SockClose 0 5) demo_closing)"
    by (rule r_into_rtranclp, rule pws_task, rule demo_closing_state(2))
  from closed_never_reconnects [OF demo_reaches(1) demo_opened_state(1) this [unfolded demo_closing_def]] show ?thesis
    by (simp add: Let_def demo_closing_def)
qed

theorem gives_up_after_max_retries_witness:
  "length (socks (do_tasks demo_react demo_settings (failing 5 1 @ [SockClose 1 5]) demo_pws)) = 2"
  using gives_up_after_max_retries [OF demo_start(1), of 1 demo_react 5] by (simp add: demo_options_def Let_def)

theorem never_gives_up_witness:
  "readyState (do_tasks demo_react (with_defaults demo_endless) (failing 5 3) demo_pws) = CONNECTING"
  using never_gives_up [OF demo_start(2), of demo_react 5 3] by (simp add: demo_endless_def Let_def)

theorem close_while_connecting_undone_witness:
  "readyState (do_tasks demo_react demo_settings [Client [ApiClose None None], SockOpen 0 5] demo_sending) = OPEN"
proof -
  have "readyState demo_sending = CONNECTING" "enabled (SockOpen 0 5) demo_sending" "stack_of demo_sending (js ''open'') = []"
    "only_sends demo_sending"
    by (simp_all add: demo_pws_defs pws_run_defs event_types stack_of_def only_sends_def)
  from close_while_connecting_undone [OF demo_reaches(4) this] show ?thesis by (simp add: Let_def)
qed

theorem sends_delivered_in_order_witness:
  "sent (socks (do_tasks demo_react demo_settings (map (\<lambda>d. Client [ApiSend d]) [3, 4] @ [SockOpen 0 5]) demo_pws) ! 0) = [3, 4]"
  using sends_delivered_in_order [OF demo_start(1), of demo_react "[3, 4]" 5] by (simp add: Let_def)

theorem reconnects_after_drop_witness:
  "reconnects (do_task demo_react demo_settings (SockClose 0 5) demo_opened) = [0]"
proof -
  have "calm demo_react" by (simp add: calm_def)
  from reconnects_after_drop [OF demo_reaches(1) demo_opened_state(1,2) this] show ?thesis by (simp add: Let_def)
qed

section \<open>A connection over a persistent socket\<close>

definition demo_once :: options where
  "demo_once = demo_options\<lparr>maxRetries := Some 0\<rparr>"

abbreviation demo_once_settings :: settings where
  "demo_once_settings \<equiv> with_defaults demo_once"

abbreviation demo_pconn_step :: "pconn \<Rightarrow> pconn \<Rightarrow> bool" where
  "demo_pconn_step \<equiv> pconn_step demo_host demo_once_settings True"

abbreviation demo_pconn_task :: "(nat, jsval) task \<Rightarrow> pconn \<Rightarrow> pconn" where
  "demo_pconn_task \<equiv> ws_task demo_host demo_once_settings"

definition demo_pconn :: pconn where
  "demo_pconn = \<lparr>ws = connect_listeners (pws_connect demo_once_settings
       \<lparr>listeners = [], readyState = CONNECTING, attempts = 0, current = 0, promises = [Pending],
        socks = [], reconnects = [], reactions = [], microtasks = [], send_results = [], heard = []\<rparr>),
     conn = createWebSocketConn, writer = createWebSocketWriter\<rparr>"

lemma demo_pconn_reach: "reach (pconn_start (\<lambda>u. True) demo_once) demo_pconn_step demo_pconn"
  by (rule reach_start)
    (simp add: pconn_start_def persistent_conn_def createPersistentWebSocket_def demo_pconn_def)

text \<open>A read is outstanding when the only attempt fails; and the owner closes an open connection.\<close>

definition demo_pconn_read :: pconn where
  "demo_pconn_read = demo_pconn\<lparr>conn := snd (conn_read (conn demo_pconn))\<rparr>"

definition demo_given_up :: pconn where
  "demo_given_up = demo_pconn_task (SockClose 0 JNull) demo_pconn_read"

definition demo_pconn_opened :: pconn where
  "demo_pconn_opened = demo_pconn_task (SockOpen 0 JNull) demo_pconn"

definition demo_pconn_closing :: pconn where
  "demo_pconn_closing = demo_pconn_task (Client [ApiClose None None]) demo_pconn_opened"

definition demo_pconn_closed :: pconn where
  "demo_pconn_closed = demo_pconn_task (SockClose 0 JNull) demo_pconn_closing"

lemmas demo_pconn_defs = demo_pconn_def demo_pconn_read_def demo_given_up_def demo_pconn_opened_def
  demo_pconn_closing_def demo_pconn_closed_def ws_task_def connect_listeners_def addEventListener_def
  call_listener_def heard_events_def hear_def createWebSocketConn_def conn_read_def pe_take_def
  createPromiseExchange_def newExchange_def exch_take_def exch_set_def on_close_def demo_once_def down_def has_live_def

lemma event_eqs: "js ''open'' \<noteq> js ''message''" "js ''open'' \<noteq> js ''close''" "js ''message'' \<noteq> js ''close''"
  "js ''message'' \<notin> set object_prototype"
  by code_simp+

lemmas demo_event_eqs = event_types event_eqs event_eqs(1-3) [symmetric]

lemma demo_given_up_state:
  "down (ws demo_given_up)" "\<not> closed (conn demo_given_up)" "parsing (conn demo_given_up) = []"
  "fstate (exch (conn demo_given_up)) = [Pending]" "enabled (SockClose 0 JNull) (ws demo_pconn_read)"
  by (simp_all add: demo_pconn_defs pws_run_defs demo_event_eqs obj_get_def)




theorem socket_events_reach_conn_witness:
  "parsing (conn (demo_pconn_task (SockMessage 0 (JBlob demo_blob)) demo_pconn)) = [(0, demo_blob)]"
  using socket_events_reach_conn [OF demo_pconn_reach, of demo_once_settings 0 "JBlob demo_blob"]
  by (simp add: on_message_def) (simp add: demo_pconn_def createWebSocketConn_def)

section \<open>The dispatcher\<close>

abbreviation demo_mts :: "nat \<Rightarrow> matcher" where
  "demo_mts \<equiv> (\<lambda>k. ClassIs (js (if k = 0 then ''leave'' else ''add'')))"

definition demo_dispatcher :: dispatcher where
  "demo_dispatcher = \<lparr>decoder = NullDecoder,
     routes = map (\<lambda>k. \<lparr>route_id = k, matcher = demo_mts k, handler = UserHandler k\<rparr>) [0, 1], next_route = 2\<rparr>"

theorem dispatch_first_match_witness:
  "dispatch demo_host (\<lambda>n obj hs d. (Inl (Thrown n), d)) demo_message demo_dispatcher = (Inl (Thrown 1), demo_dispatcher)"
proof -
  let ?r = "\<lambda>k. \<lparr>route_id = k, matcher = demo_mts k, handler = UserHandler k\<rparr>"
  have ne: "js ''add'' \<noteq> js ''leave''" by code_simp
  have no: "run_matcher demo_host (matcher r) demo_message = Inr False" if "r \<in> set [?r 0]" for r
    using that ne by (simp add: run_matcher_def demo_message_def header_of_def obj_simps)
  have yes: "run_matcher demo_host (matcher (?r 1)) demo_message = Inr True"
    by (simp add: run_matcher_def demo_message_def header_of_def obj_simps)
  have rs: "routes demo_dispatcher = [?r 0] @ ?r 1 # []" by (simp add: demo_dispatcher_def)
  from dispatch_first_match [where pre = "[?r 0]" and d = demo_dispatcher and r = "?r 1" and post = "[]"
      and run_handler = "\<lambda>n obj hs d. (Inl (Thrown n), d)", OF no] yes rs
  show ?thesis by (simp add: demo_dispatcher_def run_decoder_def nullDecoder_def call_handler_def)
qed

definition demo_json :: message where
  "demo_json = \<lparr>headers = [(header_name Header_Class, js ''add''), (header_name Header_Type, js ''application/json'')],
     body = mk_blob (utf8_encode (js ''null''))\<rparr>"

definition demo_source :: subscriber_source where
  "demo_source = [(js ''onAdd'', Prefixed (js ''add'') 1)]"

theorem named_subscriber_delivers_witness:
  "\<exists>d subs. createRpcEventDispatcher (SourceArg demo_source) None = Inr (d, Some subs) \<and>
     obj_get subs (js ''onAdd'') = Some (js ''add'', 1) \<and>
     fst (dispatch demo_host (\<lambda>n obj hs d. (Inl (Thrown n), d)) demo_json (snd (subscribe (js ''add'', 1) 8 d))) =
       Inl (Thrown 8)"
proof -
  have wf: "obj_wf demo_source" and g: "obj_get demo_source (js ''onAdd'') = Some (Prefixed (js ''add'') 1)"
    by (simp_all add: demo_source_def obj_simps)
  obtain d subs where c: "createRpcEventDispatcher (SourceArg demo_source) None = Inr (d, Some subs)"
    using createRpcEventDispatcher_source [OF wf] by blast
  have split: "splitPrefix (js ''onAdd'') (Prefixed (js ''add'') (1::nat)) = (js ''add'', 1)" by simp
  have "header_of demo_json Header_Class = Some (js ''add'')" by (simp add: demo_json_def header_of_def obj_simps)
  moreover have "wf_utf16 (js ''null'')" "js ''null'' = [] \<or> hd (js ''null'') \<noteq> 0xFEFF" by code_simp+
  then have "createDecoder demo_host [ContentTypes_json] demo_json = Inr (JString (js ''null''))"
    by (simp add: demo_json_def createDecoder_def header_of_def obj_simps json_unmarshal_def blob_text_def
        utf8_decode_encode) (simp add: demo_host_def)
  moreover have "user_guard demo_host 1 (JString (js ''null''))" by (simp add: demo_host_def)
  ultimately show ?thesis
    using named_subscriber_delivers [OF wf g split c, of demo_host "\<lambda>n obj hs d. (Inl (Thrown n), d)" demo_json 8] c
    by simp
qed

section \<open>The reactor, the methods and the logger\<close>

definition demo_reactor :: "unit reactor" where
  "demo_reactor = createRpcReactor demo_ids ()"

abbreviation demo_on_event :: "message \<Rightarrow> unit \<Rightarrow> unit result \<times> unit" where
  "demo_on_event \<equiv> (\<lambda>m d. (Inr (), d))"

abbreviation demo_reactor_options :: reactor_options where
  "demo_reactor_options \<equiv> \<lparr>opt_encoder = Absent, opt_decoder = Absent\<rparr>"

definition demo_called :: "unit reactor" where
  "demo_called = demo_reactor\<lparr>ids := \<lparr>sessionId = 7, nextId = 1\<rparr>, triplets := [Pending], calls := [(js ''7.1'', 0)],
     written := [demo_request]\<rparr>"

lemma demo_reactor_reach: "reach (reactor_start 7) (reactor_step demo_host demo_reactor_options demo_on_event) demo_reactor"
  by (rule reach_start) (auto simp: reactor_start_def demo_reactor_def demo_ids_def)

lemma demo_call_send:
  "call_send demo_host demo_reactor_options (js ''ping'') JUndefined demo_reactor = (Inr 0, demo_called)"
  using demo_request_created
  by (simp add: call_send_def demo_reactor_def createRpcReactor_def demo_called_def newPromiseTriplet_def
      demo_request_def id_key_def header_of_def obj_simps)

lemma demo_called_reach: "reach (reactor_start 7) (reactor_step demo_host demo_reactor_options demo_on_event) demo_called"
  using reach_step [OF demo_reactor_reach step_call, of "js ''ping''" JUndefined] demo_call_send by simp

lemma demo_next: "nextId (ids demo_called) < 2 ^ 53"
  by (simp add: demo_called_def)

theorem response_settles_its_call_witness:
  "triplets (run_turn demo_host demo_on_event (Inr demo_request) demo_called) = [Fulfilled demo_request]"
proof -
  have "obj_get (calls demo_called) (js ''7.1'') = Some 0" "obj_wf (headers demo_request)"
    "header_of demo_request Header_ID = Some (js ''7.1'')"
    by (simp_all add: demo_called_def demo_request_def header_of_def obj_simps)
  from response_settles_its_call [OF demo_called_reach demo_next this(1,2,3,2,3)] show ?thesis
    by (simp add: Let_def demo_called_def)
qed

theorem outstanding_calls_exact_witness: "0 \<in> snd ` set (calls demo_called) \<and> triplets demo_called ! 0 = Pending"
  using outstanding_calls_exact [OF demo_called_reach demo_next] by (simp add: demo_called_def)

section \<open>The client over its connection\<close>

abbreviation demo_client_step :: "unit rpc_conn \<Rightarrow> unit rpc_conn \<Rightarrow> bool" where
  "demo_client_step \<equiv> client_step demo_host demo_reactor_options demo_once_settings True demo_on_event"

abbreviation demo_client_reach :: "unit rpc_conn \<Rightarrow> bool" where
  "demo_client_reach \<equiv> reach (client_start (\<lambda>u. True) demo_once 7) demo_client_step"

definition demo_client :: "unit rpc_conn" where
  "demo_client = connect_client demo_ids () demo_pconn"

lemma demo_client_parts: "link demo_client = demo_pconn_read" "core demo_client = demo_reactor"
  "waiting demo_client = Some (Inr 0)"
  by (simp_all add: demo_client_def connect_client_def loop_read_parts demo_pconn_read_def demo_reactor_def)
    (simp_all add: demo_pconn_defs newPromiseTriplet_def)

lemma demo_client_conn: "conn (link demo_client) = snd (conn_read createWebSocketConn)"
  by (simp add: demo_client_def connect_client_def loop_read_parts demo_pconn_def)

lemma demo_client_starts: "client_start (\<lambda>u. True) demo_once 7 demo_client"
proof -
  have "pconn_start (\<lambda>u. True) demo_once demo_pconn"
    by (simp add: pconn_start_def persistent_conn_def createPersistentWebSocket_def demo_pconn_def)
  then show ?thesis by (auto simp: client_start_def demo_client_def demo_ids_def)
qed

lemma demo_client_start: "demo_client_reach demo_client"
  by (rule reach_start) (rule demo_client_starts)

text \<open>The client after a call, and the response to it.\<close>

definition demo_client_called :: "unit rpc_conn" where
  "demo_client_called = snd (client_call demo_host demo_reactor_options (js ''ping'') JUndefined demo_client)"

lemma demo_client_called_parts: "core demo_client_called = demo_called" "waiting demo_client_called = Some (Inr 0)"
  "conn (link demo_client_called) = snd (conn_read createWebSocketConn)"
  by (simp_all add: demo_client_called_def client_call_parts demo_client_conn)
    (simp_all add: demo_client_parts demo_call_send)

lemma demo_client_called_reach: "demo_client_reach demo_client_called"
  unfolding demo_client_called_def by (rule reach_step [OF demo_client_start client_step.call])

theorem client_runs_reactor_witness:
  "core demo_client_called =
     reactor_run demo_host demo_reactor_options demo_on_event [Called (js ''ping'') JUndefined] (core demo_client) \<and>
   waiting demo_client_called = Some (Inr 0) \<and>
   mset (ws_sent (writer (link demo_client_called)) @ map snd (buffering (writer (link demo_client_called)))) =
     mset [blob_bytes (createBlobFromMessage demo_request)]"
proof -
  have "client_run demo_host demo_reactor_options demo_once_settings True demo_on_event demo_client
      ([] @ [Called (js ''ping'') JUndefined]) demo_client_called"
    unfolding demo_client_called_def by (rule c_call, rule c_start)
  note run = client_runs_reactor [OF demo_client_starts this]
  have "written (core demo_client_called) = [demo_request]" by (simp add: demo_client_called_parts demo_called_def)
  then have "map (\<lambda>m. blob_bytes (createBlobFromMessage m)) (written (core demo_client_called)) =
      [blob_bytes (createBlobFromMessage demo_request)]" by simp
  with run demo_client_called_parts(2) show ?thesis by (simp only: append_Nil)
qed

lemma demo_first_read:
  "fstate (exch (snd (conn_read createWebSocketConn))) = [Pending]" "parsing (snd (conn_read createWebSocketConn)) = []"
  by (simp_all add: demo_pconn_defs newPromiseTriplet_def)

lemma demo_client_called_waits:
  "method_call demo_host demo_reactor_options (js ''ping'') JUndefined demo_client = (Inr 0, demo_client_called)"
  "nextId (ids (core demo_client_called)) < 2 ^ 53" "ended (core demo_client_called) = None"
  "loop_input demo_client_called = None" "parsing (conn (link demo_client_called)) = []"
proof -
  have "call_send demo_host demo_reactor_options (js ''ping'') JNoContent demo_reactor = (Inr 0, demo_called)"
    using demo_call_send by (simp add: call_send_def)
  with demo_call_send
  show "method_call demo_host demo_reactor_options (js ''ping'') JUndefined demo_client = (Inr 0, demo_client_called)"
    by (simp add: demo_client_called_def method_call_def method_content_def client_call_def demo_client_parts)
  show "nextId (ids (core demo_client_called)) < 2 ^ 53" "ended (core demo_client_called) = None"
    by (simp_all add: demo_client_called_parts demo_next)
      (simp_all add: demo_called_def demo_reactor_def createRpcReactor_def)
  show "loop_input demo_client_called = None" "parsing (conn (link demo_client_called)) = []"
    by (simp_all add: loop_input_def demo_client_called_parts demo_first_read promise_at_def)
qed

text \<open>The answer of a peer: two lines in different spelling, the first with a carriage return, and a blank error.\<close>

definition demo_peer_lines :: "((jsstring \<times> jsstring) \<times> bool) list" where
  "demo_peer_lines = [((js ''interop-rpc-id'', js ''7.1''), True), ((js ''INTEROP-ERROR'', []), False),
     ((js ''Content-Length'', js ''0''), False)]"

definition demo_peer_response :: blob where
  "demo_peer_response = mk_blob (peer_headers demo_peer_lines @ eol True @ [] @ eol False)"

lemma demo_peer_facts: "peer_lines demo_peer_lines"
  "obj_get (canonical_headers demo_host demo_peer_lines) (header_name Header_ID) = Some (js ''7.1'')"
  "obj_get (canonical_headers demo_host demo_peer_lines) (header_name Header_Error) = Some []"
  "obj_get (canonical_headers demo_host demo_peer_lines) (header_name Header_Length) = Some (dec_string 0)"
  by code_simp+

theorem parse_peer_message_witness:
  "parseMessageFromBlob demo_host demo_peer_response =
     Inr \<lparr>headers = canonical_headers demo_host demo_peer_lines, body = mk_blob []\<rparr>"
  using parse_peer_message [of demo_peer_lines demo_peer_response True "[]" False demo_host] demo_peer_facts
  by (simp add: demo_peer_response_def)

text \<open>The owner closes the socket; and the only attempt to connect fails.\<close>

definition demo_client_closing :: "unit rpc_conn" where
  "demo_client_closing = on_link (demo_pconn_task (Client [ApiClose None None]))
     (on_link (demo_pconn_task (SockOpen 0 JNull)) demo_client)"

definition demo_client_closed :: "unit rpc_conn" where
  "demo_client_closed = on_link (demo_pconn_task (SockClose 0 JNull)) demo_client_closing"

definition demo_client_lost :: "unit rpc_conn" where
  "demo_client_lost = on_link (demo_pconn_task (SockClose 0 JNull)) demo_client"

lemma demo_client_closed_state:
  "closed (conn (link demo_client_closed))" "enabled (SockClose 0 JNull) (ws (link demo_client_closing))"
  "enabled (SockOpen 0 JNull) (ws (link demo_client))"
  by (simp_all add: demo_client_closed_def demo_client_closing_def demo_client_parts)
    (simp_all add: demo_pconn_defs pws_run_defs demo_event_eqs obj_get_def)

lemma demo_client_reaches: "demo_client_reach demo_client_closed" "demo_client_reach demo_client_lost"
proof -
  have "demo_client_reach (on_link (demo_pconn_task (SockOpen 0 JNull)) demo_client)"
    by (rule reach_step [OF demo_client_start client_step.event [OF _ demo_client_closed_state(3)]]) simp
  then have "demo_client_reach demo_client_closing"
    unfolding demo_client_closing_def by (rule reach_step) (rule client_step.shut, simp)
  then show "demo_client_reach demo_client_closed"
    unfolding demo_client_closed_def
    by (rule reach_step) (rule client_step.event [OF _ demo_client_closed_state(2)], simp)
  have "enabled (SockClose 0 JNull) (ws (link demo_client))"
    unfolding demo_client_parts by (rule demo_given_up_state(5))
  then show "demo_client_reach demo_client_lost"
    unfolding demo_client_lost_def by (intro reach_step [OF demo_client_start client_step.event]) simp_all
qed

theorem closed_connection_ends_client_witness:
  "\<not> running (core (loop_turn demo_host demo_on_event (loop_turn demo_host demo_on_event demo_client_closed)))"
  by (rule closed_connection_ends_client [OF demo_client_reaches(1) demo_client_closed_state(1)])

theorem given_up_client_hangs_witness:
  "running (core (snd (client_call demo_host demo_reactor_options (js ''ping'') JUndefined demo_client_lost)))"
proof -
  have lost: "link demo_client_lost = demo_given_up" "waiting demo_client_lost = Some (Inr 0)"
    "core demo_client_lost = demo_reactor"
    by (simp_all add: demo_client_lost_def demo_client_parts demo_given_up_def)
  then have "down (ws (link demo_client_lost))" "parsing (conn (link demo_client_lost)) = []"
    "loop_input demo_client_lost = None" "ended (core demo_client_lost) = None"
    by (simp_all add: demo_given_up_state loop_input_def promise_at_def demo_reactor_def createRpcReactor_def)
  moreover have "demo_client_step\<^sup>*\<^sup>* demo_client_lost
      (snd (client_call demo_host demo_reactor_options (js ''ping'') JUndefined demo_client_lost))"
    by (rule r_into_rtranclp) (rule client_step.call)
  ultimately show ?thesis using given_up_client_hangs [OF demo_client_reaches(2)] by blast
qed

section \<open>A connection over a plain socket\<close>

definition demo_plain :: plain where
  "demo_plain = \<lparr>plain_sock = \<lparr>sstate = SConnecting, binaryType = js ''blob'', timeout = False, onerror = False, sent = []\<rparr>,
     plain_conn = createWebSocketConn, plain_writer = createWebSocketWriter, write_results = []\<rparr>"

definition demo_plain_read :: plain where
  "demo_plain_read = demo_plain\<lparr>plain_conn := snd (conn_read (plain_conn demo_plain))\<rparr>"

theorem plain_conn_closes_with_socket_witness:
  "closed (plain_conn (plain_close demo_plain_read)) \<and> fstate (exch (plain_conn demo_plain_read)) = [Pending] \<and>
   Pending \<notin> set (fstate (exch (plain_conn (plain_close demo_plain_read)))) \<and>
   \<not> closed (plain_conn (demo_plain\<lparr>plain_sock := (plain_sock demo_plain)\<lparr>sstate := SClosed\<rparr>\<rparr>))"
proof -
  have start: "plain_start demo_plain" "plain_start (demo_plain\<lparr>plain_sock := (plain_sock demo_plain)\<lparr>sstate := SClosed\<rparr>\<rparr>)"
    by (simp_all add: plain_start_def demo_plain_def)
  have "plain_step demo_host demo_plain demo_plain_read"
    unfolding demo_plain_read_def by (rule plain_step.p_read)
  moreover have "plain_step demo_host demo_plain_read (plain_close demo_plain_read)"
    by (rule plain_step.p_close) (simp add: demo_plain_read_def demo_plain_def live_def)
  ultimately have "(plain_step demo_host)\<^sup>*\<^sup>* demo_plain (plain_close demo_plain_read)" by (blast intro: rtranclp.intros)
  from plain_conn_closes_with_socket [OF start(1) this] plain_conn_closes_with_socket [OF start(2) rtranclp.rtrancl_refl]
    demo_first_read(1)
  show ?thesis by (simp add: plain_close_parts demo_plain_read_def demo_plain_def)
qed

section \<open>Dispatches in flight\<close>

abbreviation demo_throwing :: "unit handler_code" where
  "demo_throwing \<equiv> (\<lambda>n obj hs d. (Inl (Thrown n), d))"

definition demo_flight_route :: route where
  "demo_flight_route = \<lparr>route_id = 0, matcher = ClassIs (js ''add''), handler = UserHandler 5\<rparr>"

text \<open>The route was subscribed, a message dispatched, and the route unsubscribed again.\<close>

definition demo_subscribed :: flights where
  "demo_subscribed = \<lparr>disp = \<lparr>decoder = NullDecoder, routes = [demo_flight_route], next_route = 1\<rparr>, inflight = [], outcomes = []\<rparr>"

definition demo_flying :: flights where
  "demo_flying = demo_subscribed\<lparr>inflight := [(0, demo_flight_route, demo_message)], outcomes := [Pending]\<rparr>"

definition demo_unsubscribed :: flights where
  "demo_unsubscribed = demo_flying\<lparr>disp := unsubscribe 0 (disp demo_flying)\<rparr>"

lemma demo_flight_reach: "reach (flights_start NullDecoder) (flight_step demo_host demo_throwing) demo_unsubscribed"
proof -
  let ?s = "\<lparr>disp = createDecodingDispatcher NullDecoder, inflight = [], outcomes = []\<rparr>"
  have "reach (flights_start NullDecoder) (flight_step demo_host demo_throwing) ?s"
    by (rule reach_start) (simp add: flights_start_def)
  then have "reach (flights_start NullDecoder) (flight_step demo_host demo_throwing)
      (?s\<lparr>disp := snd (handle (ClassIs (js ''add'')) (UserHandler 5) (disp ?s))\<rparr>)"
    by (rule reach_step) (rule flight_step.subscribes)
  then have "reach (flights_start NullDecoder) (flight_step demo_host demo_throwing) demo_subscribed"
    by (simp add: demo_subscribed_def demo_flight_route_def handle_def createDecodingDispatcher_def)
  then have "reach (flights_start NullDecoder) (flight_step demo_host demo_throwing)
      (snd (dispatch_start demo_host demo_message demo_subscribed))"
    by (rule reach_step) (rule flight_step.starts)
  then have "reach (flights_start NullDecoder) (flight_step demo_host demo_throwing) demo_flying"
    by (simp add: dispatch_start_def newPromiseTriplet_def demo_subscribed_def demo_flying_def demo_flight_route_def
        run_matcher_def demo_message_def header_of_def obj_simps)
  then show ?thesis unfolding demo_unsubscribed_def by (rule reach_step) (rule flight_step.unsubscribes)
qed

theorem in_flight_delivered_once_witness:
  "routes (disp demo_unsubscribed) = [] \<and>
   promise_at (outcomes (dispatch_resume demo_host demo_throwing 0 demo_unsubscribed)) 0 = Rejected (Thrown 5)"
proof -
  have "(0, demo_flight_route, demo_message) \<in> set (inflight demo_unsubscribed)"
    by (simp add: demo_unsubscribed_def demo_flying_def)
  from in_flight_delivered_once [OF demo_flight_reach this rtranclp.rtrancl_refl]
  show ?thesis
    by (simp add: deliver_def demo_unsubscribed_def demo_flying_def demo_subscribed_def demo_flight_route_def
        unsubscribe_def splice1_def run_decoder_def nullDecoder_def call_handler_def)
qed

section \<open>The suspended run loop\<close>

abbreviation demo_loop_reach :: "run_state \<Rightarrow> bool" where
  "demo_loop_reach \<equiv> reach (loop_start 7 NullDecoder) (loop_step demo_host demo_reactor_options demo_throwing)"

text \<open>The loop took an event whose handler throws, and then took up the outcome of its dispatch.\<close>

definition demo_loop_idle :: run_state where
  "demo_loop_idle = \<lparr>table = createRpcReactor \<lparr>sessionId = 7, nextId = 0\<rparr> (), air = demo_subscribed, serving = None, served = []\<rparr>"

definition demo_loop_taken :: run_state where
  "demo_loop_taken = demo_loop_idle\<lparr>air := demo_flying, serving := Some 0, served := [0]\<rparr>"

definition demo_loop_failed :: run_state where
  "demo_loop_failed = turn_resume (demo_loop_taken\<lparr>air := dispatch_resume demo_host demo_throwing 0 demo_flying\<rparr>)"

lemma demo_dispatch_start: "dispatch_start demo_host demo_message demo_subscribed = (0, demo_flying)"
  by (simp add: dispatch_start_def newPromiseTriplet_def demo_subscribed_def demo_flying_def demo_flight_route_def
      run_matcher_def demo_message_def header_of_def obj_simps)

lemma demo_loop_failed_parts: "table demo_loop_failed = (table demo_loop_idle)\<lparr>ended := Some (Thrown 5)\<rparr>"
  "served demo_loop_failed = [0]" "serving demo_loop_failed = None"
  by (simp_all add: demo_loop_failed_def demo_loop_taken_def demo_loop_idle_def turn_resume_def dispatch_resume_def
      deliver_def demo_flying_def demo_subscribed_def demo_flight_route_def run_decoder_def nullDecoder_def
      call_handler_def promise_at_def settle_def)

definition demo_loop_fresh :: run_state where
  "demo_loop_fresh = demo_loop_idle\<lparr>air := \<lparr>disp = createDecodingDispatcher NullDecoder, inflight = [], outcomes = []\<rparr>\<rparr>"

lemma demo_loop_start: "loop_start 7 NullDecoder demo_loop_fresh"
  by (auto simp: demo_loop_fresh_def loop_start_def flights_start_def reactor_start_def demo_loop_idle_def)

lemma demo_loop_failed_run:
  "loop_run demo_host demo_reactor_options demo_throwing demo_loop_fresh [Took (Inr demo_message)] demo_loop_failed"
proof -
  let ?run = "loop_run demo_host demo_reactor_options demo_throwing demo_loop_fresh"
  let ?f = "air demo_loop_fresh"
  have "?run [] (demo_loop_fresh\<lparr>air := ?f\<lparr>disp := snd (handle (ClassIs (js ''add'')) (UserHandler 5) (disp ?f))\<rparr>\<rparr>)"
    by (rule r_air, rule r_start, rule flight_step.subscribes)
  then have "?run [] demo_loop_idle"
    by (simp add: demo_loop_fresh_def demo_loop_idle_def demo_subscribed_def demo_flight_route_def handle_def createDecodingDispatcher_def)
  then have "?run ([] @ [Took (Inr demo_message)]) (turn_start demo_host (Inr demo_message) demo_loop_idle)"
    by (rule r_take) (simp_all add: demo_loop_idle_def createRpcReactor_def)
  moreover have "takes_event demo_message" by code_simp
  ultimately have "?run [Took (Inr demo_message)] demo_loop_taken"
    by (simp add: turn_start_def demo_loop_taken_def demo_dispatch_start demo_loop_idle_def)
  then have "?run [Took (Inr demo_message)] (demo_loop_taken\<lparr>air := dispatch_resume demo_host demo_throwing 0 demo_flying\<rparr>)"
    by (rule r_air) (simp add: demo_loop_taken_def flight_step.resumes)
  then show ?thesis unfolding demo_loop_failed_def by (rule r_resume)
qed

lemma demo_loop_failed_reach: "demo_loop_reach demo_loop_failed"
  by (rule reach_steps [OF loop_run_steps [OF demo_loop_failed_run]]) (rule reach_start, rule demo_loop_start)

theorem suspended_loop_refines_reactor_witness:
  "ended (reactor_run demo_host demo_reactor_options next_outcome [Took (Inr demo_message)]
     (createRpcReactor (ids (table demo_loop_fresh))
       (map (\<lambda>k. case promise_at (outcomes (air demo_loop_failed)) k of Rejected e \<Rightarrow> Inl e | _ \<Rightarrow> Inr ()) [0]))) =
   Some (Thrown 5)"
  using suspended_loop_refines_reactor [OF demo_loop_start demo_loop_failed_run]
  unfolding Let_def demo_loop_failed_parts by simp

theorem events_served_in_order_witness:
  "promise_at (outcomes (air demo_loop_failed)) 0 = Fulfilled () \<or>
   (\<exists>e. ended (table demo_loop_failed) = Some e \<and> promise_at (outcomes (air demo_loop_failed)) 0 = Rejected e)"
  using events_served_in_order [OF demo_loop_failed_reach, of 0] by (auto simp: demo_loop_failed_parts)

section \<open>The logger\<close>

abbreviation demo_logger_step :: "pconn logged \<Rightarrow> pconn logged \<Rightarrow> bool" where
  "demo_logger_step \<equiv> logger_step demo_host pconn_read conn_write pconn_value demo_pconn_step"

text \<open>A read of the logger whose message has arrived on the inner connection.\<close>

definition demo_inner_open :: pconn where
  "demo_inner_open = demo_pconn_task (SockOpen 0 JNull) demo_pconn_read"

definition demo_inner_message :: pconn where
  "demo_inner_message = demo_pconn_task (SockMessage 0 (JBlob demo_blob)) demo_inner_open"

definition demo_inner_parsed :: pconn where
  "demo_inner_parsed = parse_done demo_host 0 demo_inner_message"

definition demo_logged :: "pconn \<Rightarrow> pconn logged" where
  "demo_logged l = \<lparr>inner = l, level = js ''info'', outer = [Pending], reads = [Inr 0], writes = [], lines = []\<rparr>"

lemma demo_inner_open_state:
  "enabled (SockOpen 0 JNull) (ws demo_pconn_read)" "enabled (SockMessage 0 (JBlob demo_blob)) (ws demo_inner_open)"
  "conn demo_inner_open = snd (conn_read createWebSocketConn)" "wired (ws demo_inner_open)"
proof -
  show "enabled (SockOpen 0 JNull) (ws demo_pconn_read)" "enabled (SockMessage 0 (JBlob demo_blob)) (ws demo_inner_open)"
    "conn demo_inner_open = snd (conn_read createWebSocketConn)"
    by (simp_all add: demo_inner_open_def demo_pconn_defs pws_run_defs demo_event_eqs obj_get_def)
  have "wired (ws demo_pconn)" by (rule wiring.inv_reach [OF demo_pconn_reach])
  then show "wired (ws demo_inner_open)"
    by (simp add: demo_inner_open_def ws_task_def Let_def wired_browser demo_pconn_read_def)
qed

lemma demo_inner_value: "pconn_value demo_inner_parsed 0 = Fulfilled demo_parsed"
proof -
  have "conn demo_inner_message = snd (on_message (JBlob demo_blob) (conn demo_inner_open))"
    unfolding demo_inner_message_def by (rule wired_conn(1) [OF demo_inner_open_state(4)])
  then have "exch (conn demo_inner_parsed) = pe_give demo_parsed (exch (snd (conn_read createWebSocketConn)))"
    using demo_inner_open_state(3) demo_first_read(2)
    by (simp add: demo_inner_parsed_def on_message_def on_parsed_def demo_blob_parsed)
      (simp add: createWebSocketConn_def conn_read_def split_beta on_parsed_def demo_blob_parsed)
  then show ?thesis
    by (simp add: pconn_value_def)
      (simp add: demo_pconn_defs newPromiseTriplet_def pe_give_def exch_give_def settle_def promise_at_def)
qed

lemma demo_logger_reach:
  "reach (logger_start (pconn_start (\<lambda>u. True) demo_once) None) demo_logger_step (demo_logged demo_inner_parsed)"
proof -
  let ?reach = "reach (logger_start (pconn_start (\<lambda>u. True) demo_once) None) demo_logger_step"
  have "pconn_start (\<lambda>u. True) demo_once demo_pconn"
    by (simp add: pconn_start_def persistent_conn_def createPersistentWebSocket_def demo_pconn_def)
  then have "?reach (createRpcLogger demo_pconn None)"
    by (intro reach_start) (auto simp: logger_start_def)
  then have "?reach (snd (logger_read pconn_read (createRpcLogger demo_pconn None)))"
    by (rule reach_step) (rule logger_step.log_reads)
  moreover have "snd (logger_read pconn_read (createRpcLogger demo_pconn None)) = demo_logged demo_pconn_read"
    by (simp add: logger_read_def createRpcLogger_def demo_logged_def pconn_read_def demo_pconn_read_def split_beta)
      (simp add: demo_pconn_defs newPromiseTriplet_def)
  ultimately have read: "?reach (demo_logged demo_pconn_read)" by simp
  have evolve: "?reach (demo_logged l) \<Longrightarrow> demo_pconn_step l l' \<Longrightarrow> ?reach (demo_logged l')" for l l'
    using reach_step [of _ demo_logger_step "demo_logged l" "demo_logged l'"]
      logger_step.log_inner [of demo_pconn_step "demo_logged l" l' demo_host pconn_read conn_write pconn_value]
    by (simp add: demo_logged_def)
  have "demo_pconn_step demo_pconn_read demo_inner_open"
    unfolding demo_inner_open_def by (rule pconn_step.browser [OF _ demo_inner_open_state(1)]) simp
  moreover have "demo_pconn_step demo_inner_open demo_inner_message"
    unfolding demo_inner_message_def by (rule pconn_step.browser [OF _ demo_inner_open_state(2)]) simp
  moreover have "demo_pconn_step demo_inner_message demo_inner_parsed"
    unfolding demo_inner_parsed_def by (rule pconn_step.parsed)
  ultimately show ?thesis using evolve read by blast
qed

theorem logger_transparent_witness:
  "promise_at (outer (logger_deliver demo_host pconn_value 0 (demo_logged demo_inner_parsed))) 0 = Fulfilled demo_parsed"
  using logger_transparent [OF demo_logger_reach, of 0] demo_inner_value
  by (simp add: demo_logged_def read_value_def)

end
