(* ===== verification/Spec_Cases.thy ===== *)
theory Spec_Cases
  imports Wire_Roundtrip Exchange Event_Target Dispatcher
begin

text \<open>
  The cases of the repository's own tests (the files *.spec.ts of js/src), replayed on the
  definitions: what the tests expect of the program, the kernel computes of the model.
\<close>

section \<open>Exchange.spec.ts\<close>

abbreviation count_up :: "nat \<Rightarrow> nat \<times> nat" where
  "count_up i \<equiv> (i, i + 1)"

abbreviation counted :: "xop list \<Rightarrow> (xop \<times> nat) list \<times> (nat, nat) exchange" where
  "counted ps \<equiv> run_ops (exch_give count_up) (exch_take count_up) ps (newExchange 0)"

lemma spec_double_sided_buffer:
  "map snd (fst (counted [Give, Take, Take, Give, Give, Give, Give, Take, Give, Take])) = [0, 0, 1, 1, 2, 3, 4, 2, 5, 3]"
  by code_simp

lemma spec_inspectable:
  "last (fst (counted [Give, Give, Give, Take])) = (Take, 0)"
  "exch_given (snd (counted [Give, Give, Give, Take])) = [1, 2]"
  "exch_taken (snd (counted [Give, Give, Give, Take])) = []"
  "exch_given (snd (counted [Give, Give, Give, Take, Take, Take, Take])) = []"
  "exch_taken (snd (counted [Give, Give, Give, Take, Take, Take, Take])) = [3]"
  by code_simp+

section \<open>createConstrainedEventTarget.spec.ts\<close>

text \<open>The one listener appends the event's detail to the result; \<open>target.more\<close> holds the result.\<close>

definition append_detail :: "(nat, string, string list) listener_code" where
  "append_detail l e t = (Inr (), e, target.extend (target.truncate t) (target.more t @ [event.more e]))"

definition append_event :: "string \<Rightarrow> string event_scheme" where
  "append_event detail = \<lparr>event_type = js ''append'', defaultPrevented = False, \<dots> = detail\<rparr>"

definition dispatched :: "string \<Rightarrow> (nat, string list) target_scheme \<Rightarrow> (nat, string list) target_scheme" where
  "dispatched detail t = snd (snd (dispatchEvent append_detail (append_event detail) t))"

definition once_added :: "(nat, string list) target_scheme" where
  "once_added = snd (addEventListener (js ''append'') 0 (ObjectOptions \<lparr>capture = None, once = Some True\<rparr>)
     \<lparr>listeners = [], \<dots> = []\<rparr>)"

lemma spec_once:
  "target.more (dispatched ''bar'' (dispatched ''foo'' once_added)) = [''foo'']"
  "target.more (dispatched ''bar'' (dispatched ''foo'' (snd (addEventListener (js ''append'') 1 NoOptions
     (dispatched ''bar'' (dispatched ''foo'' once_added)))))) = [''foo'', ''foo'', ''bar'']"
  by code_simp+

section \<open>createBlobFromMessage.spec.ts and parseMessageFromBlob.spec.ts\<close>

abbreviation NL :: string where
  "NL \<equiv> [CHR 0x0A]"

lemma text_of_ascii: "is_ascii s \<Longrightarrow> blob_bytes b = utf8_encode s \<Longrightarrow> blob_text b = s"
proof -
  assume s: "is_ascii s" "blob_bytes b = utf8_encode s"
  then have "s = [] \<or> hd s \<noteq> 0xFEFF" by (cases s) auto
  with s show ?thesis by (simp add: blob_text_def utf8_decode_encode wf_utf16_ascii)
qed

definition foo_message :: message where
  "foo_message = \<lparr>headers = [(js ''Interop-Rpc-Class'', js ''foo''), (js ''Interop-Rpc-Id'', js ''bar'')],
     body = mk_blob (utf8_encode (js ''baz''))\<rparr>"

lemma spec_message_to_blob:
  "blob_text (createBlobFromMessage foo_message) =
     js (''Interop-Rpc-Class: foo'' @ NL @ ''Interop-Rpc-Id: bar'' @ NL @ NL @ ''baz'' @ NL)"
proof (rule text_of_ascii)
  have "own_order (headers foo_message) = headers foo_message" by code_simp
  then show "blob_bytes (createBlobFromMessage foo_message) =
      utf8_encode (js (''Interop-Rpc-Class: foo'' @ NL @ ''Interop-Rpc-Id: bar'' @ NL @ NL @ ''baz'' @ NL))"
    by (simp add: createBlobFromMessage_def foo_message_def header_part_def utf8_encode_ascii is_ascii_def string_simps)
qed (simp add: is_ascii_def string_simps)

text \<open>The raw message spells \<^verbatim>\<open>Content-length\<close> without its capital, and a value has a colon.\<close>

definition raw_lines :: "((jsstring \<times> jsstring) \<times> bool) list" where
  "raw_lines = [((js ''Content-Type'', js ''application/json''), False), ((js ''Content-length'', js ''13''), False),
     ((js ''Thing'', js ''with:colon''), False)]"

definition raw_body :: string where
  "raw_body = ''{'' @ [CHR 0x22] @ ''foo'' @ [CHR 0x22] @ '':'' @ [CHR 0x22] @ ''bar'' @ [CHR 0x22] @ ''}''"

definition raw_message :: blob where
  "raw_message = mk_blob (utf8_encode (js (''Content-Type: application/json'' @ NL @ ''Content-length: 13'' @ NL @
     ''Thing: with:colon'' @ NL @ NL @ raw_body @ NL)))"

lemma spec_parse_regular:
  "parseMessageFromBlob u raw_message = Inr
     \<lparr>headers = [(js ''Content-Type'', js ''application/json''), (js ''Content-Length'', js ''13''),
        (js ''Thing'', js ''with:colon'')],
      body = mk_blob (utf8_encode (js raw_body))\<rparr>"
proof -
  have lines: "peer_lines raw_lines" by code_simp
  have keys: "canonicalizeKey u (js ''Content-Type'') = js ''Content-Type''"
    "canonicalizeKey u (js ''Content-length'') = js ''Content-Length''" "canonicalizeKey u (js ''Thing'') = js ''Thing''"
    by code_simp+
  have can: "canonical_headers u raw_lines =
      [(js ''Content-Type'', js ''application/json''), (js ''Content-Length'', js ''13''), (js ''Thing'', js ''with:colon'')]"
  proof -
    have "distinct [js ''Content-Type'', js ''Content-Length'', js ''Thing'']" by code_simp
    then show ?thesis by (simp add: canonical_headers_def raw_lines_def keys obj_assign_empty)
  qed
  have bytes: "blob_bytes raw_message = peer_headers raw_lines @ eol False @ utf8_encode (js raw_body) @ eol False"
    by (simp add: raw_message_def raw_lines_def peer_headers_def peer_part_def header_line_def eol_def
        utf8_encode_ascii is_ascii_def string_simps raw_body_def)
  have "obj_get (canonical_headers u raw_lines) (header_name Header_Length) =
      Some (dec_string (length (utf8_encode (js raw_body))))"
  proof -
    have "header_name Header_Length \<noteq> js ''Content-Type''" "header_name Header_Length \<noteq> js ''Thing''"
      "header_name Header_Length = js ''Content-Length''" "js ''13'' = dec_string 13"
      by code_simp+
    moreover have "length (utf8_encode (js raw_body)) = 13"
      by (simp add: raw_body_def utf8_encode_ascii is_ascii_def string_simps)
    ultimately show ?thesis by (simp add: can obj_simps)
  qed
  from parse_peer_exact [OF lines bytes this] show ?thesis by (simp add: can)
qed

section \<open>createRpcRequestMessage.spec.ts\<close>

text \<open>The test expects nine digits before the dot, which holds for the sessions from 10^8 on.\<close>

lemma length_dec_string: "10 ^ k \<le> n \<Longrightarrow> n < 10 ^ Suc k \<Longrightarrow> length (dec_string n) = Suc k"
proof (induction k arbitrary: n)
  case 0
  then show ?case by (simp add: dec_string.simps)
next
  case (Suc k)
  have "(1 :: nat) \<le> 10 ^ k" by simp
  then have "\<not> n < 10" using Suc.prems(1) by (simp only: power_Suc)
  moreover have "10 ^ k \<le> n div 10" "n div 10 < 10 ^ Suc k" using Suc.prems by auto
  ultimately show ?case using Suc.IH [of "n div 10"] by (simp add: dec_string.simps [of n])
qed

lemma spec_class_name_only:
  assumes "10 ^ 8 \<le> session" and "session < 10 ^ 9"
  shows "\<exists>m. fst (createRpcRequestMessage h \<lparr>sessionId = session, nextId = 0\<rparr> (js ''booyaa'') []) = Inr m \<and>
     isRpcRequestMessage (message_val m) \<and> messageError h m = None \<and> messageClass h m = Some (js ''booyaa'') \<and>
     messageID h m = Some (dec_string session @ [46] @ dec_string 1) \<and> length (dec_string session) = 9"
proof -
  have "createMessageBase h [] = Inr empty_message" using createMessage_overloads [of "[]" h] by simp
  then obtain m ids' where m: "createRpcRequestMessage h \<lparr>sessionId = session, nextId = 0\<rparr> (js ''booyaa'') [] = (Inr m, ids')"
    "m = set_header Header_Class (js ''booyaa'') (set_header Header_ID (rpc_id session 1) empty_message)"
    by (simp add: createRpcRequestMessage_def createRpcMessageBase_def js_inc_def)
  have "header_of empty_message Header_Error = None" "obj_wf (headers empty_message)" by (simp_all add: header_of_def obj_simps)
  then show ?thesis
    using m length_dec_string [of 8 session] assms
    by (auto simp: rpc_id_def isRpcRequestMessage_iff guards_message_val)
qed

section \<open>createRpcEventDispatcher.spec.ts\<close>

text \<open>
  The events of the test: persons are added one by one and leave in groups. The guards of the test
  are functions of the host, and so is \<^verbatim>\<open>JSON\<close>, given here on the four values that the test sends.
\<close>

definition person :: "string \<Rightarrow> string \<Rightarrow> jsval" where
  "person f l = JObject [(js ''firstName'', JString (js f)), (js ''lastName'', JString (js l))]"

abbreviation me :: jsval where "me \<equiv> person ''Neil'' ''Pearson''"
abbreviation al :: jsval where "al \<equiv> person ''Albert'' ''Einstein''"

definition isPerson :: "jsval \<Rightarrow> bool" where
  "isPerson obj = (isObj obj \<and> typeof (js_get obj (js ''firstName'')) = ''string'' \<and>
     typeof (js_get obj (js ''lastName'')) = ''string'')"

fun isPeople :: "jsval \<Rightarrow> bool" where
  "isPeople (JArray vs) = list_all isPerson vs"
| "isPeople v = False"

definition json_texts :: "(jsstring \<times> jsval) list" where
  "json_texts = [(js ''0'', me), (js ''1'', al), (js ''2'', JArray [me]), (js ''3'', JArray [al])]"

definition people_host :: host where
  "people_host = \<lparr>uni_upper = (\<lambda>s. s), uni_lower = (\<lambda>s. s),
     json_stringify = (\<lambda>v. Inr (map_option fst (find (\<lambda>p. snd p = v) json_texts))),
     json_parse = (\<lambda>s. case map_of json_texts s of Some v \<Rightarrow> Inr v | None \<Rightarrow> Inl SyntaxErr),
     object_string = (\<lambda>v. Inl TypeErr), user_marshal = (\<lambda>n v. Inl (Thrown n)),
     user_unmarshal = (\<lambda>n b. Inl (Thrown n)), user_guard = (\<lambda>n. if n = 0 then isPerson else isPeople),
     user_match = (\<lambda>n v. Inr False), user_decode = (\<lambda>n v. Inr v), regex_test = (\<lambda>n s. False)\<rparr>"

text \<open>The two handlers, on the list of people that the test keeps beside the dispatcher.\<close>

fun leaves :: "jsval \<Rightarrow> jsval \<Rightarrow> bool" where
  "leaves (JArray vs) x = list_ex (\<lambda>y. js_get y (js ''firstName'') = js_get x (js ''firstName'') \<and>
     js_get y (js ''lastName'') = js_get x (js ''lastName'')) vs"
| "leaves v x = False"

definition people_handler :: "jsval list handler_code" where
  "people_handler n obj hs d =
     (Inr (), dispatcher.extend (dispatcher.truncate d) (if n = 0 then dispatcher.more d @ [obj] else filter (\<lambda>x. \<not> leaves obj x) (dispatcher.more d)))"

definition people_source :: subscriber_source where
  "people_source = [(js ''onAdd'', Prefixed (js ''add'') 0), (js ''onLeave'', Plain 1)]"

definition people_routes :: "bool \<Rightarrow> bool \<Rightarrow> jsval list \<Rightarrow> jsval list dispatcher_scheme" where
  "people_routes a l people = \<lparr>decoder = TypesDecoder [ContentTypes_json],
     routes = (if a then [\<lparr>route_id = 0, matcher = ClassIs (js ''add''), handler = GuardedHandler (js ''add'') 0 0\<rparr>] else []) @
       (if l then [\<lparr>route_id = 1, matcher = ClassIs (js ''onLeave''), handler = GuardedHandler (js ''onLeave'') 1 1\<rparr>] else []),
     next_route = 2, \<dots> = people\<rparr>"

lemma people_created:
  "createRpcEventDispatcher (SourceArg people_source) None =
     Inr (createDecodingDispatcher (TypesDecoder [ContentTypes_json]),
          Some [(js ''onAdd'', (js ''add'', 0)), (js ''onLeave'', (js ''onLeave'', 1))])"
  by code_simp

definition sent_event :: "string \<Rightarrow> jsval \<Rightarrow> message result" where
  "sent_event c v = fst (createRpcRequestMessage people_host \<lparr>sessionId = 7, nextId = 0\<rparr> (js c) [content_type_val ContentTypes_json, v])"

definition after :: "string \<Rightarrow> jsval \<Rightarrow> jsval list dispatcher_scheme \<Rightarrow> jsval list dispatcher_scheme" where
  "after c v d = (case sent_event c v of Inl e \<Rightarrow> d | Inr m \<Rightarrow> snd (dispatch people_host people_handler m d))"

lemma sent_event_parts:
  assumes "json_stringify people_host v = Inr (Some t)" and "v \<noteq> JUndefined"
  obtains m where "sent_event c v = Inr m" "header_of m Header_Class = Some (js c)"
    "header_of m Header_Type = Some (js ''application/json'')" "body m = mk_blob (utf8_encode t)"
proof -
  have "createMessageBase people_host [content_type_val ContentTypes_json, v] =
      Inr (set_header Header_Length (dec_string (blob_size (mk_blob (utf8_encode t))))
        (set_header Header_Type (js ''application/json'') (empty_message\<lparr>body := mk_blob (utf8_encode t)\<rparr>)))"
    using assms by (simp add: createMessageBase_contentType with_content_def json_marshal_def)
  then show ?thesis using that by (simp add: sent_event_def createRpcRequestMessage_ok)
qed

lemma json_text:
  assumes "(t, v) \<in> set json_texts"
  shows "json_stringify people_host v = Inr (Some t)" "json_parse people_host t = Inr v" "v \<noteq> JUndefined" "is_ascii t"
proof -
  have "list_all (\<lambda>(t, v). find (\<lambda>p. snd p = v) json_texts = Some (t, v) \<and> map_of json_texts t = Some v \<and>
      v \<noteq> JUndefined \<and> is_ascii t) json_texts"
    by code_simp
  with assms show "json_stringify people_host v = Inr (Some t)" "json_parse people_host t = Inr v" "v \<noteq> JUndefined" "is_ascii t"
    by (auto simp: people_host_def list_all_iff)
qed

lemma after_people:
  assumes "(t, v) \<in> set json_texts"
  shows "after ''add'' v (people_routes a l people) = people_routes a l (if a \<and> isPerson v then people @ [v] else people)"
    "after ''onLeave'' v (people_routes a l people) =
       people_routes a l (if l \<and> isPeople v then filter (\<lambda>x. \<not> leaves v x) people else people)"
proof -
  note json = json_text [OF assms]
  have ne: "js ''add'' \<noteq> js ''onLeave''" by code_simp
  have dec: "createDecoder people_host [ContentTypes_json] m = Inr v"
    if "header_of m Header_Type = Some (js ''application/json'')" "body m = mk_blob (utf8_encode t)" for m
    using that json text_of_ascii [of t "mk_blob (utf8_encode t)"]
    by (simp add: createDecoder_def json_unmarshal_def)
  have guards: "user_guard people_host 0 = isPerson" "user_guard people_host (Suc 0) = isPeople"
    by (simp_all add: people_host_def)
  note run = after_def dispatch_def run_matcher_def run_decoder_def call_handler_def people_handler_def guards
    dispatcher.defs people_routes_def
  show "after ''add'' v (people_routes a l people) = people_routes a l (if a \<and> isPerson v then people @ [v] else people)"
    by (rule sent_event_parts [OF json(1,3), of "''add''"]) (simp add: run dec ne ne [symmetric])
  show "after ''onLeave'' v (people_routes a l people) =
       people_routes a l (if l \<and> isPeople v then filter (\<lambda>x. \<not> leaves v x) people else people)"
    by (rule sent_event_parts [OF json(1,3), of "''onLeave''"]) (simp add: run dec ne ne [symmetric])
qed

lemma people_subscribed:
  "subscribe (js ''onLeave'', 1) 1
     (snd (subscribe (js ''add'', 0) 0
       (dispatcher.extend (createDecodingDispatcher (TypesDecoder [ContentTypes_json])) []))) = (1, people_routes True True [])"
  "unsubscribe 0 (people_routes True True people) = people_routes False True people"
  "unsubscribe 1 (people_routes False True people) = people_routes False False people"
  by (simp_all add: subscribe_def handle_event_def handle_def createDecodingDispatcher_def dispatcher.defs
      unsubscribe_def splice1_def people_routes_def)

lemma spec_named_subscribers:
  defines "d0 \<equiv> people_routes True True []"
  defines "d1 \<equiv> after ''add'' me d0"
  defines "d2 \<equiv> after ''add'' al d1"
  defines "d3 \<equiv> after ''onLeave'' (JArray [me]) (after ''add'' al (unsubscribe 0 d2))"
  defines "d4 \<equiv> after ''onLeave'' (JArray [al]) (unsubscribe 1 d3)"
  shows "map dispatcher.more [d0, d1, d2, d3, d4] = [[], [me], [me, al], [al], [al]]"
proof -
  have kinds: "isPerson me" "isPerson al" "isPeople (JArray [me])" "leaves (JArray [me]) me" "\<not> leaves (JArray [me]) al"
    by code_simp+
  have texts: "(js ''0'', me) \<in> set json_texts" "(js ''1'', al) \<in> set json_texts" "(js ''2'', JArray [me]) \<in> set json_texts"
    "(js ''3'', JArray [al]) \<in> set json_texts"
    by (simp_all add: json_texts_def)
  show ?thesis
    unfolding d4_def d3_def d2_def d1_def d0_def
    by (simp only: after_people [OF texts(1)] after_people [OF texts(2)] after_people [OF texts(3)]
        after_people [OF texts(4)] people_subscribed kinds simp_thms if_True if_False) (simp add: kinds people_routes_def del: leaves.simps)
qed

end
