(* ===== verification/Spec2Isabelle.thy ===== *)
theory Spec2Isabelle
  imports Witnesses Spec_Cases
begin

text \<open>
  A verification of the TypeScript implementation of Interop (js/src): a protocol of messages with
  headers and a body, exchanged over web sockets, with remote procedure calls and events on top.

  \<^bold>\<open>The program.\<close> A message is written as header lines, a blank line and a body
  (createBlobFromMessage.ts) and read back from a Blob (parseMessageFromBlob.ts). Messages are
  built from headers, content types and marshalers (createMessage.ts, createRpcMessage.ts,
  createRpcRequestMessage.ts, ContentTypes.ts, marshalers.ts, createDecoder.ts) and classified by guards
  (Message.ts, Headers.ts and their RPC variants). A connection (createWebSocketConn.ts,
  createWebSocketWriter.ts) parses what a socket receives into a promise exchange
  (Exchange/), from which \<^verbatim>\<open>read\<close> takes; the socket may be a persistent one that reconnects
  (PersistentWebSocket.ts) and hands its events to listeners (ConstrainedEventTarget/). A reactor
  (RpcClient/RpcReactor.ts) writes requests to a connection, matches responses to them in its run
  loop and hands events to a dispatcher (Dispatcher/); typed methods (RpcClient/RpcMethods.ts) and
  a logger (createRpcLogger.ts) wrap it.

  \<^bold>\<open>The theories\<close>, each after those it uses:
  \<^item> \<open>Prelude\<close>: results as a sum type with \<open>andThen\<close>, step relations and reachable states, the locale
    \<open>invariant_system\<close> that every invariant below interprets.
  \<^item> \<open>Js_String\<close>, \<open>Blob\<close>, \<open>Js_Value\<close>: strings as UTF-16 code units, UTF-8, decimal numbers; Blobs as
    bytes; dynamic values, plain objects with JavaScript's order of keys and the names every
    object inherits from \<^verbatim>\<open>Object.prototype\<close>; optional fields that are absent, \<^verbatim>\<open>undefined\<close> or given,
    which the spread of defaults tells apart. The record \<open>host\<close> holds what the program takes from its
    engine or its client: \<^verbatim>\<open>JSON\<close>, non-ASCII case mapping, regular expressions, guards, decoders.
  \<^item> \<open>Utilities\<close>: utilities.ts, with a promise and its two resolvers as a cell of a store.
  \<^item> \<open>Messages\<close>, \<open>Content\<close>: the guards, accessors, content types and constructors of messages, and
    that created requests are valid and have distinct identifiers.
  \<^item> \<open>Wire\<close>, \<open>Wire_Roundtrip\<close>: writer and parser. The chunked header scan equals a byte-wise one;
    what a peer writes is read whatever the case of its header names and its line breaks, and so a
    message of this program is read back as it was written; what happens without a length or
    without headers.
  \<^item> \<open>Registry\<close>, \<open>Event_Target\<close>, \<open>Dispatcher\<close>: the contract of ordered subscriptions as a locale,
    interpreted on listeners and on routes, which refine a plain list (of routes, also when a
    subscription is ended twice and the code removes another one); dispatch calls the listeners
    present at its start, and a message goes to the first route that matches.
  \<^item> \<open>Dispatch_Flight\<close>: the dispatches whose decoder is awaited while others start and subscriptions
    change; every message is delivered once, to the route chosen when it came.
  \<^item> \<open>Exchange\<close>: both exchanges; over any factory of items the k-th give meets the k-th take (locale
    \<open>item_factory\<close>), so the promise exchange is a queue.
  \<^item> \<open>Persistent_Web_Socket\<close>, \<open>Reconnection\<close>: the closure, its handlers, timers, promises and
    microtasks as an event loop over arbitrary client code; one connection at a time, bounded
    retries, no forgotten \<^verbatim>\<open>send\<close>, giving up, reconnection after a drop, none after \<^verbatim>\<open>close()\<close> on an open
    connection.
  \<^item> \<open>Web_Socket_Conn\<close>, \<open>Persistent_Conn\<close>: the connection by itself (reads in order, no reader left
    waiting after a close, what one side writes the other reads) and over a persistent socket as
    one system (its events reach the connection, when it reports that it is closed, and the reads
    that hang once the socket has given up).
  \<^item> \<open>Plain_Conn\<close>: the connection over a socket that the client passed in, in any state; it is closed
    with its socket, unless that was closed before, and then reads wait for ever; what is written
    before the socket is open is lost.
  \<^item> \<open>Rpc_Logger\<close>, \<open>Logged_Conn\<close>: what the logger logs, and the logger around any connection that
    keeps the contract \<open>message_conn\<close>, interpreted on the one over a persistent socket; it delivers
    what that connection delivers, but may reorder writes.
  \<^item> \<open>Rpc_Client\<close>: the reactor with its table of outstanding calls, its properties \<^verbatim>\<open>error\<close> and \<^verbatim>\<open>closed\<close>
    (which never becomes true) and the proxy of typed methods; other code may take identifiers
    from the same counter at any time. \<open>reactor_run\<close> is the reactor along a list of named events.
  \<^item> \<open>Run_Loop\<close>: the run loop suspended while it awaits a dispatch. Along every run it has the table of
    calls and the end that \<open>reactor_run\<close> has for the same calls and inputs, where each event's dispatch
    delivers in one step what the awaited one delivered; and it serves events in order.
  \<^item> \<open>Rpc_Connection\<close>, \<open>Client_Run\<close>: the reactor, its connection and the persistent socket as one system; a
    message on the socket is taken by the loop, a closed connection ends the run loop, and a socket
    that has given up leaves the client hanging. Along every run the reactor's state is that of
    \<open>reactor_run\<close> on the calls made and the inputs taken, the inputs are what the reads delivered, one
    by one, and each request is written once.
  \<^item> \<open>Spec_Cases\<close>: the cases of the repository's own tests, computed on the definitions.
  \<^item> \<open>Witnesses\<close>: concrete instances of the properties. This theory: a typed call from the method of
    the proxy over socket, parser, loop, decoder and guard to its result, whatever the server
    answers, and an event from the socket to the handler of its subscriber.

  \<^bold>\<open>Time and order.\<close> A step is a task of the event loop: a handler runs to its end, then the microtasks.
  What \<^verbatim>\<open>await\<close> cuts in two is two operations (\<open>on_message\<close> and \<open>on_parsed\<close>, \<open>write_message\<close> and \<open>on_buffered\<close>,
  \<open>call_send\<close> and \<open>call_result\<close>, \<open>dispatch_start\<close> and \<open>dispatch_resume\<close>, \<open>turn_start\<close> and \<open>turn_resume\<close>,
  \<open>logger_read\<close> and \<open>logger_deliver\<close>), and the second halves come in any order. A call takes its
  step when its content is marshalled, so calls may take theirs in any order; numbering the request,
  registering and writing it is one step, since nothing that answers it can come in between. One
  turn of the run loop is one step too, with the dispatch it awaits; \<open>Run_Loop\<close> cuts it in two, so that
  a dispatch may also never settle, and shows that the calls do not see the difference. A client's
  listeners are functions of all they have been called with so far. Timers fire at any time after they were set; their length is kept but no clock runs.

  \<^bold>\<open>Bounds.\<close> Numbers that the program counts with are natural numbers except the identifiers of
  requests: \<open>js_inc\<close> stops at 2^53 as a double does, and distinctness of identifiers is claimed below
  it. Bytes and code units are words of 8 and 16 bits. Every function is total: the one loop that
  is not structural, the header scan, has a termination proof, so there is no fuel.

  \<^bold>\<open>Not modelled.\<close> The definitions follow the source as written, not the ES5 code that the build
  emits from it. The index files only export names, the spec files are tests, and the interfaces in
  Conn.ts, Reader.ts, Writer.ts and ConstrainedEventTarget.ts hold types only. The state
  that a regular expression with the flag g or y keeps between tests, and output to the console
  beyond the lines that are logged, are left out. The Go, Ruby and PHP implementations
  of the same protocol are separate programs.
\<close>

section \<open>A typed call and its response\<close>

text \<open>What the default decoder of the reactor makes of a response, by its headers.\<close>

lemma default_call_result:
  assumes "opt_decoder opts = Absent"
  shows "call_result h opts name resp =
    (case header_of resp Header_Error of
       Some e \<Rightarrow> Inl (CallFailed name (if e \<noteq> [] then e else js ''[blank message]''))
     | None \<Rightarrow> (case header_of resp Header_Type of
         None \<Rightarrow> Inr JUndefined
       | Some ty \<Rightarrow>
           if ty = [] then Inr JUndefined
           else if ty = js ''application/json'' then json_parse h (blob_text (body resp))
           else if ty = js ''application/octet-stream'' then Inr (JBlob (body resp))
           else Inl (CannotDecodeType ty)))"
  using assms
  by (auto simp: call_result_def reactor_decoder_def run_decoder_def createDecoder_def json_unmarshal_def
      null_unmarshal_def split: option.splits)

lemma obj_wf_canonical: "obj_wf (canonical_headers u ls)"
  unfolding canonical_headers_def by (rule obj_wf_assign) simp

text \<open>
  C2: a typed remote call completes with what the server answered, whatever the answer. After a
  method of the proxy was called on a client whose loop waits and whose decoder is the default
  one, its promise is pending. When the server's response, written by any peer, carrying the
  request's identifier and a Content-Length that counts the bytes of its body, has arrived on the
  socket as bytes, was parsed and taken by the run loop, the promise is settled: an error header
  rejects it with the server's error; without content it is \<^verbatim>\<open>undefined\<close>; JSON is parsed, binary
  content is the body, any other content type is an error; and a result that the method's guard
  refuses rejects it. Then the loop waits for the next message. The guard of a method that is got
  for the first time is the one that the table of guards has under its name.
\<close>

theorem typed_call_over_socket:
  assumes "reach (client_start valid_url options session) (client_step h opts (with_defaults options) closable on_event) s"
    and "fst (get_method guards (JString name) methods) = RpcMethod name guard"
    and "method_call h opts name content s = (Inr i, t)" and "nextId (ids (core t)) < 2 ^ 53"
    and "ended (core t) = None" and "loop_input t = None" and "parsing (conn (link t)) = []"
    and "opt_decoder opts = Absent"
    and "peer_lines ls" and "blob_bytes b = peer_headers ls @ eol cr @ bs @ eol cr'"
    and "obj_get (canonical_headers h ls) (header_name Header_Length) = Some (dec_string (length bs))"
    and "obj_get (canonical_headers h ls) (header_name Header_ID) = header_of (last (written (core t))) Header_ID"
  shows "let s1 = on_link (ws_task h (with_defaults options) (SockMessage w (JBlob b))) t;
      s2 = on_link (parse_done h (next_parse (conn (link t)))) s1;
      s3 = loop_turn h on_event s2;
      checked = (\<lambda>v. case guard of
          Some g \<Rightarrow> if user_guard h g v then Fulfilled v else Rejected (UnexpectedResponse name)
        | None \<Rightarrow> Fulfilled v)
    in (obj_get methods name = None \<longrightarrow> guard = (case guards of Some g \<Rightarrow> obj_get g name | None \<Rightarrow> None)) \<and>
       method_value h opts name guard i t = Pending \<and>
       method_value h opts name guard i s3 =
         (case obj_get (canonical_headers h ls) (header_name Header_Error) of
            Some e \<Rightarrow> Rejected (CallFailed name (if e \<noteq> [] then e else js ''[blank message]''))
          | None \<Rightarrow> (case obj_get (canonical_headers h ls) (header_name Header_Type) of
              None \<Rightarrow> checked JUndefined
            | Some ty \<Rightarrow>
                if ty = [] then checked JUndefined
                else if ty = js ''application/json'' then
                  (case json_parse h (utf8_decode bs) of Inl e \<Rightarrow> Rejected e | Inr v \<Rightarrow> checked v)
                else if ty = js ''application/octet-stream'' then checked (JBlob (mk_blob bs))
                else Rejected (CannotDecodeType ty))) \<and>
       ended (core s3) = None \<and> loop_input s3 = None"
proof -
  have reach_t: "reach (client_start valid_url options session) (client_step h opts (with_defaults options) closable on_event) t"
    using reach_step [OF assms(1) client_step.call [where name = name and content = "method_content content"]] assms(3)
    by (simp add: method_call_def)
  have core: "reach (reactor_start session) (reactor_step h opts on_event) (core s)"
    using client_refines_aux [OF assms(1)] by blast
  have sent: "call_send h opts name (method_content content) (core s) = (Inr i, core t)"
    using assms(3) by (auto simp: method_call_def client_call_def split_beta prod_eq_iff)
  obtain k where k: "header_of (last (written (core t))) Header_ID = Some k" "calls (core t) = calls (core s) @ [(k, i)]"
    "triplets (core t) = triplets (core s) @ [Pending]" "i = length (triplets (core s))"
    using call_registers [OF core sent assms(4)] by auto
  have "calls_ok session (core t)"
    using call_send_inv [OF outstanding.inv_reach [OF core], of h opts name "method_content content"] sent assms(4)
    by (simp add: reactor_inv_def)
  then have own: "obj_get (calls (core t)) k = Some i"
    using k(2) by (intro obj_get_Some_iff [THEN iffD2]) (auto simp: calls_ok_def)
  let ?m = "\<lparr>headers = canonical_headers h ls, body = mk_blob bs\<rparr>"
  have m: "parseMessageFromBlob h b = Inr ?m" "obj_wf (headers ?m)" "header_of ?m Header_ID = Some k"
    using parse_peer_exact [OF assms(9-11)] obj_wf_canonical assms(12) k(1) by (simp_all add: header_of_def)
  have "obj_get methods name = None \<Longrightarrow> guard = (case guards of Some g \<Rightarrow> obj_get g name | None \<Rightarrow> None)"
    using assms(2) by (auto simp: get_method_def obj_lookup_def Let_def split: if_splits)
  with socket_response [OF reach_t assms(4-6) own assms(7) m, of w] k(3,4) show ?thesis
    unfolding Let_def method_value_def call_value_def
    by (auto simp: promise_at_def method_result_def default_call_result [OF assms(8)] header_of_def blob_text_def
        split: sum.splits option.splits)
qed

theorem typed_call_over_socket_witness:
  "method_value demo_host demo_reactor_options (js ''ping'') (Some 0) 0
     (loop_turn demo_host demo_on_event
       (on_link (parse_done demo_host (next_parse (conn (link demo_client_called))))
         (on_link (ws_task demo_host demo_once_settings (SockMessage 0 (JBlob demo_peer_response)))
           demo_client_called))) = Rejected (CallFailed (js ''ping'') (js ''[blank message]''))"
proof -
  have "js ''ping'' \<notin> set object_prototype" by code_simp
  then have "fst (get_method (Some [(js ''ping'', 0)]) (JString (js ''ping'')) []) = RpcMethod (js ''ping'') (Some 0)"
    by (simp add: get_method_def obj_lookup_def obj_simps Let_def)
  note demo = typed_call_over_socket [OF demo_client_start this, where content = JUndefined and i = 0
      and t = demo_client_called and ls = demo_peer_lines and cr = True and cr' = False and bs = "[]"
      and b = demo_peer_response and w = 0]
  have "header_of (last (written (core demo_client_called))) Header_ID = Some (js ''7.1'')"
    by (simp add: demo_client_called_parts) (simp add: demo_called_def demo_request_def header_of_def obj_simps)
  then show ?thesis
    using demo demo_client_called_waits demo_peer_facts
    by (simp add: Let_def demo_peer_response_def)
qed

section \<open>An event and its subscriber\<close>

text \<open>
  C4: an event reaches its subscriber, and its failure is fatal to the client. When an event of any
  peer (no identifier, a class, a JSON body and a Content-Length that counts it) has arrived on the socket of a waiting client, was
  parsed and taken by the run loop, and a named subscriber's route is the first that matches, then
  the subscriber's handler runs once on the parsed body, provided its guard accepts it, and the loop
  goes on unless the handler throws. A body that is not JSON, or one that the guard refuses, ends
  the loop; and once it has ended no outstanding call is ever settled.
\<close>

theorem event_over_socket:
  assumes "reach (client_start valid_url options session)
      (client_step h opts (with_defaults options) closable (dispatch h run_handler)) s"
    and "ended (core s) = None" and "loop_input s = None" and "parsing (conn (link s)) = []"
    and "peer_lines ls" and "blob_bytes b = peer_headers ls @ eol cr @ bs @ eol cr'"
    and "hs = canonical_headers h ls" and "obj_get hs (header_name Header_Length) = Some (dec_string (length bs))"
    and "obj_get hs (header_name Header_ID) = None" and "obj_get hs (header_name Header_Class) = Some c"
    and "obj_get hs (header_name Header_Type) = Some (js ''application/json'')"
    and "d = dispatch_state (core s)" and "decoder d = TypesDecoder [ContentTypes_json]"
    and "routes d = pre @ r # post" and "matcher r = ClassIs c" and "handler r = GuardedHandler name guard n"
    and "\<And>q. q \<in> set pre \<Longrightarrow> run_matcher h (matcher q) \<lparr>headers = hs, body = mk_blob bs\<rparr> = Inr False"
    and "s3 = loop_turn h (dispatch h run_handler) (on_link (parse_done h (next_parse (conn (link s))))
      (on_link (ws_task h (with_defaults options) (SockMessage w (JBlob b))) s))"
  shows "(case json_parse h (utf8_decode bs) of
        Inl e \<Rightarrow> ended (core s3) = Some e
      | Inr v \<Rightarrow>
          if user_guard h guard v
          then dispatch_state (core s3) = snd (run_handler n v hs d) \<and>
            ended (core s3) = (case fst (run_handler n v hs d) of Inl e \<Rightarrow> Some e | Inr _ \<Rightarrow> None)
          else ended (core s3) = Some (TypeCheckFailed name)) \<and>
    ((client_step h opts (with_defaults options) closable (dispatch h run_handler))\<^sup>*\<^sup>* s3 t \<and> ended (core s3) \<noteq> None \<longrightarrow>
      (\<forall>i < length (triplets (core s)). triplets (core t) ! i = triplets (core s) ! i))"
proof -
  let ?m = "\<lparr>headers = hs, body = mk_blob bs\<rparr>" 
    and ?step = "client_step h opts (with_defaults options) closable (dispatch h run_handler)"
  have m: "parseMessageFromBlob h b = Inr ?m" "obj_wf (headers ?m)"
    using parse_peer_exact [OF assms(5,6)] obj_wf_canonical assms(7,8) by simp_all
  have q: "core s3 = run_turn h (dispatch h run_handler) (Inr ?m) (core s)"
    using socket_message [OF assms(1-4) m(1), of w] assms(18) by (simp add: Let_def)
  have kind: "\<not> isRpcMessage (message_val ?m)" "isRpcEventMessage (message_val ?m)"
    using assms(9,10) m(2) by (simp_all add: guards_message_val header_of_def)
  have "first_route h (routes d) ?m = Inr (Some r)"
    using first_route_skip [of pre h ?m "r # post"] assms(10,14,15,17) by (simp add: run_matcher_def header_of_def)
  then have dsp: "dispatch h run_handler ?m d =
      (case json_parse h (utf8_decode bs) of
         Inl e \<Rightarrow> (Inl e, d)
       | Inr v \<Rightarrow> call_handler h run_handler (handler r) v hs d)"
    using assms(11,13)
    by (simp add: dispatch_def run_decoder_def createDecoder_def header_of_def json_unmarshal_def blob_text_def
        split: sum.split)
  have trip: "triplets (core s3) = triplets (core s)"
    using kind by (simp add: q run_turn_def split: prod.splits sum.splits)
  have "loop_live s" using client_refines_aux [OF assms(1)] by blast
  then have "loop_live s3"
    unfolding assms(18) by (intro client_step_live [OF _ client_step.turn]) (simp add: loop_live_def)
  then have stuck: "\<forall>i < length (triplets (core s)). triplets (core t) ! i = triplets (core s) ! i"
    if "?step\<^sup>*\<^sup>* s3 t" "ended (core s3) \<noteq> None"
    using ended_stays [OF that(2)] client_core_steps [OF that(1)] trip by fastforce
  show ?thesis
    using kind dsp assms(2,12,16) stuck
    by (auto simp: q run_turn_def call_handler_def split: sum.splits prod.splits)
qed

text \<open>An event that its guard rejects.\<close>

definition demo_event_dispatcher :: dispatcher where
  "demo_event_dispatcher = \<lparr>decoder = TypesDecoder [ContentTypes_json],
     routes = [\<lparr>route_id = 0, matcher = ClassIs (js ''add''), handler = GuardedHandler (js ''add'') 0 0\<rparr>], next_route = 1\<rparr>"

definition demo_event_client :: "dispatcher rpc_conn" where
  "demo_event_client = connect_client demo_ids demo_event_dispatcher demo_pconn"

definition demo_event_lines :: "((jsstring \<times> jsstring) \<times> bool) list" where
  "demo_event_lines = [((js ''interop-rpc-class'', js ''add''), True), ((js ''content-type'', js ''application/json''), False),
     ((js ''Content-Length'', js ''1''), False)]"

definition demo_event_bytes :: blob where
  "demo_event_bytes = mk_blob (peer_headers demo_event_lines @ eol True @ [49] @ eol True)"

abbreviation demo_handler :: "unit handler_code" where
  "demo_handler \<equiv> (\<lambda>n obj hs d. (Inr (), d))"

theorem event_over_socket_witness:
  "ended (core (loop_turn demo_host (dispatch demo_host demo_handler)
     (on_link (parse_done demo_host (next_parse (conn (link demo_event_client))))
       (on_link (ws_task demo_host demo_once_settings (SockMessage 0 (JBlob demo_event_bytes))) demo_event_client)))) =
   Some (TypeCheckFailed (js ''add''))"
proof -
  have "pconn_start (\<lambda>u. True) demo_once demo_pconn"
    by (simp add: pconn_start_def persistent_conn_def createPersistentWebSocket_def demo_pconn_def)
  then have r: "reach (client_start (\<lambda>u. True) demo_once 7)
      (client_step demo_host demo_reactor_options demo_once_settings False (dispatch demo_host demo_handler)) demo_event_client"
    by (intro reach_start) (auto simp: client_start_def demo_event_client_def demo_ids_def)
  have conn: "conn (link demo_event_client) = snd (conn_read createWebSocketConn)"
    and "waiting demo_event_client = Some (fst (conn_read createWebSocketConn))"
    by (simp_all add: demo_event_client_def connect_client_def loop_read_parts demo_pconn_def)
  then have "waiting demo_event_client = Some (Inr 0)" by (simp add: demo_pconn_defs newPromiseTriplet_def)
  then have wait: "loop_input demo_event_client = None"
    by (simp add: loop_input_def conn demo_first_read promise_at_def)
  have core: "core demo_event_client = createRpcReactor demo_ids demo_event_dispatcher"
    by (simp add: demo_event_client_def connect_client_def loop_read_parts)
  have idle: "ended (core demo_event_client) = None" "loop_input demo_event_client = None"
    "parsing (conn (link demo_event_client)) = []"
    by (simp_all add: core createRpcReactor_def conn demo_first_read wait)
  have lines: "peer_lines demo_event_lines"
    "obj_get (canonical_headers demo_host demo_event_lines) (header_name Header_Length) = Some (dec_string 1)"
    "obj_get (canonical_headers demo_host demo_event_lines) (header_name Header_ID) = None"
    "obj_get (canonical_headers demo_host demo_event_lines) (header_name Header_Class) = Some (js ''add'')"
    "obj_get (canonical_headers demo_host demo_event_lines) (header_name Header_Type) = Some (js ''application/json'')"
    by code_simp+
  have "\<not> user_guard demo_host 0 v" "json_parse demo_host z = Inr (JString z)" for v z by (simp_all add: demo_host_def)
  then show ?thesis
    using event_over_socket [OF r idle lines(1), where cr = True and cr' = True and bs = "[49]" and b = demo_event_bytes
        and w = 0 and pre = "[]" and post = "[]" and c = "js ''add''" and name = "js ''add''" and guard = 0 and n = 0
        and r = "\<lparr>route_id = 0, matcher = ClassIs (js ''add''), handler = GuardedHandler (js ''add'') 0 0\<rparr>"
        and d = demo_event_dispatcher, OF _ refl _ _ _ _ _ _ _ _ _ _ refl]
      lines(2-5)
    by (simp add: demo_event_bytes_def core createRpcReactor_def demo_event_dispatcher_def)
qed

end
